(* ===== verification/Prelude.thy ===== *)
theory Prelude
  imports Main "HOL-Library.Word"
begin

text \<open>
  Shared vocabulary of the development: the type names of the C program, the collections
  of rewrite and introduction rules the components feed, and the generic facts on lists
  and options that several components use.

  Memory allocation is assumed to succeed throughout: the branches the code takes when
  \<^verbatim>\<open>malloc\<close> returns NULL are not part of any definition of the development.
\<close>

section \<open>Names of the C types\<close>

type_synonym byte = "8 word"
type_synonym u16 = "16 word"
type_synonym u32 = "32 word"
type_synonym u64 = "64 word"

text \<open>A C string is the list of its characters before the terminating NUL.\<close>

type_synonym cstring = string

abbreviation NUL :: char where
  "NUL \<equiv> CHR 0x00"

abbreviation LF :: char where
  "LF \<equiv> CHR 0x0A"

definition cstr :: "char list \<Rightarrow> cstring" where
  "cstr = takeWhile (\<lambda>c. c \<noteq> NUL)"

text \<open>\<open>s[i]\<close> of a C string: the terminating NUL is part of the array.\<close>

definition cchar :: "cstring \<Rightarrow> nat \<Rightarrow> char" where
  "cchar s i = (if i < length s then s ! i else NUL)"

section \<open>Collections\<close>

named_theorems inv_intros \<open>an operation keeps the invariant of its component\<close>
named_theorems abs_simps \<open>the abstract value of the result of an operation\<close>
named_theorems frame_simps \<open>the parts of the state an operation leaves alone\<close>

section \<open>Generic facts on lists and options\<close>

lemma cstr_no_nul [simp]: "NUL \<notin> set s \<Longrightarrow> cstr s = s"
  by (auto simp: cstr_def takeWhile_eq_all_conv)

lemma cchar_simps [simp]:
  "cchar [] i = NUL"
  "cchar (c # s) 0 = c"
  "cchar (c # s) (Suc i) = cchar s i"
  by (auto simp: cchar_def)

lemma cchar_append: "cchar (xs @ ys) (length xs + i) = cchar ys i"
  by (simp add: cchar_def)

lemma cchar_length [simp]: "cchar s (length s) = NUL"
  by (simp add: cchar_def)

lemma cchar_drop: "cchar (drop n s) i = cchar s (n + i)"
  by (auto simp: cchar_def)

lemma of_char_256 [simp]: "(of_char c :: nat) < 256"
proof -
  have "(of_char c :: nat) = of_char c mod 256"
    by (metis of_char_of char_of_char)
  then show ?thesis by simp
qed

lemma of_char_div_16 [simp]: "(of_char c :: nat) div 16 < 16"
  by (rule less_mult_imp_div_less) simp

lemma map_Some_the: "(\<forall>x \<in> set xs. x \<noteq> None) \<Longrightarrow> map (Some \<circ> the) xs = xs"
  by (induction xs) auto

lemma foldl_snoc: "foldl f a (xs @ [x]) = f (foldl f a xs) x"
  by simp

lemma filter_update_other:
  "\<lbrakk>i < length xs; P (xs ! i) = P x\<rbrakk> \<Longrightarrow> length (filter P (xs[i := x])) = length (filter P xs)"
proof (induction xs arbitrary: i)
  case (Cons a xs)
  then show ?case by (cases i) auto
qed simp

lemma distinct_filter_remove1:
  "distinct xs \<Longrightarrow> filter (\<lambda>y. y \<noteq> x) xs = remove1 x xs"
  by (induction xs) (auto simp: filter_id_conv)

end
