(* ===== verification/Sds.thy ===== *)
theory Sds
  imports Prelude
begin

text \<open>
  The dynamic strings of \<^verbatim>\<open>se/se/se/utils/sds.c\<close>, the buffers the coroutine runtime reads
  sockets into. A string is its header (length, free space) and its allocated cells; a
  cell that \<^verbatim>\<open>malloc\<close> returned and nothing has written is \<open>None\<close>. \<open>sds_ok\<close> is the type
  invariant (the buffer has \<open>len + free + 1\<close> cells, the first \<open>len\<close> are written and the
  next one is NUL), \<open>sds_val\<close> the byte string a caller sees. Lengths are mathematical
  integers: the code's \<^verbatim>\<open>int\<close> fields are meant to stay below \<open>2^31\<close>.
\<close>

section \<open>State\<close>

record sds =
  sh_len :: nat
  sh_free :: nat
  sh_buf :: "char option list"

definition sds_ok :: "sds \<Rightarrow> bool" where
  "sds_ok s \<longleftrightarrow> length (sh_buf s) = sh_len s + sh_free s + 1 \<and>
     (\<forall>c \<in> set (take (sh_len s) (sh_buf s)). c \<noteq> None) \<and>
     sh_buf s ! sh_len s = Some NUL"

definition sds_val :: "sds \<Rightarrow> char list" where
  "sds_val s = map the (take (sh_len s) (sh_buf s))"

text \<open>\<open>memcpy\<close> of \<open>xs\<close> to offset \<open>i\<close> of a buffer, and \<open>realloc\<close> to \<open>n\<close> cells.\<close>

definition mem_put :: "char option list \<Rightarrow> nat \<Rightarrow> char list \<Rightarrow> char option list" where
  "mem_put b i xs = take i b @ map Some xs @ drop (i + length xs) b"

definition mem_realloc :: "char option list \<Rightarrow> nat \<Rightarrow> char option list" where
  "mem_realloc b n = take n b @ replicate (n - length b) None"

definition SDS_MAX_PREALLOC :: nat where
  "SDS_MAX_PREALLOC = 1024 * 1024"

definition sdslen :: "sds \<Rightarrow> nat" where
  "sdslen s = sh_len s"

definition sdsavail :: "sds \<Rightarrow> nat" where
  "sdsavail s = sh_free s"

section \<open>Operations\<close>

definition sdsnewlen :: "char list option \<Rightarrow> nat \<Rightarrow> sds" where
  "sdsnewlen init initlen =
     \<lparr>sh_len = initlen, sh_free = 0,
      sh_buf = (case init of
                  Some t \<Rightarrow> map Some (take initlen t)
                | None \<Rightarrow> replicate initlen (Some NUL)) @ [Some NUL]\<rparr>"

definition sdsempty :: sds where
  "sdsempty = sdsnewlen (Some []) 0"

definition sdsnew :: "cstring option \<Rightarrow> sds" where
  "sdsnew init = sdsnewlen init (case init of None \<Rightarrow> 0 | Some t \<Rightarrow> length t)"

definition sdsdup :: "sds \<Rightarrow> sds" where
  "sdsdup s = sdsnewlen (Some (sds_val s)) (sdslen s)"

definition sdsupdatelen :: "sds \<Rightarrow> sds" where
  "sdsupdatelen s =
     (let reallen = length (takeWhile (\<lambda>c. c \<noteq> Some NUL) (sh_buf s))
      in s\<lparr>sh_free := sh_free s + (sh_len s - reallen), sh_len := reallen\<rparr>)"

definition sdsclear :: "sds \<Rightarrow> sds" where
  "sdsclear s = s\<lparr>sh_free := sh_free s + sh_len s, sh_len := 0,
                  sh_buf := mem_put (sh_buf s) 0 [NUL]\<rparr>"

definition sdsMakeRoomFor :: "sds \<Rightarrow> nat \<Rightarrow> sds" where
  "sdsMakeRoomFor s addlen =
     (if addlen \<le> sdsavail s then s
      else let len = sdslen s;
               need = len + addlen;
               newlen = (if need < SDS_MAX_PREALLOC then need * 2 else need + SDS_MAX_PREALLOC)
           in s\<lparr>sh_buf := mem_realloc (sh_buf s) (newlen + 1), sh_free := newlen - len\<rparr>)"

definition sdsRemoveFreeSpace :: "sds \<Rightarrow> sds" where
  "sdsRemoveFreeSpace s = s\<lparr>sh_buf := mem_realloc (sh_buf s) (sh_len s + 1), sh_free := 0\<rparr>"

text \<open>The header is two \<^verbatim>\<open>int\<close>s, eight bytes.\<close>

definition sdsAllocSize :: "sds \<Rightarrow> nat" where
  "sdsAllocSize s = 8 + sh_len s + sh_free s + 1"

text \<open>
  \<open>None\<close> is a failed assertion, or a length pushed below zero (the code would then write
  before the buffer).
\<close>

definition sdsIncrLen :: "sds \<Rightarrow> int \<Rightarrow> sds option" where
  "sdsIncrLen s incr =
     (if int (sh_free s) < incr then None
      else let len = int (sh_len s) + incr; free = int (sh_free s) - incr
           in if free < 0 \<or> len < 0 then None
              else Some (s\<lparr>sh_len := nat len, sh_free := nat free,
                           sh_buf := mem_put (sh_buf s) (nat len) [NUL]\<rparr>))"

definition sdsgrowzero :: "sds \<Rightarrow> nat \<Rightarrow> sds" where
  "sdsgrowzero s len =
     (let curlen = sh_len s
      in if len \<le> curlen then s
         else let s = sdsMakeRoomFor s (len - curlen);
                  totlen = sh_len s + sh_free s
              in s\<lparr>sh_buf := mem_put (sh_buf s) curlen (replicate (len - curlen + 1) NUL),
                   sh_len := len, sh_free := totlen - len\<rparr>)"

definition sdscatlen :: "sds \<Rightarrow> char list \<Rightarrow> nat \<Rightarrow> sds" where
  "sdscatlen s t len =
     (let curlen = sdslen s;
          s = sdsMakeRoomFor s len;
          b = mem_put (sh_buf s) curlen (take len t)
      in s\<lparr>sh_len := curlen + len, sh_free := sh_free s - len,
           sh_buf := mem_put b (curlen + len) [NUL]\<rparr>)"

definition sdscat :: "sds \<Rightarrow> cstring \<Rightarrow> sds" where
  "sdscat s t = sdscatlen s t (length t)"

definition sdscatsds :: "sds \<Rightarrow> sds \<Rightarrow> sds" where
  "sdscatsds s t = sdscatlen s (sds_val t) (sdslen t)"

definition sdscpylen :: "sds \<Rightarrow> char list \<Rightarrow> nat \<Rightarrow> sds" where
  "sdscpylen s t len =
     (let totlen = sh_free s + sh_len s;
          s = (if totlen < len then sdsMakeRoomFor s (len - sh_len s) else s);
          totlen = sh_free s + sh_len s;
          b = mem_put (sh_buf s) 0 (take len t)
      in s\<lparr>sh_buf := mem_put b len [NUL], sh_len := len, sh_free := totlen - len\<rparr>)"

definition sdscpy :: "sds \<Rightarrow> cstring \<Rightarrow> sds" where
  "sdscpy s t = sdscpylen s t (length t)"

text \<open>
  \<open>out\<close> is the whole text \<^verbatim>\<open>vsnprintf\<close> would print for the format and its arguments; the loop
  doubles the buffer until its last cell but one stays NUL.
\<close>

function vprintf_buflen :: "cstring \<Rightarrow> nat \<Rightarrow> nat" where
  "vprintf_buflen out buflen =
     (if 0 < buflen \<and> cchar (take (buflen - 1) out) (buflen - 2) \<noteq> NUL
      then vprintf_buflen out (buflen * 2) else buflen)"
  by pat_completeness auto
termination
  by (relation "measure (\<lambda>(out, buflen). length out + 2 - buflen)")
    (auto simp: cchar_def split: if_splits)

definition sdscatprintf :: "sds \<Rightarrow> cstring \<Rightarrow> sds" where
  "sdscatprintf s out = sdscat s (take (vprintf_buflen out 16 - 1) out)"

section \<open>The representation\<close>

text \<open>
  \<open>sds_rep s xs\<close>: the string is well formed and holds \<open>xs\<close>, with the shape of its buffer
  written out. Every operation is proved over this shape.
\<close>

definition sds_rep :: "sds \<Rightarrow> char list \<Rightarrow> bool" where
  "sds_rep s xs \<longleftrightarrow>
     (\<exists>r. sh_buf s = map Some xs @ Some NUL # r \<and> length r = sh_free s \<and> sh_len s = length xs)"

lemma sds_rep_iff: "sds_rep s xs \<longleftrightarrow> sds_ok s \<and> sds_val s = xs"
proof
  assume "sds_rep s xs"
  then show "sds_ok s \<and> sds_val s = xs"
    by (auto simp: sds_rep_def sds_ok_def sds_val_def nth_append comp_def)
next
  assume a: "sds_ok s \<and> sds_val s = xs"
  then have xs: "map Some xs = take (sh_len s) (sh_buf s)"
    by (auto simp: sds_ok_def sds_val_def intro!: map_Some_the)
  have len: "sh_len s < length (sh_buf s)"
    using a by (simp add: sds_ok_def)
  have "sh_buf s = map Some xs @ Some NUL # drop (Suc (sh_len s)) (sh_buf s)"
    using a id_take_nth_drop [OF len] by (simp add: xs sds_ok_def)
  moreover have "sh_len s = length xs"
    using a len by (auto simp: sds_val_def)
  ultimately show "sds_rep s xs"
    using a unfolding sds_rep_def
    by (intro exI [of _ "drop (Suc (sh_len s)) (sh_buf s)"]) (auto simp: sds_ok_def)
qed

lemma sds_repI:
  "\<lbrakk>sh_buf s = map Some xs @ Some NUL # r; length r = sh_free s; sh_len s = length xs\<rbrakk> \<Longrightarrow> sds_rep s xs"
  by (auto simp: sds_rep_def)

lemma sds_repE:
  assumes "sds_rep s xs"
  obtains r where "sh_buf s = map Some xs @ Some NUL # r" "length r = sh_free s" "sh_len s = length xs"
  using assms by (auto simp: sds_rep_def)

lemma sds_rep_val: "sds_ok s \<Longrightarrow> sds_rep s (sds_val s)"
  by (simp add: sds_rep_iff)

lemma sds_rep_len: "sds_rep s xs \<Longrightarrow> sdslen s = length xs"
  by (auto simp: sds_rep_def sdslen_def)

lemma mem_put_append: "mem_put (map Some xs @ r) (length xs) ys = map Some (xs @ ys) @ drop (length ys) r"
  by (simp add: mem_put_def)

lemma mem_put_here: "n = length xs \<Longrightarrow> mem_put (map Some xs @ r) n ys = map Some (xs @ ys) @ drop (length ys) r"
  by (simp add: mem_put_append)

lemma mem_put_0: "mem_put b 0 ys = map Some ys @ drop (length ys) b"
  by (simp add: mem_put_def)

lemma mem_realloc_append:
  "length (xs @ r) \<le> n \<Longrightarrow> mem_realloc (xs @ r) n = xs @ r @ replicate (n - length (xs @ r)) None"
  by (simp add: mem_realloc_def)

lemma sds_rep_newlen [intro, inv_intros]:
  "n \<le> length t \<Longrightarrow> sds_rep (sdsnewlen (Some t) n) (take n t)"
  by (rule sds_repI [where r = "[]"]) (auto simp: sdsnewlen_def)

lemma sds_rep_newlen_zero [intro, inv_intros]:
  "sds_rep (sdsnewlen None n) (replicate n NUL)"
  by (rule sds_repI [where r = "[]"]) (auto simp: sdsnewlen_def)

lemma sds_rep_empty [intro, inv_intros]: "sds_rep sdsempty []"
  using sds_rep_newlen [of 0 "[]"] by (simp add: sdsempty_def)

lemma sds_rep_new [intro, inv_intros]: "sds_rep (sdsnew (Some t)) t"
  using sds_rep_newlen [of "length t" t] by (simp add: sdsnew_def)

lemma sds_rep_dup [inv_intros]: "sds_rep s xs \<Longrightarrow> sds_rep (sdsdup s) xs"
  using sds_rep_newlen [of "length xs" xs] by (auto simp: sdsdup_def sds_rep_len sds_rep_iff)

lemma sds_rep_clear [inv_intros]:
  assumes "sds_rep s xs"
  shows "sds_rep (sdsclear s) [] \<and> sdsavail (sdsclear s) = sdsavail s + length xs"
proof -
  from assms obtain r where r: "sh_buf s = map Some xs @ Some NUL # r"
    "length r = sh_free s" "sh_len s = length xs"
    by (rule sds_repE)
  show ?thesis
    by (auto simp: sdsclear_def sdsavail_def r mem_put_0
        intro!: sds_repI [where r = "drop 1 (map Some xs @ Some NUL # r)"])
qed

lemma sds_rep_room [inv_intros]:
  assumes "sds_rep s xs"
  shows "sds_rep (sdsMakeRoomFor s n) xs \<and> n \<le> sdsavail (sdsMakeRoomFor s n)"
proof (cases "n \<le> sdsavail s")
  case True
  then show ?thesis using assms by (simp add: sdsMakeRoomFor_def)
next
  case False
  from assms obtain r where r: "sh_buf s = map Some xs @ Some NUL # r"
    "length r = sh_free s" "sh_len s = length xs"
    by (rule sds_repE)
  define m where "m = (if length xs + n < SDS_MAX_PREALLOC then (length xs + n) * 2
                       else length xs + n + SDS_MAX_PREALLOC)"
  have m: "length xs + n \<le> m" by (simp add: m_def)
  have "sdsMakeRoomFor s n = s\<lparr>sh_buf := mem_realloc (sh_buf s) (m + 1), sh_free := m - length xs\<rparr>"
    using False by (simp add: sdsMakeRoomFor_def m_def Let_def sdslen_def r)
  moreover have "mem_realloc (sh_buf s) (m + 1) =
      map Some xs @ Some NUL # r @ replicate (m - length xs - length r) None"
    using False m by (simp add: mem_realloc_def r sdsavail_def)
  moreover have "length r \<le> m - length xs"
    using False m by (simp add: r sdsavail_def)
  ultimately show ?thesis using m
    by (auto simp: sdsavail_def r intro!: sds_repI [where r = "r @ replicate (m - length xs - length r) None"])
qed

lemma sds_rep_removefree [inv_intros]:
  assumes "sds_rep s xs"
  shows "sds_rep (sdsRemoveFreeSpace s) xs \<and> sdsavail (sdsRemoveFreeSpace s) = 0"
proof -
  from assms obtain r where r: "sh_buf s = map Some xs @ Some NUL # r"
    "length r = sh_free s" "sh_len s = length xs"
    by (rule sds_repE)
  show ?thesis
    by (auto simp: sdsRemoveFreeSpace_def sdsavail_def r mem_realloc_def intro!: sds_repI [where r = "[]"])
qed

text \<open>
  \<open>sdsIncrLen\<close> after the caller wrote \<open>ys\<close> into the free space (the use \<^verbatim>\<open>se_core.c\<close> makes
  of it, with \<^verbatim>\<open>read(2)\<close> as the writer): the string grows by \<open>ys\<close>.
\<close>

definition sds_poke :: "sds \<Rightarrow> char list \<Rightarrow> sds" where
  "sds_poke s ys = s\<lparr>sh_buf := mem_put (sh_buf s) (sh_len s) ys\<rparr>"

lemma sds_rep_incr:
  assumes "sds_rep s xs" "length ys \<le> sdsavail s"
  shows "\<exists>s'. sdsIncrLen (sds_poke s ys) (int (length ys)) = Some s' \<and> sds_rep s' (xs @ ys) \<and>
              sdsavail s' = sdsavail s - length ys"
proof -
  from assms obtain r where r: "sh_buf s = map Some xs @ Some NUL # r"
    "length r = sh_free s" "sh_len s = length xs"
    by (auto elim: sds_repE)
  have le: "length ys \<le> sh_free s"
    using assms by (simp add: sdsavail_def)
  have "mem_put (sh_buf (sds_poke s ys)) (length (xs @ ys)) [NUL] =
      map Some (xs @ ys) @ Some NUL # drop (Suc (length ys)) (Some NUL # r)"
    by (simp add: sds_poke_def r mem_put_append mem_put_here)
      (simp add: mem_put_def)
  then show ?thesis
    using le by (auto simp: sdsIncrLen_def sds_poke_def r sdsavail_def nat_add_distrib of_nat_diff
        intro!: sds_repI [where r = "drop (length ys) r"])
qed

lemma sds_rep_decr:
  assumes "sds_rep s xs" "n \<le> length xs"
  shows "\<exists>s'. sdsIncrLen s (- int n) = Some s' \<and> sds_rep s' (take (length xs - n) xs)"
proof -
  from assms obtain r where r: "sh_buf s = map Some xs @ Some NUL # r"
    "length r = sh_free s" "sh_len s = length xs"
    by (auto elim: sds_repE)
  have "mem_put (sh_buf s) (length xs - n) [NUL] =
    map Some (take (length xs - n) xs) @ Some NUL # drop (Suc (length xs - n)) (map Some xs @ Some NUL # r)"
    using assms(2) by (simp add: mem_put_def r take_map)
  moreover have "nat (int (length xs) - int n) = length xs - n"
    using assms(2) by linarith
  moreover have "nat (int (sh_free s) + int n) = sh_free s + n"
    by linarith
  ultimately show ?thesis
    using assms(2) by (auto simp: sdsIncrLen_def r intro!: sds_repI)
qed

lemma sdsIncrLen_assert: "int (sdsavail s) < incr \<Longrightarrow> sdsIncrLen s incr = None"
  by (simp add: sdsIncrLen_def sdsavail_def)

lemma sds_rep_catlen [inv_intros]:
  assumes "sds_rep s xs" "n \<le> length t"
  shows "sds_rep (sdscatlen s t n) (xs @ take n t)"
proof -
  define s1 where "s1 = sdsMakeRoomFor s n"
  have s1: "sds_rep s1 xs" "n \<le> sdsavail s1"
    using sds_rep_room [OF assms(1)] by (auto simp: s1_def)
  from s1(1) obtain r where r: "sh_buf s1 = map Some xs @ Some NUL # r"
    "length r = sh_free s1" "sh_len s1 = length xs"
    by (rule sds_repE)
  let ?b = "mem_put (sh_buf s1) (length xs) (take n t)"
  have b: "?b = map Some (xs @ take n t) @ drop n (Some NUL # r)"
    using assms(2) by (simp add: r mem_put_append)
  have "mem_put ?b (length xs + n) [NUL] =
      map Some ((xs @ take n t) @ [NUL]) @ drop (length [NUL]) (drop n (Some NUL # r))"
    using assms(2) unfolding b by (intro mem_put_here) simp
  then show ?thesis
    using s1(2) assms
    by (auto simp: sdscatlen_def Let_def sds_rep_len s1_def [symmetric] r sdsavail_def
        intro!: sds_repI [where r = "drop n r"])
qed

lemma sds_rep_cat [inv_intros]: "sds_rep s xs \<Longrightarrow> sds_rep (sdscat s t) (xs @ t)"
  using sds_rep_catlen [of s xs "length t" t] by (simp add: sdscat_def)

lemma sds_rep_catsds [inv_intros]:
  assumes "sds_rep s xs" "sds_rep t ys"
  shows "sds_rep (sdscatsds s t) (xs @ ys)"
  using sds_rep_catlen [OF assms(1), of "length ys" ys] assms(2)
  by (simp add: sdscatsds_def sds_rep_len) (simp add: sds_rep_iff)

lemma sds_rep_cpylen [inv_intros]:
  assumes "sds_rep s xs" "n \<le> length t"
  shows "sds_rep (sdscpylen s t n) (take n t)"
proof -
  define s1 where "s1 = (if sh_free s + sh_len s < n then sdsMakeRoomFor s (n - sh_len s) else s)"
  have s1: "sds_rep s1 xs" "n \<le> length xs + sh_free s1"
    using assms(1) sds_rep_room [OF assms(1), of "n - sh_len s"]
    by (auto simp: s1_def sdsavail_def dest: sds_rep_len [unfolded sdslen_def])
  from s1(1) obtain r where r: "sh_buf s1 = map Some xs @ Some NUL # r"
    "length r = sh_free s1" "sh_len s1 = length xs"
    by (rule sds_repE)
  let ?rest = "map Some xs @ Some NUL # r"
  have "mem_put (mem_put ?rest 0 (take n t)) n [NUL] =
      map Some (take n t @ [NUL]) @ drop (length [NUL]) (drop n ?rest)"
    using assms(2) unfolding mem_put_0 by (subst mem_put_here) auto
  then have "mem_put (mem_put ?rest 0 (take n t)) n [NUL] =
      map Some (take n t) @ Some NUL # drop (Suc n) ?rest"
    by (simp only: drop_drop map_append append_assoc) simp
  then show ?thesis
    using s1(2) assms(2)
    by (auto simp: sdscpylen_def Let_def s1_def [symmetric] r simp del: drop_append
        intro!: sds_repI [where r = "drop (Suc n) ?rest"])
qed

lemma sds_rep_growzero [inv_intros]:
  assumes "sds_rep s xs"
  shows "sds_rep (sdsgrowzero s n) (xs @ replicate (n - length xs) NUL)"
proof (cases "n \<le> length xs")
  case True
  then show ?thesis
    using assms by (simp add: sdsgrowzero_def sds_rep_len [unfolded sdslen_def])
next
  case False
  define s1 where "s1 = sdsMakeRoomFor s (n - length xs)"
  have s1: "sds_rep s1 xs" "n - length xs \<le> sdsavail s1"
    using sds_rep_room [OF assms] by (auto simp: s1_def)
  from s1(1) obtain r where r: "sh_buf s1 = map Some xs @ Some NUL # r"
    "length r = sh_free s1" "sh_len s1 = length xs"
    by (rule sds_repE)
  have "replicate (n - length xs + 1) NUL = replicate (n - length xs) NUL @ [NUL]"
    by (simp add: replicate_append_same)
  then have "mem_put (sh_buf s1) (length xs) (replicate (n - length xs + 1) NUL) =
      map Some (xs @ replicate (n - length xs) NUL) @ Some NUL # drop (n - length xs) r"
    by (simp add: r mem_put_append)
  then show ?thesis
    using False s1(2) assms
    by (auto simp: sdsgrowzero_def Let_def sds_rep_len [unfolded sdslen_def] s1_def [symmetric] r sdsavail_def
        intro!: sds_repI [where r = "drop (n - length xs) r"])
qed

lemma vprintf_buflen_enough:
  "\<lbrakk>NUL \<notin> set out; 2 \<le> buflen\<rbrakk> \<Longrightarrow> length out < vprintf_buflen out buflen"
proof (induction out buflen rule: vprintf_buflen.induct)
  case (1 out buflen)
  show ?case
  proof (cases "cchar (take (buflen - 1) out) (buflen - 2) = NUL")
    case True
    have "length out \<le> buflen - 2"
    proof (rule ccontr)
      assume "\<not> length out \<le> buflen - 2"
      moreover from this have "out ! (buflen - 2) = NUL"
        using True "1.prems" by (auto simp: cchar_def split: if_splits)
      ultimately have "NUL \<in> set out"
        by (metis nth_mem not_le)
      with "1.prems" show False by simp
    qed
    with True "1.prems" show ?thesis by (simp add: vprintf_buflen.simps)
  next
    case False
    then show ?thesis using "1.IH" "1.prems" by (subst vprintf_buflen.simps) auto
  qed
qed

declare vprintf_buflen.simps [simp del]

lemma sds_rep_catprintf [inv_intros]:
  "\<lbrakk>sds_rep s xs; NUL \<notin> set out\<rbrakk> \<Longrightarrow> sds_rep (sdscatprintf s out) (xs @ out)"
  using sds_rep_cat [of s xs out] vprintf_buflen_enough [of out 16]
  by (simp add: sdscatprintf_def)

end
