(* ===== verification/Sds_Text.thy ===== *)
theory Sds_Text
  imports Sds
begin

text \<open>
  The text operations of \<^verbatim>\<open>se/se/se/utils/sds.c\<close>: slices and trims, comparison, splitting
  and joining, decimal conversion, and the escaped representation \<^verbatim>\<open>sdscatrepr\<close> writes and
  \<^verbatim>\<open>sdssplitargs\<close> reads back. The character classes are those of the C locale.
\<close>

section \<open>The C library's character functions\<close>

definition isprint :: "char \<Rightarrow> bool" where
  "isprint c \<longleftrightarrow> 32 \<le> (of_char c :: nat) \<and> (of_char c :: nat) \<le> 126"

definition isspace :: "char \<Rightarrow> bool" where
  "isspace c \<longleftrightarrow> (of_char c :: nat) = 32 \<or> (9 \<le> (of_char c :: nat) \<and> (of_char c :: nat) \<le> 13)"

definition tolower :: "char \<Rightarrow> char" where
  "tolower c = (if 65 \<le> (of_char c :: nat) \<and> (of_char c :: nat) \<le> 90 then char_of ((of_char c :: nat) + 32) else c)"

definition toupper :: "char \<Rightarrow> char" where
  "toupper c = (if 97 \<le> (of_char c :: nat) \<and> (of_char c :: nat) \<le> 122 then char_of ((of_char c :: nat) - 32) else c)"

text \<open>\<open>strchr\<close> also finds the terminating NUL.\<close>

definition strchr_found :: "cstring \<Rightarrow> char \<Rightarrow> bool" where
  "strchr_found s c \<longleftrightarrow> c = NUL \<or> c \<in> set s"

text \<open>Only the sign of \<open>memcmp\<close> is specified.\<close>

fun memcmp :: "char list \<Rightarrow> char list \<Rightarrow> int" where
  "memcmp (a # as) (b # bs) =
     (if a = b then memcmp as bs
      else if (of_char a :: nat) < of_char b then -1 else 1)"
| "memcmp _ _ = 0"

section \<open>Slices, trims and comparison\<close>

definition sds_at :: "sds \<Rightarrow> int \<Rightarrow> char" where
  "sds_at s i = the (sh_buf s ! nat i)"

function trim_sp :: "sds \<Rightarrow> cstring \<Rightarrow> int \<Rightarrow> int \<Rightarrow> int" where
  "trim_sp s cset end sp =
     (if sp \<le> end \<and> strchr_found cset (sds_at s sp) then trim_sp s cset end (sp + 1) else sp)"
  by pat_completeness auto
termination
  by (relation "measure (\<lambda>(s, cset, end, sp). nat (end + 1 - sp))") auto

function trim_ep :: "sds \<Rightarrow> cstring \<Rightarrow> int \<Rightarrow> int" where
  "trim_ep s cset ep =
     (if 0 < ep \<and> strchr_found cset (sds_at s ep) then trim_ep s cset (ep - 1) else ep)"
  by pat_completeness auto
termination
  by (relation "measure (\<lambda>(s, cset, ep). nat ep)") auto

definition sdstrim :: "sds \<Rightarrow> cstring \<Rightarrow> sds" where
  "sdstrim s cset =
     (let end = int (sdslen s) - 1;
          sp = trim_sp s cset end 0;
          ep = trim_ep s cset end;
          len = (if ep < sp then 0 else nat (ep - sp) + 1);
          b = (if sp \<noteq> 0 then mem_put (sh_buf s) 0 (take len (drop (nat sp) (sds_val s))) else sh_buf s)
      in s\<lparr>sh_buf := mem_put b len [NUL], sh_free := sh_free s + (sh_len s - len), sh_len := len\<rparr>)"

definition sdsrange :: "sds \<Rightarrow> int \<Rightarrow> int \<Rightarrow> sds" where
  "sdsrange s start end =
     (let len = int (sdslen s)
      in if len = 0 then s
         else let start = (if start < 0 then (if len + start < 0 then 0 else len + start) else start);
                  end = (if end < 0 then (if len + end < 0 then 0 else len + end) else end);
                  newlen = (if end < start then 0 else end - start + 1);
                  (start, newlen) =
                    (if newlen \<noteq> 0 then
                       (if len \<le> start then (start, 0)
                        else if len \<le> end
                        then (start, if len - 1 < start then 0 else len - 1 - start + 1)
                        else (start, newlen))
                     else (0, newlen));
                  b = (if start \<noteq> 0 \<and> newlen \<noteq> 0
                       then mem_put (sh_buf s) 0 (take (nat newlen) (drop (nat start) (sds_val s)))
                       else sh_buf s)
              in s\<lparr>sh_buf := mem_put b (nat newlen) [NUL],
                   sh_free := sh_free s + (sh_len s - nat newlen), sh_len := nat newlen\<rparr>)"

definition sds_map :: "(char \<Rightarrow> char) \<Rightarrow> sds \<Rightarrow> sds" where
  "sds_map f s = s\<lparr>sh_buf := mem_put (sh_buf s) 0 (map f (sds_val s))\<rparr>"

definition sdstolower :: "sds \<Rightarrow> sds" where
  "sdstolower = sds_map tolower"

definition sdstoupper :: "sds \<Rightarrow> sds" where
  "sdstoupper = sds_map toupper"

text \<open>The first position of \<open>c\<close> in \<open>from\<close>, below \<open>setlen\<close>, gives its replacement.\<close>

fun mapchar :: "char list \<Rightarrow> char list \<Rightarrow> nat \<Rightarrow> char \<Rightarrow> char" where
  "mapchar (f # from) (t # to) (Suc n) c = (if c = f then t else mapchar from to n c)"
| "mapchar _ _ _ c = c"

definition sdsmapchars :: "sds \<Rightarrow> char list \<Rightarrow> char list \<Rightarrow> nat \<Rightarrow> sds" where
  "sdsmapchars s from to setlen = sds_map (mapchar from to setlen) s"

definition sdscmp :: "sds \<Rightarrow> sds \<Rightarrow> int" where
  "sdscmp s1 s2 =
     (let l1 = sdslen s1; l2 = sdslen s2; minlen = (if l1 < l2 then l1 else l2);
          cmp = memcmp (take minlen (sds_val s1)) (take minlen (sds_val s2))
      in if cmp = 0 then int l1 - int l2 else cmp)"

section \<open>Splitting and joining\<close>

text \<open>
  The loop of \<open>sdssplitlen\<close>: \<open>j\<close> scans, \<open>start\<close> is where the current token began, \<open>slots\<close> is
  the capacity of the token array.
\<close>

function split_loop ::
  "char list \<Rightarrow> int \<Rightarrow> char list \<Rightarrow> nat \<Rightarrow> nat \<Rightarrow> nat \<Rightarrow> nat \<Rightarrow> sds list \<Rightarrow> nat \<times> nat \<times> sds list" where
  "split_loop s len sep seplen j start slots toks =
     (if 0 < seplen \<and> int j < len - (int seplen - 1)
      then let slots = (if slots < length toks + 2 then slots * 2 else slots)
           in if (seplen = 1 \<and> s ! j = sep ! 0) \<or> memcmp (take seplen (drop j s)) (take seplen sep) = 0
              then split_loop s len sep seplen (j + seplen) (j + seplen) slots
                     (toks @ [sdsnewlen (Some (drop start s)) (j - start)])
              else split_loop s len sep seplen (j + 1) start slots toks
      else (start, slots, toks))"
  by pat_completeness auto
termination
  by (relation "measure (\<lambda>(s, len, sep, seplen, j, start, slots, toks). nat (len - int j))") auto

text \<open>\<open>None\<close> is the NULL the function returns for an empty separator or a negative length.\<close>

definition sdssplitlen :: "char list \<Rightarrow> int \<Rightarrow> char list \<Rightarrow> int \<Rightarrow> sds list option" where
  "sdssplitlen s len sep seplen =
     (if seplen < 1 \<or> len < 0 then None
      else if len = 0 then Some []
      else case split_loop s len sep (nat seplen) 0 0 5 [] of
             (start, slots, toks) \<Rightarrow>
               Some (toks @ [sdsnewlen (Some (drop start s)) (nat len - start)]))"

fun join_loop :: "sds \<Rightarrow> sds list \<Rightarrow> char list \<Rightarrow> nat \<Rightarrow> sds" where
  "join_loop join [] sep seplen = join"
| "join_loop join (a # as) sep seplen =
     (let join = sdscatsds join a;
          join = (if as \<noteq> [] then sdscatlen join sep seplen else join)
      in join_loop join as sep seplen)"

definition sdsjoinsds :: "sds list \<Rightarrow> char list \<Rightarrow> nat \<Rightarrow> sds" where
  "sdsjoinsds argv sep seplen = join_loop sdsempty argv sep seplen"

fun joinc_loop :: "sds \<Rightarrow> cstring list \<Rightarrow> char list \<Rightarrow> nat \<Rightarrow> sds" where
  "joinc_loop join [] sep seplen = join"
| "joinc_loop join (a # as) sep seplen =
     (let join = sdscat join a;
          join = (if as \<noteq> [] then sdscatlen join sep seplen else join)
      in joinc_loop join as sep seplen)"

definition sdsjoin :: "cstring list \<Rightarrow> char list \<Rightarrow> nat \<Rightarrow> sds" where
  "sdsjoin argv sep seplen = joinc_loop sdsempty argv sep seplen"

section \<open>Decimal conversion\<close>

fun ll_digits :: "nat \<Rightarrow> char list \<Rightarrow> char list" where
  "ll_digits v p =
     (let p = char_of (48 + v mod 10) # p
      in if v div 10 = 0 then p else ll_digits (v div 10) p)"

text \<open>\<open>value\<close> is a \<^verbatim>\<open>long long\<close> other than the least one, whose negation overflows.\<close>

definition sdsfromlonglong :: "int \<Rightarrow> sds" where
  "sdsfromlonglong value =
     (let p = ll_digits (nat \<bar>value\<bar>) [];
          p = (if value < 0 then CHR ''-'' # p else p)
      in sdsnewlen (Some p) (length p))"

section \<open>The escaped representation\<close>

definition hexdig :: "nat \<Rightarrow> char" where
  "hexdig n = ''0123456789abcdef'' ! n"

text \<open>What \<open>sdscatrepr\<close> appends for one character.\<close>

definition repr_char :: "char \<Rightarrow> cstring" where
  "repr_char c =
     (if c = CHR 0x5C \<or> c = CHR 0x22 then [CHR 0x5C, c]
      else if c = LF then [CHR 0x5C, CHR ''n'']
      else if c = CHR 0x0D then [CHR 0x5C, CHR ''r'']
      else if c = CHR 0x09 then [CHR 0x5C, CHR ''t'']
      else if c = CHR 0x07 then [CHR 0x5C, CHR ''a'']
      else if c = CHR 0x08 then [CHR 0x5C, CHR ''b'']
      else if isprint c then [c]
      else [CHR 0x5C, CHR ''x'', hexdig (of_char c div 16), hexdig (of_char c mod 16)])"

fun repr_loop :: "sds \<Rightarrow> char list \<Rightarrow> sds" where
  "repr_loop s [] = s"
| "repr_loop s (c # p) =
     repr_loop
       (if c \<in> {LF, CHR 0x0D, CHR 0x09, CHR 0x07, CHR 0x08} then sdscatlen s (repr_char c) 2
        else sdscatprintf s (repr_char c)) p"

definition sdscatrepr :: "sds \<Rightarrow> char list \<Rightarrow> nat \<Rightarrow> sds" where
  "sdscatrepr s p len = sdscatlen (repr_loop (sdscatlen s [CHR 0x22] 1) (take len p)) [CHR 0x22] 1"

definition is_hex_digit :: "char \<Rightarrow> bool" where
  "is_hex_digit c \<longleftrightarrow>
     (48 \<le> (of_char c :: nat) \<and> (of_char c :: nat) \<le> 57) \<or>
     (97 \<le> (of_char c :: nat) \<and> (of_char c :: nat) \<le> 102) \<or>
     (65 \<le> (of_char c :: nat) \<and> (of_char c :: nat) \<le> 70)"

definition hex_digit_to_int :: "char \<Rightarrow> nat" where
  "hex_digit_to_int c =
     (let n = (of_char c :: nat)
      in if 48 \<le> n \<and> n \<le> 57 then n - 48
         else if 97 \<le> n \<and> n \<le> 102 then n - 87
         else if 65 \<le> n \<and> n \<le> 70 then n - 55
         else 0)"

definition unescape :: "char \<Rightarrow> char" where
  "unescape c =
     (if c = CHR ''n'' then LF
      else if c = CHR ''r'' then CHR 0x0D
      else if c = CHR ''t'' then CHR 0x09
      else if c = CHR ''b'' then CHR 0x08
      else if c = CHR ''a'' then CHR 0x07
      else c)"

text \<open>
  One token of \<open>sdssplitargs\<close>; \<open>p\<close> is the rest of the line. \<open>None\<close> is the jump to \<^verbatim>\<open>err\<close>
  (unbalanced quotes, or a closing quote followed by a non-space).
\<close>

function sa_token :: "bool \<Rightarrow> bool \<Rightarrow> sds \<Rightarrow> cstring \<Rightarrow> (sds \<times> cstring) option" where
  "sa_token inq insq current p =
     (if inq then
        (if cchar p 0 = CHR 0x5C \<and> cchar p 1 = CHR ''x'' \<and> is_hex_digit (cchar p 2) \<and> is_hex_digit (cchar p 3)
         then sa_token inq insq
                (sdscatlen current [char_of (hex_digit_to_int (cchar p 2) * 16 + hex_digit_to_int (cchar p 3))] 1)
                (drop 4 p)
         else if cchar p 0 = CHR 0x5C \<and> cchar p 1 \<noteq> NUL
         then sa_token inq insq (sdscatlen current [unescape (cchar p 1)] 1) (drop 2 p)
         else if cchar p 0 = CHR 0x22
         then (if cchar p 1 \<noteq> NUL \<and> \<not> isspace (cchar p 1) then None else Some (current, drop 1 p))
         else if cchar p 0 = NUL then None
         else sa_token inq insq (sdscatlen current [cchar p 0] 1) (drop 1 p))
      else if insq then
        (if cchar p 0 = CHR 0x5C \<and> cchar p 1 = CHR 0x27
         then sa_token inq insq (sdscatlen current [CHR 0x27] 1) (drop 2 p)
         else if cchar p 0 = CHR 0x27
         then (if cchar p 1 \<noteq> NUL \<and> \<not> isspace (cchar p 1) then None else Some (current, drop 1 p))
         else if cchar p 0 = NUL then None
         else sa_token inq insq (sdscatlen current [cchar p 0] 1) (drop 1 p))
      else if cchar p 0 \<in> {CHR '' '', LF, CHR 0x0D, CHR 0x09, NUL} then Some (current, drop 1 p)
      else if cchar p 0 = CHR 0x22 then sa_token True insq current (drop 1 p)
      else if cchar p 0 = CHR 0x27 then sa_token inq True current (drop 1 p)
      else sa_token inq insq (sdscatlen current [cchar p 0] 1) (drop 1 p))"
  by pat_completeness auto
termination
  by (relation "measure (\<lambda>(inq, insq, current, p). length p)") (auto simp: cchar_def split: if_splits)

declare sa_token.simps [simp del]

lemma sa_token_le:
  "sa_token inq insq cur p = Some (c, q) \<Longrightarrow> length q \<le> length p"
proof (induction inq insq cur p arbitrary: c q rule: sa_token.induct)
  case (1 inq insq cur p)
  from "1.prems" show ?case
    apply (subst (asm) sa_token.simps)
    using "1.IH"
    by (simp split: if_splits) auto
qed

lemma sa_token_shorter:
  "sa_token inq insq cur p = Some (c, q) \<Longrightarrow> p \<noteq> [] \<Longrightarrow> length q < length p"
  by (subst (asm) sa_token.simps) (cases p; auto split: if_splits dest: sa_token_le)

function sdssplitargs_loop :: "sds list \<Rightarrow> cstring \<Rightarrow> sds list option" where
  "sdssplitargs_loop vec p =
     (let p = dropWhile isspace p
      in if p = [] then Some vec
         else case sa_token False False sdsempty p of
                None \<Rightarrow> None
              | Some (current, p) \<Rightarrow> sdssplitargs_loop (vec @ [current]) p)"
  by pat_completeness auto
termination
proof (relation "measure (\<lambda>(vec, p). length p)", simp)
  fix vec p p' x cur q
  assume "p' = dropWhile isspace p" "p' \<noteq> []" "sa_token False False sdsempty p' = Some x" "(cur, q) = x"
  then show "((vec @ [cur], q), (vec, p)) \<in> measure (\<lambda>(vec, p). length p)"
    using sa_token_shorter [of False False sdsempty p' cur q] length_dropWhile_le [of isspace p]
    by auto
qed

declare sdssplitargs_loop.simps [simp del]

definition sdssplitargs :: "cstring \<Rightarrow> sds list option" where
  "sdssplitargs line = sdssplitargs_loop [] line"

section \<open>The representation is read back\<close>

lemma hexdig_upt:
  "list_all (\<lambda>n. is_hex_digit (hexdig n) \<and> hex_digit_to_int (hexdig n) = n \<and> hexdig n \<noteq> NUL) [0..<16]"
  by code_simp

lemma hexdig_hex [simp]:
  assumes "n < 16"
  shows "is_hex_digit (hexdig n)" and "hex_digit_to_int (hexdig n) = n" and "hexdig n \<noteq> NUL"
  using hexdig_upt assms by (auto simp: list_all_iff)

lemma hex_pair [simp]: "char_of ((of_char c :: nat) div 16 * 16 + of_char c mod 16) = c"
  by (simp add: div_mult_mod_eq)

lemma nul_not_repr: "NUL \<notin> set (repr_char c)"
proof -
  show ?thesis
    by (auto simp: repr_char_def isprint_def eq_commute [of NUL])
qed

lemma sds_rep_repr_loop:
  "sds_rep s xs \<Longrightarrow> sds_rep (repr_loop s p) (xs @ concat (map repr_char p))"
proof (induction p arbitrary: s xs)
  case (Cons c p)
  let ?s = "if c \<in> {LF, CHR 0x0D, CHR 0x09, CHR 0x07, CHR 0x08} then sdscatlen s (repr_char c) 2
        else sdscatprintf s (repr_char c)"
  have "sds_rep ?s (xs @ repr_char c)"
    using sds_rep_catprintf [OF Cons.prems nul_not_repr]
      sds_rep_catlen [OF Cons.prems, of 2 "repr_char c"]
    by (auto simp: repr_char_def)
  from Cons.IH [OF this] show ?case by simp
qed simp

lemma sa_token_esc:
  "\<lbrakk>e \<noteq> NUL; e \<noteq> CHR ''x''\<rbrakk> \<Longrightarrow>
   sa_token True q cur (CHR 0x5C # e # r) = sa_token True q (sdscatlen cur [unescape e] 1) r"
  by (subst sa_token.simps) simp

lemma sa_token_hex:
  "\<lbrakk>is_hex_digit h; is_hex_digit l\<rbrakk> \<Longrightarrow>
   sa_token True q cur (CHR 0x5C # CHR ''x'' # h # l # r) =
   sa_token True q (sdscatlen cur [char_of (hex_digit_to_int h * 16 + hex_digit_to_int l)] 1) r"
  by (subst sa_token.simps) (simp add: cchar_def)

lemma sa_token_plain:
  "\<lbrakk>c \<noteq> NUL; c \<noteq> CHR 0x5C; c \<noteq> CHR 0x22\<rbrakk> \<Longrightarrow>
   sa_token True q cur (c # r) = sa_token True q (sdscatlen cur [c] 1) r"
  by (subst sa_token.simps) simp

lemma isprint_nul [simp]: "\<not> isprint NUL"
  by (simp add: isprint_def)

lemma sa_token_repr_char_eq:
  "sa_token True q cur (repr_char c @ r) = sa_token True q (sdscatlen cur [c] 1) r"
proof (cases "c \<in> {CHR 0x5C, CHR 0x22, LF, CHR 0x0D, CHR 0x09, CHR 0x07, CHR 0x08}")
  case True
  then show ?thesis
    by (elim insertE; simp add: repr_char_def sa_token_esc unescape_def)
next
  case False
  show ?thesis
  proof (cases "isprint c")
    case True
    then have "c \<noteq> NUL" by auto
    with True False show ?thesis by (simp add: repr_char_def sa_token_plain)
  next
    case False
    with \<open>c \<notin> _\<close> show ?thesis by (simp add: repr_char_def sa_token_hex)
  qed
qed

lemma sa_token_repr_char:
  assumes "sds_rep cur xs"
  shows "\<exists>cur'. sds_rep cur' (xs @ [c]) \<and>
           sa_token True q cur (repr_char c @ r) = sa_token True q cur' r"
  using sds_rep_catlen [OF assms, of 1 "[c]"] sa_token_repr_char_eq by auto

lemma sa_token_repr:
  assumes "sds_rep cur xs" "rest = [] \<or> isspace (hd rest)" "NUL \<notin> set rest"
  shows "\<exists>cur'. sds_rep cur' (xs @ p) \<and>
           sa_token True q cur (concat (map repr_char p) @ CHR 0x22 # rest) = Some (cur', rest)"
  using assms(1)
proof (induction p arbitrary: cur xs)
  case Nil
  have "sa_token True q cur (CHR 0x22 # rest) = Some (cur, rest)"
    using assms(2) by (subst sa_token.simps) (cases rest; simp)
  with Nil show ?case by auto
next
  case (Cons c p)
  obtain cur' where c: "sds_rep cur' (xs @ [c])"
    "sa_token True q cur (repr_char c @ concat (map repr_char p) @ CHR 0x22 # rest) =
     sa_token True q cur' (concat (map repr_char p) @ CHR 0x22 # rest)"
    using sa_token_repr_char [OF Cons.prems] by blast
  from Cons.IH [OF c(1)] c(2) show ?case by simp
qed

lemma isspace_quote [simp]: "\<not> isspace (CHR 0x22)"
  by (simp add: isspace_def)

lemma sdssplitargs_catrepr:
  "\<exists>cur. sds_rep cur p \<and> sdssplitargs (sds_val (sdscatrepr sdsempty p (length p))) = Some [cur]"
proof -
  have "sds_rep (sdscatlen sdsempty [CHR 0x22] 1) [CHR 0x22]"
    using sds_rep_catlen [OF sds_rep_empty, of 1 "[CHR 0x22]"] by simp
  from sds_rep_catlen [OF sds_rep_repr_loop [OF this, of p], of 1 "[CHR 0x22]"]
  have val: "sds_val (sdscatrepr sdsempty p (length p)) =
      CHR 0x22 # concat (map repr_char p) @ [CHR 0x22]"
    by (simp add: sdscatrepr_def sds_rep_iff)
  obtain cur where cur: "sds_rep cur p"
    "sa_token True False sdsempty (concat (map repr_char p) @ [CHR 0x22]) = Some (cur, [])"
    using sa_token_repr [OF sds_rep_empty, of "[]" p False] by auto
  have "sa_token False False sdsempty (CHR 0x22 # concat (map repr_char p) @ [CHR 0x22]) = Some (cur, [])"
    by (subst sa_token.simps) (simp add: cur(2))
  then have "sdssplitargs (sds_val (sdscatrepr sdsempty p (length p))) = Some [cur]"
    by (simp add: sdssplitargs_def val sdssplitargs_loop.simps)
  with cur(1) show ?thesis by blast
qed

section \<open>Slices and trims\<close>

text \<open>Keeping \<open>n\<close> characters from offset \<open>k\<close>, in place.\<close>

lemma sds_rep_keep:
  assumes "sds_rep s xs" "n = 0 \<or> k + n \<le> length xs"
    and "b = (if k \<noteq> 0 \<and> n \<noteq> 0 then mem_put (sh_buf s) 0 (take n (drop k xs)) else sh_buf s)"
  shows "sds_rep (s\<lparr>sh_buf := mem_put b n [NUL], sh_free := sh_free s + (sh_len s - n), sh_len := n\<rparr>)
           (take n (drop k xs))"
proof -
  from assms(1) obtain r where r: "sh_buf s = map Some xs @ Some NUL # r"
    "length r = sh_free s" "sh_len s = length xs"
    by (rule sds_repE)
  let ?w = "take n (drop k xs)"
  have w: "length ?w = n" using assms(2) by auto
  have "\<exists>t. b = map Some ?w @ t \<and> length t = length (sh_buf s) - n"
  proof (cases "k = 0 \<or> n = 0")
    case True
    then have "b = sh_buf s" "?w = take n xs" using assms(3) by auto
    moreover have "map Some (take n xs) @ drop n (map Some xs) = map Some xs"
      by (simp flip: take_map)
    ultimately show ?thesis using assms(2)
      by (intro exI [of _ "drop n (sh_buf s)"]) (auto simp: r simp flip: append_assoc)
  next
    case False
    then have "b = map Some ?w @ drop n (sh_buf s)"
      using assms(3) w by (simp add: mem_put_0)
    then show ?thesis by auto
  qed
  then obtain t where t: "b = map Some ?w @ t" "length t = length (sh_buf s) - n" by blast
  have "mem_put b n [NUL] = map Some (?w @ [NUL]) @ drop (length [NUL]) t"
    unfolding t(1) using w by (intro mem_put_here) simp
  then show ?thesis
    using assms(2) w t(2)
    by (auto simp: r intro!: sds_repI [where r = "drop 1 t"])
qed

text \<open>The slice \<open>sdsrange\<close> keeps, with Python's reading of negative bounds.\<close>

definition norm_index :: "int \<Rightarrow> int \<Rightarrow> int" where
  "norm_index len i = (if i < 0 then max 0 (len + i) else i)"

definition range_slice :: "char list \<Rightarrow> int \<Rightarrow> int \<Rightarrow> char list" where
  "range_slice xs i j =
     (let a = norm_index (int (length xs)) i; b = norm_index (int (length xs)) j
      in drop (nat a) (take (nat (b + 1)) xs))"

lemma sds_rep_range:
  assumes "sds_rep s xs"
  shows "sds_rep (sdsrange s i j) (range_slice xs i j)"
proof (cases "xs = []")
  case True
  then show ?thesis
    using assms by (simp add: sdsrange_def sds_rep_len range_slice_def)
next
  case False
  define len where "len = int (length xs)"
  define a where "a = norm_index len i"
  define b where "b = norm_index len j"
  have ab: "0 \<le> a" "0 \<le> b" by (auto simp: a_def b_def norm_index_def)
  have len: "int (sdslen s) = len" "0 < len" "sds_val s = xs"
    using assms False by (auto simp: len_def sds_rep_len sds_rep_iff)
  define n where "n = (if a \<le> b \<and> a < len then nat (min b (len - 1) - a + 1) else 0)"
  define k where "k = (if a \<le> b then a else 0)"
  have eq: "sdsrange s i j = s\<lparr>sh_buf := mem_put (if nat k \<noteq> 0 \<and> n \<noteq> 0
        then mem_put (sh_buf s) 0 (take n (drop (nat k) xs)) else sh_buf s) n [NUL],
      sh_free := sh_free s + (sh_len s - n), sh_len := n\<rparr>"
    using len(2) ab unfolding sdsrange_def Let_def len
    by (auto simp: a_def b_def n_def k_def norm_index_def max_def min_def)
  have "take n (drop (nat k) xs) = drop (nat a) (take (nat (b + 1)) xs)"
  proof (cases "a \<le> b \<and> a < len")
    case True
    then have n: "n = min (nat (b + 1) - nat a) (length xs - nat a)" "k = a"
      using ab by (auto simp: n_def k_def len_def min_def)
    then show ?thesis
      by (simp add: drop_take min_def)
  next
    case False
    then show ?thesis
      using ab by (auto simp: n_def len_def)
  qed
  moreover have "n = 0 \<or> nat k + n \<le> length xs"
    using ab by (auto simp: n_def k_def len_def min_def)
  ultimately show ?thesis
    using sds_rep_keep [OF assms, of n "nat k", OF _ refl] unfolding eq
    by (simp add: range_slice_def Let_def a_def b_def len_def)
qed

declare trim_sp.simps [simp del] trim_ep.simps [simp del]

lemma sds_at_rep: "sds_rep s xs \<Longrightarrow> 0 \<le> i \<Longrightarrow> i < int (length xs) \<Longrightarrow> sds_at s i = xs ! nat i"
  by (auto simp: sds_at_def nth_append elim!: sds_repE)

lemma trim_sp_eq:
  assumes "sds_rep s xs" "k \<le> length xs"
  shows "trim_sp s cset (int (length xs) - 1) (int k) =
           int (k + length (takeWhile (strchr_found cset) (drop k xs)))"
  using assms(2)
proof (induction "length xs - k" arbitrary: k)
  case 0
  then show ?case by (subst trim_sp.simps) simp
next
  case (Suc n)
  then have k: "k < length xs" by simp
  have IH: "trim_sp s cset (int (length xs) - 1) (int (Suc k)) =
      int (Suc k + length (takeWhile (strchr_found cset) (drop (Suc k) xs)))"
    using Suc k by (intro Suc.hyps(1)) auto
  have "drop k xs = xs ! k # drop (Suc k) xs"
    using k by (rule Cons_nth_drop_Suc [symmetric])
  then show ?case
    using IH k sds_at_rep [OF assms(1), of "int k"]
    by (subst trim_sp.simps) (auto simp: add.commute)
qed

lemma trim_ep_stop:
  assumes "sds_rep s xs" "j \<le> k" "k < length xs"
    and "\<not> strchr_found cset (xs ! j)" "\<forall>i. j < i \<and> i \<le> k \<longrightarrow> strchr_found cset (xs ! i)"
  shows "trim_ep s cset (int k) = int j"
  using assms(2-)
proof (induction "k - j" arbitrary: k)
  case 0
  then show ?case
    using sds_at_rep [OF assms(1), of "int k"] by (subst trim_ep.simps) auto
next
  case (Suc n)
  then have "trim_ep s cset (int (k - 1)) = int j"
    by (intro Suc.hyps(1)) auto
  then show ?case
    using Suc sds_at_rep [OF assms(1), of "int k"]
    by (subst trim_ep.simps) (auto simp: of_nat_diff)
qed

lemma trim_ep_le: "trim_ep s cset k \<le> max k 0 \<and> trim_ep s cset k \<le> k"
proof (induction s cset k rule: trim_ep.induct)
  case (1 s cset ep)
  then show ?case by (subst (1 2) trim_ep.simps) auto
qed

definition strip :: "(char \<Rightarrow> bool) \<Rightarrow> char list \<Rightarrow> char list" where
  "strip P xs = rev (dropWhile P (rev (dropWhile P xs)))"

lemma strip_all: "\<forall>x \<in> set xs. P x \<Longrightarrow> strip P xs = []"
  by (simp add: strip_def dropWhile_eq_Nil_conv [THEN iffD2])

lemma strip_split:
  assumes "\<not> (\<forall>x \<in> set xs. P x)"
  obtains us ws where "xs = us @ strip P xs @ ws" "\<forall>x \<in> set us. P x" "\<forall>x \<in> set ws. P x"
    "us = takeWhile P xs" "strip P xs \<noteq> []" "\<not> P (last (strip P xs))"
proof -
  define ys where "ys = dropWhile P xs"
  have ys: "xs = takeWhile P xs @ ys" by (simp add: ys_def)
  have ne: "ys \<noteq> []" "\<not> P (hd ys)"
    using assms hd_dropWhile [of P xs] by (auto simp: ys_def dropWhile_eq_Nil_conv)
  have "ys = strip P xs @ rev (takeWhile P (rev ys))"
    unfolding strip_def ys_def [symmetric] by (metis rev_append rev_rev_ident takeWhile_dropWhile_id)
  moreover have "strip P xs \<noteq> []"
    using ne by (cases ys) (auto simp: strip_def ys_def [symmetric] dropWhile_eq_Nil_conv)
  moreover from this have "\<not> P (last (strip P xs))"
    using hd_dropWhile [of P "rev ys"] by (simp add: strip_def ys_def [symmetric] last_rev)
  moreover have "\<forall>x \<in> set (rev (takeWhile P (rev ys))). P x"
    by (auto dest: set_takeWhileD)
  moreover have "\<forall>x \<in> set (takeWhile P xs). P x"
    by (auto dest: set_takeWhileD)
  ultimately show thesis
    using ys that [of "takeWhile P xs" "rev (takeWhile P (rev ys))"] by simp
qed

lemma mem_put_nil [simp]: "mem_put b i [] = b"
  by (simp add: mem_put_def)

lemma sds_rep_trim:
  assumes "sds_rep s xs"
  shows "sds_rep (sdstrim s cset) (strip (strchr_found cset) xs)"
proof -
  let ?P = "strchr_found cset"
  define k where "k = length (takeWhile ?P xs)"
  have v: "sdslen s = length xs" "sds_val s = xs"
    using assms by (auto simp: sds_rep_len sds_rep_iff)
  have sp: "trim_sp s cset (int (length xs) - 1) 0 = int k"
    using trim_sp_eq [OF assms, of 0 cset] by (simp add: k_def)
  show ?thesis
  proof (cases "\<forall>x \<in> set xs. ?P x")
    case True
    then have k: "k = length xs" by (simp add: k_def takeWhile_eq_all_conv [THEN iffD2])
    have "trim_ep s cset (int (length xs) - 1) < int (length xs)"
      using trim_ep_le [of s cset "int (length xs) - 1"] by linarith
    then show ?thesis
      using sds_rep_keep [OF assms, of 0 k, OF _ refl] True
      by (simp add: sdstrim_def Let_def v sp k strip_all)
  next
    case False
    then obtain us ws where x: "xs = us @ strip ?P xs @ ws" "\<forall>x \<in> set ws. ?P x"
      "us = takeWhile ?P xs" and ne: "strip ?P xs \<noteq> []" "\<not> ?P (last (strip ?P xs))"
      by (rule strip_split)
    define zs where "zs = strip ?P xs"
    have xs: "xs = us @ zs @ ws" "length us = k" "zs \<noteq> []"
      using x ne by (auto simp: zs_def k_def)
    have "xs ! (k + length zs - 1) = last zs"
      using xs by (cases zs) (auto simp: nth_append last_conv_nth)
    moreover have "xs ! i = ws ! (i - k - length zs)" if "k + length zs - 1 < i" for i
    proof -
      from that xs(3) have "k + length zs \<le> i" by (cases zs) auto
      then show ?thesis using xs(2) by (subst xs(1)) (auto simp: nth_append)
    qed
    moreover have "ws ! (i - k - length zs) \<in> set ws" if "k + length zs - 1 < i" "i \<le> length xs - 1" for i
      using that xs by (intro nth_mem) (cases zs; auto)
    moreover have "k + length zs - 1 < length xs"
      using xs by (cases zs) auto
    ultimately have "trim_ep s cset (int (length xs - 1)) = int (k + length zs - 1)"
      using x(2) ne by (intro trim_ep_stop [OF assms]) (auto simp: zs_def [symmetric])
    moreover have "int (length xs) - 1 = int (length xs - 1)"
      using xs by (cases zs) auto
    moreover have "int (k + length zs - 1) = int k + int (length zs) - 1"
      using xs(3) by (cases zs) auto
    ultimately have ep: "trim_ep s cset (int (length xs) - 1) = int k + int (length zs) - 1"
      by (simp only:)
    have zs: "take (length zs) (drop k xs) = zs"
      using xs(2) by (subst xs(1)) simp
    have "length xs = k + length zs + length ws"
      using xs(2) by (subst xs(1)) simp
    then have len: "k + length zs \<le> length xs" "0 < length zs"
      using xs(3) by simp_all
    have n: "nat (int (length zs) - 1) + 1 = length zs"
      using len(2) by linarith
    have "sdstrim s cset = s\<lparr>sh_buf := mem_put (if k \<noteq> 0 \<and> length zs \<noteq> 0
          then mem_put (sh_buf s) 0 (take (length zs) (drop k xs)) else sh_buf s) (length zs) [NUL],
        sh_free := sh_free s + (sh_len s - length zs), sh_len := length zs\<rparr>"
      using len(2) n by (simp add: sdstrim_def Let_def v sp ep del: One_nat_def)
    then show ?thesis
      using sds_rep_keep [OF assms disjI2 [OF len(1)] refl] zs by (simp only: zs_def)
  qed
qed

end
