(* ===== verification/Sds_Laws.thy ===== *)
theory Sds_Laws
  imports Sds_Text
begin

text \<open>
  What the dynamic strings promise their callers: comparison is the byte order, a split
  joined again is the input, decimal conversion is read back, and the append interface the
  runtime's read buffers and the escaping loops rest on. The properties of
  \<^verbatim>\<open>se/se/se/utils/sds.c\<close> close the theory.
\<close>

declare split_loop.simps [simp del]

section \<open>Comparison and character maps\<close>

text \<open>The byte-wise lexicographic order, a proper prefix being smaller.\<close>

fun bytes_less :: "char list \<Rightarrow> char list \<Rightarrow> bool" where
  "bytes_less [] bs \<longleftrightarrow> bs \<noteq> []"
| "bytes_less (a # as) [] \<longleftrightarrow> False"
| "bytes_less (a # as) (b # bs) \<longleftrightarrow>
     (of_char a :: nat) < of_char b \<or> (a = b \<and> bytes_less as bs)"

lemma memcmp_take:
  "(let l = min (length xs) (length ys); c = memcmp (take l xs) (take l ys);
        r = (if c = 0 then int (length xs) - int (length ys) else c)
    in (r = 0 \<longleftrightarrow> xs = ys) \<and> (r < 0 \<longleftrightarrow> bytes_less xs ys) \<and> (0 < r \<longleftrightarrow> bytes_less ys xs))"
proof (induction xs ys rule: bytes_less.induct)
  case (3 a as b bs)
  consider "a = b" | "(of_char a :: nat) < of_char b" | "(of_char b :: nat) < of_char a"
    by (metis char_of_char linorder_less_linear)
  then show ?case
    by cases (use 3 in \<open>auto simp: Let_def\<close>)
next
  case (1 bs)
  then show ?case by (cases bs) (auto simp: Let_def)
qed (auto simp: Let_def)

lemma sdscmp_val:
  assumes "sds_rep s xs" "sds_rep t ys"
  shows "(sdscmp s t = 0 \<longleftrightarrow> xs = ys) \<and> (sdscmp s t < 0 \<longleftrightarrow> bytes_less xs ys) \<and>
         (0 < sdscmp s t \<longleftrightarrow> bytes_less ys xs)"
proof -
  have "sds_val s = xs" "sds_val t = ys" "sdslen s = length xs" "sdslen t = length ys"
    using assms by (auto simp: sds_rep_len sds_rep_iff)
  moreover have "(if length xs < length ys then length xs else length ys) = min (length xs) (length ys)"
    by simp
  ultimately show ?thesis
    using memcmp_take [of xs ys] by (simp only: sdscmp_def Let_def)
qed

lemma sds_rep_map:
  assumes "sds_rep s xs"
  shows "sds_rep (sds_map f s) (map f xs)"
proof -
  from assms obtain r where r: "sh_buf s = map Some xs @ Some NUL # r"
    "length r = sh_free s" "sh_len s = length xs"
    by (rule sds_repE)
  have "sds_val s = xs" using assms by (simp add: sds_rep_iff)
  then show ?thesis
    by (auto simp: sds_map_def mem_put_0 r intro!: sds_repI [where r = r])
qed

section \<open>Joins and splits\<close>

fun intersperse :: "char list \<Rightarrow> char list list \<Rightarrow> char list" where
  "intersperse sep [] = []"
| "intersperse sep [x] = x"
| "intersperse sep (x # y # xs) = x @ sep @ intersperse sep (y # xs)"

lemma intersperse_Cons: "xs \<noteq> [] \<Longrightarrow> intersperse sep (x # xs) = x @ sep @ intersperse sep xs"
  by (cases xs) auto

lemma sds_rep_join_loop:
  "\<lbrakk>sds_rep j acc; list_all2 sds_rep argv xss; n \<le> length sep\<rbrakk> \<Longrightarrow>
   sds_rep (join_loop j argv sep n) (acc @ intersperse (take n sep) xss)"
proof (induction argv arbitrary: j acc xss)
  case (Cons a as)
  from Cons.prems obtain x xs where x: "xss = x # xs" "sds_rep a x" "list_all2 sds_rep as xs"
    by (auto simp: list_all2_Cons1)
  have 1: "sds_rep (sdscatsds j a) (acc @ x)"
    using sds_rep_catsds [OF Cons.prems(1) x(2)] .
  show ?case
  proof (cases "as = []")
    case True
    then show ?thesis using 1 x by simp
  next
    case False
    then have "xs \<noteq> []" using x(3) by auto
    then show ?thesis
      using Cons.IH [OF sds_rep_catlen [OF 1 Cons.prems(3)] x(3) Cons.prems(3)] False x(1)
      by (simp add: intersperse_Cons)
  qed
qed (simp)

lemma sds_rep_joinc_loop:
  "\<lbrakk>sds_rep j acc; n \<le> length sep\<rbrakk> \<Longrightarrow>
   sds_rep (joinc_loop j argv sep n) (acc @ intersperse (take n sep) argv)"
proof (induction argv arbitrary: j acc)
  case (Cons a as)
  have 1: "sds_rep (sdscat j a) (acc @ a)"
    using sds_rep_cat [OF Cons.prems(1)] .
  show ?case
  proof (cases "as = []")
    case False
    then show ?thesis
      using Cons.IH [OF sds_rep_catlen [OF 1 Cons.prems(2)] Cons.prems(2)]
      by (simp add: intersperse_Cons)
  qed (use 1 in simp)
qed simp


text \<open>\<open>sep\<close> occurs at position \<open>k\<close>.\<close>

definition occurs_at :: "char list \<Rightarrow> char list \<Rightarrow> nat \<Rightarrow> bool" where
  "occurs_at sep xs k \<longleftrightarrow> take (length sep) (drop k xs) = sep"

definition sep_free :: "char list \<Rightarrow> char list \<Rightarrow> bool" where
  "sep_free sep xs \<longleftrightarrow> (\<nexists>us ws. xs = us @ sep @ ws)"

lemma memcmp_eq: "length xs = length ys \<Longrightarrow> memcmp xs ys = 0 \<longleftrightarrow> xs = ys"
  by (induction xs ys rule: memcmp.induct) auto

lemma intersperse_snoc:
  "intersperse sep (xs @ [y, z]) = intersperse sep (xs @ [y @ sep @ z])"
proof (induction xs)
  case (Cons x xs)
  then show ?case by (simp add: intersperse_Cons)
qed simp

lemma sep_free_slice:
  assumes "i \<le> j" "j \<le> length s" "sep \<noteq> []" "\<And>k. \<lbrakk>i \<le> k; k < j\<rbrakk> \<Longrightarrow> \<not> occurs_at sep s k"
  shows "sep_free sep (take (j - i) (drop i s))"
  unfolding sep_free_def
proof (intro notI, elim exE)
  fix us ws
  assume t: "take (j - i) (drop i s) = us @ sep @ ws"
  have "drop i s = us @ sep @ ws @ drop (j - i) (drop i s)"
    using append_take_drop_id [of "j - i" "drop i s"] unfolding t by simp
  then have "drop (i + length us) s = sep @ ws @ drop (j - i) (drop i s)"
    by (metis add.commute append_eq_conv_conj drop_drop)
  then have "occurs_at sep s (i + length us)"
    by (simp add: occurs_at_def)
  moreover have "length us + length sep + length ws = j - i"
    using arg_cong [OF t, of length] assms(1,2) by simp
  then have "i + length us < j"
    using assms(3) by (cases sep) auto
  ultimately show False using assms(4) by auto
qed

definition split_inv :: "char list \<Rightarrow> char list \<Rightarrow> nat \<Rightarrow> nat \<Rightarrow> nat \<Rightarrow> sds list \<Rightarrow> bool" where
  "split_inv s sep j start slots toks \<longleftrightarrow>
     start \<le> j \<and> start \<le> length s \<and> length toks < slots \<and> (\<forall>t \<in> set toks. sds_ok t) \<and>
     intersperse sep (map sds_val toks @ [drop start s]) = s \<and>
     (\<forall>t \<in> set toks. sep_free sep (sds_val t)) \<and>
     (\<forall>k. start \<le> k \<and> k < j \<longrightarrow> \<not> occurs_at sep s k)"


lemma split_loop_step:
  assumes "0 < seplen" "int j < len - (int seplen - 1)"
    and "sl = (if slots < length toks + 2 then slots * 2 else slots)"
    and "((seplen = 1 \<and> s ! j = sep ! 0) \<or> memcmp (take seplen (drop j s)) (take seplen sep) = 0) = m"
  shows "split_loop s len sep seplen j start slots toks =
    (if m then split_loop s len sep seplen (j + seplen) (j + seplen) sl
                 (toks @ [sdsnewlen (Some (drop start s)) (j - start)])
     else split_loop s len sep seplen (j + 1) start sl toks)"
  using assms by (subst split_loop.simps) (simp only: Let_def simp_thms if_True)

lemma split_loop_inv:
  assumes "split_inv s sep j start slots toks" "sep \<noteq> []" "j \<le> length s"
    and "split_loop s (int (length s)) sep (length sep) j start slots toks = (start', slots', toks')"
  shows "split_inv s sep (length s) start' slots' toks'"
  using assms
proof (induction s "int (length s)" sep "length sep" j start slots toks rule: split_loop.induct)
  case (1 s sep j start slots toks)
  note inv = "1.prems"(1) [unfolded split_inv_def]
  show ?case
  proof (cases "j + length sep \<le> length s")
    case False
    then have "start' = start" "slots' = slots" "toks' = toks"
      using "1.prems"(2,4) by (auto simp: split_loop.simps [of _ _ _ _ j])
    moreover have "\<not> occurs_at sep s k" if "j \<le> k" for k
      using that False "1.prems"(2) unfolding occurs_at_def by (cases sep) (auto dest: arg_cong [where f = length])
    ultimately show ?thesis
      using inv "1.prems"(3) unfolding split_inv_def by (metis linorder_not_le)
  next
    case True
    have c: "0 < length sep" "int j < int (length s) - (int (length sep) - 1)"
      using True "1.prems"(2) by auto
    define sl where "sl = (if slots < length toks + 2 then slots * 2 else slots)"
    have sl: "length toks + 1 < sl" using inv by (auto simp: sl_def)
    have occ: "((length sep = 1 \<and> s ! j = sep ! 0) \<or>
        memcmp (take (length sep) (drop j s)) (take (length sep) sep) = 0) \<longleftrightarrow> occurs_at sep s j" (is "?c \<longleftrightarrow> _")
    proof -
      have "length sep = 1 \<and> s ! j = sep ! 0 \<Longrightarrow> occurs_at sep s j"
        using True c(1) by (cases sep) (auto simp: occurs_at_def take_Suc_conv_app_nth take_Suc hd_drop_conv_nth)
      then show ?thesis
        using True by (auto simp: occurs_at_def memcmp_eq)
    qed
    show ?thesis
    proof (cases "occurs_at sep s j")
      case occ_j: True
      let ?t = "sdsnewlen (Some (drop start s)) (j - start)"
      have t: "sds_rep ?t (take (j - start) (drop start s))"
        using True inv by (intro sds_rep_newlen) auto
      have sj: "drop j s = sep @ drop (j + length sep) s"
        using occ_j append_take_drop_id [of "length sep" "drop j s"]
        by (simp add: occurs_at_def add.commute)
      have "drop start s = take (j - start) (drop start s) @ drop j s"
        using inv append_take_drop_id [of "j - start" "drop start s"] by simp
      then have "intersperse sep (map sds_val (toks @ [?t]) @ [drop (j + length sep) s]) = s"
        using inv t sj intersperse_snoc [of sep "map sds_val toks" "take (j - start) (drop start s)" "drop (j + length sep) s"]
        by (simp add: sds_rep_iff)
      moreover have "sep_free sep (take (j - start) (drop start s))"
        using inv True "1.prems"(2) by (intro sep_free_slice) auto
      ultimately have "split_inv s sep (j + length sep) (j + length sep) sl (toks @ [?t])"
        using inv t sl True by (auto simp: split_inv_def sds_rep_iff)
      moreover have "split_loop s (int (length s)) sep (length sep) (j + length sep) (j + length sep) sl (toks @ [?t]) = (start', slots', toks')"
        using "1.prems"(4) split_loop_step [OF c sl_def occ, of start] occ_j by simp
      ultimately show ?thesis
        using "1.hyps"(1) [OF conjI [OF c] sl_def] occ occ_j "1.prems"(2) True by simp
    next
      case occ_j: False
      have "split_inv s sep (j + 1) start sl toks"
        using inv sl occ_j by (auto simp: split_inv_def less_Suc_eq)
      moreover have "split_loop s (int (length s)) sep (length sep) (j + 1) start sl toks = (start', slots', toks')"
        using "1.prems"(4) split_loop_step [OF c sl_def occ, of start] occ_j by simp
      ultimately show ?thesis
        using "1.hyps"(2) [OF conjI [OF c] sl_def] occ occ_j "1.prems"(2) True by (cases sep) simp_all
    qed
  qed
qed


lemma sdssplitlen_split:
  assumes "sep \<noteq> []" "s \<noteq> []"
  shows "\<exists>toks. sdssplitlen s (int (length s)) sep (int (length sep)) = Some toks \<and>
           (\<forall>t \<in> set toks. sds_ok t \<and> sep_free sep (sds_val t)) \<and>
           intersperse sep (map sds_val toks) = s"
proof -
  obtain start slots toks where r:
    "split_loop s (int (length s)) sep (length sep) 0 0 5 [] = (start, slots, toks)"
    by (metis prod_cases3)
  have "split_inv s sep (length s) start slots toks"
    by (rule split_loop_inv [OF _ assms(1) _ r]) (auto simp: split_inv_def)
  then have inv: "start \<le> length s" "\<forall>t \<in> set toks. sds_ok t"
    "intersperse sep (map sds_val toks @ [drop start s]) = s"
    "\<forall>t \<in> set toks. sep_free sep (sds_val t)"
    "\<forall>k. start \<le> k \<and> k < length s \<longrightarrow> \<not> occurs_at sep s k"
    by (auto simp: split_inv_def)
  let ?t = "sdsnewlen (Some (drop start s)) (length s - start)"
  have t: "sds_rep ?t (drop start s)"
    using sds_rep_newlen [of "length s - start" "drop start s"] by simp
  have "sep_free sep (drop start s)"
    using sep_free_slice [of start "length s" s sep] inv assms(1) by simp
  moreover have "sdssplitlen s (int (length s)) sep (int (length sep)) = Some (toks @ [?t])"
    using assms by (simp add: sdssplitlen_def r Suc_le_eq)
  ultimately show ?thesis
    using inv t by (auto simp: sds_rep_iff)
qed

section \<open>Decimal conversion and truncation\<close>

definition digits_value :: "char list \<Rightarrow> nat" where
  "digits_value ds = foldl (\<lambda>v c. v * 10 + (of_char c - 48)) 0 ds"

definition is_digit :: "char \<Rightarrow> bool" where
  "is_digit c \<longleftrightarrow> 48 \<le> (of_char c :: nat) \<and> (of_char c :: nat) \<le> 57"

declare ll_digits.simps [simp del]

lemma of_char_digit [simp]: "d < 10 \<Longrightarrow> (of_char (char_of (48 + d) :: char) :: nat) = 48 + d"
  by simp

lemma ll_digits_app: "ll_digits v p = ll_digits v [] @ p"
proof (induction v arbitrary: p rule: less_induct)
  case (less v)
  show ?case
  proof (cases "v div 10 = 0")
    case True
    then show ?thesis by (subst (1 2) ll_digits.simps) simp
  next
    case False
    then have "v div 10 < v" by auto
    from less.IH [OF this] have "ll_digits (v div 10) (c # q) = ll_digits (v div 10) [] @ c # q" for c q .
    with False show ?thesis by (subst (1 2) ll_digits.simps) simp
  qed
qed

lemma ll_digits_step:
  "ll_digits v [] = (if v < 10 then [] else ll_digits (v div 10) []) @ [char_of (48 + v mod 10)]"
proof (cases "v < 10")
  case False
  then show ?thesis
    by (subst ll_digits.simps) (simp add: ll_digits_app [of "v div 10" "[_]"] div_eq_0_iff)
qed (subst ll_digits.simps, simp)

lemma ll_digits_value:
  "digits_value (ll_digits v []) = v \<and> (\<forall>c \<in> set (ll_digits v []). is_digit c) \<and>
   (hd (ll_digits v []) = CHR ''0'' \<longrightarrow> ll_digits v [] = ''0'')"
proof (induction v rule: less_induct)
  case (less v)
  have d: "is_digit (char_of (48 + v mod 10))"
    by (simp add: is_digit_def)
  show ?case
  proof (cases "v < 10")
    case True
    then show ?thesis
      using d by (subst (1 2 3 4) ll_digits_step) (simp add: digits_value_def)
  next
    case False
    have ne: "ll_digits (v div 10) [] \<noteq> []"
      by (subst ll_digits_step) simp
    have nz: "ll_digits (v div 10) [] \<noteq> ''0''"
    proof
      assume "ll_digits (v div 10) [] = ''0''"
      then have "digits_value (ll_digits (v div 10) []) = 0" by (simp add: digits_value_def)
      then show False using less.IH [of "v div 10"] False by auto
    qed
    show ?thesis
      using less.IH [of "v div 10"] False d ne nz
      by (subst (1 2 3 4) ll_digits_step) (auto simp: digits_value_def)
  qed
qed

lemma sdsfromlonglong_val:
  "\<exists>ds. sds_rep (sdsfromlonglong v) ((if v < 0 then ''-'' else []) @ ds) \<and>
     ds \<noteq> [] \<and> (\<forall>c \<in> set ds. is_digit c) \<and> digits_value ds = nat \<bar>v\<bar> \<and>
     (hd ds = CHR ''0'' \<longrightarrow> ds = ''0'')"
proof (intro exI conjI)
  let ?p = "(if v < 0 then ''-'' else []) @ ll_digits (nat \<bar>v\<bar>) []"
  show "sds_rep (sdsfromlonglong v) ?p"
    using sds_rep_newlen [of "length ?p" ?p] by (simp add: sdsfromlonglong_def Let_def split: if_splits)
  show "ll_digits (nat \<bar>v\<bar>) [] \<noteq> []"
    by (subst ll_digits_step) simp
qed (use ll_digits_value [of "nat \<bar>v\<bar>"] in auto)

lemma sds_rep_updatelen:
  assumes "sds_rep s xs"
  shows "sds_rep (sdsupdatelen s) (cstr xs)"
proof -
  from assms obtain r where r: "sh_buf s = map Some xs @ Some NUL # r"
    "length r = sh_free s" "sh_len s = length xs"
    by (rule sds_repE)
  have n: "takeWhile (\<lambda>c. c \<noteq> Some NUL) (map Some xs @ Some NUL # r) = map Some (cstr xs)"
    by (induction xs) (auto simp: cstr_def)
  define c where "c = cstr xs"
  obtain t where t: "xs = c @ t" "t = [] \<or> hd t = NUL"
    using takeWhile_dropWhile_id [of "\<lambda>c. c \<noteq> NUL" xs] hd_dropWhile [of "\<lambda>c. c \<noteq> NUL" xs]
    unfolding cstr_def c_def by metis
  define q where "q = tl (map Some t @ Some NUL # r)"
  have "sh_buf s = map Some c @ Some NUL # q"
    using t(2) unfolding q_def by (cases t) (auto simp: r t(1))
  moreover have "length q = sh_free s + (length xs - length c)"
    unfolding q_def by (cases t) (auto simp: r t(1))
  ultimately show ?thesis
    using n r unfolding c_def [symmetric]
    by (auto simp: sdsupdatelen_def Let_def intro!: sds_repI [where r = q])
qed

section \<open>Append buffers\<close>

text \<open>
  What the runtime and the escaping and joining loops need of a byte buffer: appending
  extends the contents by exactly the bytes given, whatever was appended before.
\<close>

locale append_buffer =
  fixes empty :: 'b and append :: "'b \<Rightarrow> char list \<Rightarrow> 'b" and holds :: "'b \<Rightarrow> char list \<Rightarrow> bool"
  assumes holds_empty: "holds empty []"
    and holds_append: "holds b xs \<Longrightarrow> holds (append b ys) (xs @ ys)"
begin

lemma holds_fold: "holds b xs \<Longrightarrow> holds (foldl append b yss) (xs @ concat yss)"
proof (induction yss arbitrary: b xs)
  case (Cons ys yss)
  from Cons.IH [OF holds_append [OF Cons.prems]] show ?case by simp
qed simp

lemma holds_all: "holds (foldl append empty yss) (concat yss)"
  using holds_fold [OF holds_empty, of yss] by simp

lemma chunking_irrelevant:
  "concat yss = concat zss \<Longrightarrow>
   \<exists>xs. holds (foldl append empty yss) xs \<and> holds (foldl append empty zss) xs"
  using holds_all [of yss] holds_all [of zss] by metis

end

interpretation sds_buffer: append_buffer sdsempty "\<lambda>b xs. sdscatlen b xs (length xs)" sds_rep
  using sds_rep_catlen by unfold_locales (fastforce simp: sds_rep_empty)+

section \<open>Properties\<close>





text \<open>C22. Splitting a non-empty string by a non-empty separator always succeeds, no token
  contains the separator, and joining the tokens with it gives the string back.\<close>

theorem sds_split_join:
  assumes "sep \<noteq> []" "s \<noteq> []"
  shows "\<exists>toks. sdssplitlen s (int (length s)) sep (int (length sep)) = Some toks \<and>
    list_all (\<lambda>t. sds_ok t \<and> sep_free sep (sds_val t)) toks \<and>
    sds_rep (sdsjoinsds toks sep (length sep)) s"
proof -
  obtain toks where t: "sdssplitlen s (int (length s)) sep (int (length sep)) = Some toks"
    "\<forall>t \<in> set toks. sds_ok t \<and> sep_free sep (sds_val t)"
    "intersperse sep (map sds_val toks) = s"
    using sdssplitlen_split [OF assms] by blast
  have "list_all2 sds_rep toks (map sds_val toks)"
    using t(2) by (auto simp: list_all2_conv_all_nth sds_rep_iff)
  from sds_rep_join_loop [OF sds_rep_empty this, of "length sep" sep] t show ?thesis
    by (auto simp: sdsjoinsds_def list_all_iff)
qed

theorem sds_split_join_witness:
  "\<exists>toks. sdssplitlen ''a--b'' 4 ''--'' 2 = Some toks \<and>
    list_all (\<lambda>t. sds_ok t \<and> sep_free ''--'' (sds_val t)) toks \<and>
    sds_rep (sdsjoinsds toks ''--'' 2) ''a--b''"
  using sds_split_join [of "''--''" "''a--b''"] by (simp del: One_nat_def add: numeral_2_eq_2)

text \<open>C21. Any byte string, quoted by \<open>sdscatrepr\<close>, is read back by \<open>sdssplitargs\<close> as a single
  argument equal to it.\<close>

theorem sds_repr_roundtrip:
  "\<exists>cur. sds_rep cur p \<and> sdssplitargs (sds_val (sdscatrepr sdsempty p (length p))) = Some [cur]"
  by (rule sdssplitargs_catrepr)

text \<open>C31. \<open>sdscmp\<close> decides the byte-wise lexicographic order: zero exactly for equal contents,
  negative or positive exactly when the first string is smaller or larger.\<close>

theorem sdscmp_order:
  assumes "sds_rep s xs" "sds_rep t ys"
  shows "(sdscmp s t = 0) = (xs = ys) \<and> (sdscmp s t < 0) = bytes_less xs ys \<and>
    (0 < sdscmp s t) = bytes_less ys xs"
  using sdscmp_val [OF assms] by simp

theorem sdscmp_order_witness: "sdscmp (sdsnew (Some ''ab'')) (sdsnew (Some ''abc'')) < 0"
  using sdscmp_order [OF sds_rep_new [of "''ab''"] sds_rep_new [of "''abc''"]] by simp

end
