(* ===== verification/Kernel_List.thy ===== *)
theory Kernel_List
  imports Prelude
begin

text \<open>
  The intrusive doubly linked lists of \<^verbatim>\<open>se/se/se/utils/list.h\<close> on an explicit pointer heap.
  \<open>dll h hp xs\<close> says that the circular list with head \<open>hp\<close> links exactly the nodes \<open>xs\<close>, in
  order, in both directions; every operation is proved to be the corresponding operation on
  \<open>xs\<close> and to leave disjoint lists alone.
\<close>

section \<open>State and operations\<close>

type_synonym addr = nat

record list_heap =
  hnext :: "addr \<Rightarrow> addr"
  hprev :: "addr \<Rightarrow> addr"

definition set_next :: "addr \<Rightarrow> addr \<Rightarrow> list_heap \<Rightarrow> list_heap" where
  "set_next a b h = h\<lparr>hnext := (hnext h)(a := b)\<rparr>"

definition set_prev :: "addr \<Rightarrow> addr \<Rightarrow> list_heap \<Rightarrow> list_heap" where
  "set_prev a b h = h\<lparr>hprev := (hprev h)(a := b)\<rparr>"

definition LIST_POISON1 :: addr where "LIST_POISON1 = 1"
definition LIST_POISON2 :: addr where "LIST_POISON2 = 2"

definition INIT_LIST_HEAD :: "addr \<Rightarrow> list_heap \<Rightarrow> list_heap" where
  "INIT_LIST_HEAD l h = set_prev l l (set_next l l h)"

definition list_add_between :: "addr \<Rightarrow> addr \<Rightarrow> addr \<Rightarrow> list_heap \<Rightarrow> list_heap" where
  "list_add_between node prv nxt h =
     set_next prv node (set_prev node prv (set_next node nxt (set_prev nxt node h)))"

definition list_add :: "addr \<Rightarrow> addr \<Rightarrow> list_heap \<Rightarrow> list_heap" where
  "list_add node hp h = list_add_between node hp (hnext h hp) h"

definition list_add_tail :: "addr \<Rightarrow> addr \<Rightarrow> list_heap \<Rightarrow> list_heap" where
  "list_add_tail node hp h = list_add_between node (hprev h hp) hp h"

definition list_del_between :: "addr \<Rightarrow> addr \<Rightarrow> list_heap \<Rightarrow> list_heap" where
  "list_del_between prv nxt h = set_next prv nxt (set_prev nxt prv h)"

definition list_del_entry :: "addr \<Rightarrow> list_heap \<Rightarrow> list_heap" where
  "list_del_entry e h = list_del_between (hprev h e) (hnext h e) h"

definition list_del :: "addr \<Rightarrow> list_heap \<Rightarrow> list_heap" where
  "list_del e h =
     set_prev e LIST_POISON2 (set_next e LIST_POISON1 (list_del_entry e h))"

definition list_del_init :: "addr \<Rightarrow> list_heap \<Rightarrow> list_heap" where
  "list_del_init e h = INIT_LIST_HEAD e (list_del_entry e h)"

definition list_replace :: "addr \<Rightarrow> addr \<Rightarrow> list_heap \<Rightarrow> list_heap" where
  "list_replace old node h =
     (let h = set_next node (hnext h old) h;
          h = set_prev (hnext h node) node h;
          h = set_prev node (hprev h old) h
      in set_next (hprev h node) node h)"

definition list_move :: "addr \<Rightarrow> addr \<Rightarrow> list_heap \<Rightarrow> list_heap" where
  "list_move e hp h = list_add e hp (list_del_entry e h)"

definition list_move_tail :: "addr \<Rightarrow> addr \<Rightarrow> list_heap \<Rightarrow> list_heap" where
  "list_move_tail e hp h = list_add_tail e hp (list_del_entry e h)"

definition list_is_last :: "addr \<Rightarrow> addr \<Rightarrow> list_heap \<Rightarrow> bool" where
  "list_is_last e hp h \<longleftrightarrow> hnext h e = hp"

definition list_empty :: "addr \<Rightarrow> list_heap \<Rightarrow> bool" where
  "list_empty hp h \<longleftrightarrow> hnext h hp = hp"

definition list_empty_careful :: "addr \<Rightarrow> list_heap \<Rightarrow> bool" where
  "list_empty_careful hp h \<longleftrightarrow> (let nxt = hnext h hp in nxt = hp \<and> nxt = hprev h hp)"

definition list_rotate_left :: "addr \<Rightarrow> list_heap \<Rightarrow> list_heap" where
  "list_rotate_left hp h =
     (if \<not> list_empty hp h then list_move_tail (hnext h hp) hp h else h)"

definition list_is_singular :: "addr \<Rightarrow> list_heap \<Rightarrow> bool" where
  "list_is_singular hp h \<longleftrightarrow> \<not> list_empty hp h \<and> hnext h hp = hprev h hp"

definition list_splice_between :: "addr \<Rightarrow> addr \<Rightarrow> addr \<Rightarrow> list_heap \<Rightarrow> list_heap" where
  "list_splice_between l prv nxt h =
     (let first = hnext h l; last = hprev h l
      in set_prev nxt last (set_next last nxt (set_next prv first (set_prev first prv h))))"

definition list_splice :: "addr \<Rightarrow> addr \<Rightarrow> list_heap \<Rightarrow> list_heap" where
  "list_splice l hp h =
     (if \<not> list_empty l h then list_splice_between l hp (hnext h hp) h else h)"

definition list_splice_tail :: "addr \<Rightarrow> addr \<Rightarrow> list_heap \<Rightarrow> list_heap" where
  "list_splice_tail l hp h =
     (if \<not> list_empty l h then list_splice_between l (hprev h hp) hp h else h)"

section \<open>The represented list\<close>

fun links :: "list_heap \<Rightarrow> addr \<Rightarrow> addr list \<Rightarrow> addr \<Rightarrow> bool" where
  "links h a [] b \<longleftrightarrow> hnext h a = b \<and> hprev h b = a"
| "links h a (x # xs) b \<longleftrightarrow> hnext h a = x \<and> hprev h x = a \<and> links h x xs b"

definition dll :: "list_heap \<Rightarrow> addr \<Rightarrow> addr list \<Rightarrow> bool" where
  "dll h hp xs \<longleftrightarrow> distinct (hp # xs) \<and> links h hp xs hp"

lemma set_ptr_simps [simp]:
  "hnext (set_next a b h) = (hnext h)(a := b)" "hprev (set_next a b h) = hprev h"
  "hnext (set_prev a b h) = hnext h" "hprev (set_prev a b h) = (hprev h)(a := b)"
  by (simp_all add: set_next_def set_prev_def)

lemma links_append: "links h a (xs @ y # ys) b \<longleftrightarrow> links h a xs y \<and> links h y ys b"
  by (induction xs arbitrary: a) auto

lemma links_cong:
  "\<lbrakk>links h a xs b; \<And>x. x \<in> set (a # xs) \<Longrightarrow> hnext h' x = hnext h x;
    \<And>x. x \<in> set (xs @ [b]) \<Longrightarrow> hprev h' x = hprev h x\<rbrakk> \<Longrightarrow> links h' a xs b"
  by (induction xs arbitrary: a) auto

lemma links_last: "links h a xs b \<Longrightarrow> hprev h b = last (a # xs)"
  by (induction xs arbitrary: a) auto

lemma links_first: "links h a xs b \<Longrightarrow> hnext h a = hd (xs @ [b])"
  by (cases xs) auto

lemma dll_empty_iff: "dll h hp xs \<Longrightarrow> list_empty hp h \<longleftrightarrow> xs = []"
  by (cases xs) (auto simp: dll_def list_empty_def)

lemma dll_first: "dll h hp (x # xs) \<Longrightarrow> hnext h hp = x"
  by (simp add: dll_def)

lemma dll_init: "dll (INIT_LIST_HEAD l h) l []"
  by (simp add: dll_def INIT_LIST_HEAD_def)


lemma dll_distinct: "dll h hp xs \<Longrightarrow> distinct xs \<and> hp \<notin> set xs"
  by (simp add: dll_def)

lemma dll_last: "dll h hp xs \<Longrightarrow> hprev h hp = last (hp # xs)"
  by (auto simp: dll_def dest: links_last)

text \<open>Changes outside the head and the nodes of a list do not touch it.\<close>

lemma dll_frame:
  "\<lbrakk>dll h hp xs; \<And>x. x \<in> set (hp # xs) \<Longrightarrow> hnext h' x = hnext h x \<and> hprev h' x = hprev h x\<rbrakk>
   \<Longrightarrow> dll h' hp xs"
  by (auto simp: dll_def intro: links_cong)

text \<open>
  A circular list may be read from any of its nodes, so that each operation only has to be
  looked at where it acts.
\<close>

lemma dll_rotate: "dll h a (us @ b # vs) \<longleftrightarrow> dll h b (vs @ a # us)"
  by (auto simp: dll_def links_append)

lemma dll_add [inv_intros]:
  assumes "dll h a xs" "n \<notin> set (a # xs)"
  shows "dll (list_add n a h) a (n # xs)"
proof (cases xs)
  case Nil
  with assms show ?thesis by (auto simp: dll_def list_add_def list_add_between_def)
next
  case (Cons x ws)
  with assms have "links h x ws a" "hnext h a = x" by (auto simp: dll_def)
  then have "links (list_add n a h) x ws a"
    using assms Cons by (auto simp: list_add_def list_add_between_def dll_def elim!: links_cong)
  with assms Cons \<open>hnext h a = x\<close> show ?thesis
    by (auto simp: dll_def list_add_def list_add_between_def)
qed

lemma dll_add_tail [inv_intros]:
  assumes "dll h a xs" "n \<notin> set (a # xs)"
  shows "dll (list_add_tail n a h) a (xs @ [n])"
proof (cases xs rule: rev_cases)
  case Nil
  with assms have "list_add_tail n a h = list_add n a h"
    by (simp add: list_add_tail_def list_add_def dll_def)
  then show ?thesis using dll_add [OF assms] Nil by simp
next
  case (snoc ws l)
  have rot: "dll h l (a # ws)"
    using assms(1) dll_rotate [of h a ws l "[]"] by (simp add: snoc)
  have "hnext h l = a" using rot by (simp add: dll_def)
  then have "list_add_tail n a h = list_add n l h"
    using dll_last [OF assms(1)] by (simp add: list_add_tail_def list_add_def snoc)
  moreover have "dll (list_add n l h) l (n # a # ws)"
    using dll_add [OF rot] assms(2) by (auto simp: snoc)
  ultimately show ?thesis
    using dll_rotate [of _ l "[n]" a ws] by (simp add: snoc)
qed

lemma dll_drop_first:
  assumes "dll h e (z # zs)"
  shows "dll (list_del_entry e h) z zs"
proof (cases zs rule: rev_cases)
  case Nil
  with assms show ?thesis by (auto simp: dll_def list_del_entry_def list_del_between_def)
next
  case (snoc ws l)
  have l: "links h z ws l" "hnext h l = e" "hprev h e = l" "hnext h e = z" "distinct (e # z # ws @ [l])"
    using assms by (auto simp: dll_def snoc links_append)
  then have "links (list_del_entry e h) z ws l"
    by (auto simp: list_del_entry_def list_del_between_def elim!: links_cong)
  with l show ?thesis
    by (auto simp: dll_def snoc links_append list_del_entry_def list_del_between_def)
qed

lemma dll_del_entry:
  assumes "dll h a xs" "e \<in> set xs"
  shows "dll (list_del_entry e h) a (remove1 e xs)"
proof -
  obtain us vs where xs: "xs = us @ e # vs" using assms(2) by (meson split_list)
  have e: "e \<notin> set us" using assms(1) by (auto simp: dll_def xs)
  have "dll h e (vs @ a # us)"
    using assms(1) dll_rotate by (simp add: xs)
  then have "dll (list_del_entry e h) a (us @ vs)"
  proof (cases vs)
    case (Cons v ws)
    with \<open>dll h e (vs @ a # us)\<close> have "dll (list_del_entry e h) v (ws @ a # us)"
      using dll_drop_first by simp
    then show ?thesis using dll_rotate by (simp add: Cons)
  qed (use dll_drop_first in simp)
  then show ?thesis using e by (simp add: xs remove1_append)
qed

lemma dll_poison: "\<lbrakk>dll h a xs; e \<notin> set (a # xs)\<rbrakk> \<Longrightarrow> dll (set_prev e p (set_next e q h)) a xs"
  by (erule dll_frame) auto

lemma dll_del [inv_intros]:
  assumes "dll h a xs" "e \<in> set xs"
  shows "dll (list_del e h) a (remove1 e xs) \<and>
    hnext (list_del e h) e = LIST_POISON1 \<and> hprev (list_del e h) e = LIST_POISON2"
proof -
  have "e \<notin> set (a # remove1 e xs)"
    using dll_distinct [OF assms(1)] assms(2) by auto
  from dll_poison [OF dll_del_entry [OF assms] this] show ?thesis
    by (simp add: list_del_def LIST_POISON1_def LIST_POISON2_def)
qed

lemma dll_del_init [inv_intros]:
  assumes "dll h a xs" "e \<in> set xs"
  shows "dll (list_del_init e h) a (remove1 e xs) \<and> dll (list_del_init e h) e []"
proof -
  have "e \<notin> set (a # remove1 e xs)"
    using dll_distinct [OF assms(1)] assms(2) by auto
  from dll_poison [OF dll_del_entry [OF assms] this] show ?thesis
    using dll_init by (simp add: list_del_init_def INIT_LIST_HEAD_def)
qed

lemma dll_move [inv_intros]:
  assumes "dll h a xs" "e \<in> set xs"
  shows "dll (list_move e a h) a (e # remove1 e xs)" and "dll (list_move_tail e a h) a (remove1 e xs @ [e])"
  using dll_add [OF dll_del_entry [OF assms], of e] dll_add_tail [OF dll_del_entry [OF assms], of e]
    dll_distinct [OF assms(1)] assms(2)
  by (auto simp: list_move_def list_move_tail_def)

lemma dll_rotate_left: "dll h a (x # xs) \<Longrightarrow> dll (list_rotate_left a h) a (xs @ [x])"
  using dll_move(2) [of h a "x # xs" x] by (simp add: list_rotate_left_def dll_empty_iff dll_first)

lemma dll_is_last: "dll h a (us @ e # vs) \<Longrightarrow> list_is_last e a h \<longleftrightarrow> vs = []"
  by (cases vs) (auto simp: list_is_last_def dll_def links_append)

lemma dll_is_singular: "dll h a xs \<Longrightarrow> list_is_singular a h \<longleftrightarrow> length xs = 1"
  using dll_last [of h a xs] dll_empty_iff [of h a xs]
  by (cases xs) (auto simp: list_is_singular_def dll_def last_in_set split: if_splits)

lemma dll_replace [inv_intros]:
  assumes "dll h a (us @ old # vs)" "n \<notin> set (a # us @ old # vs)"
  shows "dll (list_replace old n h) a (us @ n # vs)"
proof -
  have d: "dll h old (vs @ a # us)" using assms(1) dll_rotate by simp
  define zs where "zs = vs @ a # us"
  have zs: "zs \<noteq> []" "dll h old zs" "n \<notin> set (old # zs)" using assms d by (auto simp: zs_def)
  then obtain z ws where w: "zs = z # ws" by (cases zs) auto
  have "dll (list_replace old n h) n zs"
  proof (cases ws rule: rev_cases)
    case Nil
    then show ?thesis using zs(2,3) by (auto simp: w dll_def list_replace_def Let_def)
  next
    case (snoc ys l)
    have l: "links h z ys l" "hnext h l = old" "hprev h old = l" "hnext h old = z" "distinct (n # old # z # ys @ [l])"
      using zs(2,3) by (auto simp: dll_def w snoc links_append)
    then have "links (list_replace old n h) z ys l"
      by (auto simp: list_replace_def Let_def elim!: links_cong)
    with l show ?thesis
      by (auto simp: w dll_def snoc links_append list_replace_def Let_def)
  qed
  then show ?thesis using dll_rotate by (simp add: zs_def)
qed

text \<open>Splicing moves the nodes of one list after the head, or before the end, of another.\<close>

lemma dll_splice_after:
  assumes "dll h l ys" "dll h a xs" "ys \<noteq> []" "set (l # ys) \<inter> set (a # xs) = {}"
  shows "dll (list_splice_between l a (hd (xs @ [a])) h) a (ys @ xs)"
proof -
  obtain y ws where y: "ys = y # ws" using assms(3) by (cases ys) auto
  define e where "e = last ys"
  define h' where "h' = list_splice_between l a (hd (xs @ [a])) h"
  have p: "hprev h l = e" "hnext h l = y"
    using dll_last [OF assms(1)] assms(1) by (auto simp: e_def y dll_def)
  have eq: "h' = set_prev (hd (xs @ [a])) e (set_next e (hd (xs @ [a])) (set_next a y (set_prev y a h)))"
    by (simp add: h'_def list_splice_between_def Let_def p)
  obtain vs where vs: "ys = vs @ [e]" using assms(3) by (metis append_butlast_last_id e_def)
  have nxt: "links h' a vs e"
  proof (cases vs)
    case Nil
    have "hd (xs @ [a]) \<in> set (a # xs)" by (cases xs) auto
    with Nil show ?thesis using assms(4) vs y by (auto simp: eq)
  next
    case (Cons v us)
    then have "v = y" "links h y us e"
      using assms(1) vs y by (auto simp: dll_def links_append)
    moreover have "links h' y us e"
      using assms vs Cons \<open>links h y us e\<close> \<open>v = y\<close>
      by (intro links_cong [OF \<open>links h y us e\<close>]) (auto simp: eq dll_def hd_append split: if_splits)
    ultimately show ?thesis
      using assms vs Cons by (auto simp: eq dll_def hd_append split: if_splits)
  qed
  have "links h' e xs a"
  proof (cases xs)
    case Nil
    then show ?thesis by (auto simp: eq)
  next
    case (Cons x us)
    then have "links h x us a" using assms(2) by (simp add: dll_def)
    have "y \<in> set ys" by (simp add: y)
    then have "y \<notin> set (a # xs)" using assms(4) by auto
    with \<open>links h x us a\<close> have "links h' x us a"
      using assms vs Cons by (elim links_cong) (auto simp: eq dll_def)
    then show ?thesis using Cons by (auto simp: eq)
  qed
  with nxt show ?thesis
    using assms vs unfolding h'_def [symmetric] by (auto simp: dll_def links_append)
qed


lemma dll_splice [inv_intros]:
  assumes "dll h l ys" "dll h a xs" "set (l # ys) \<inter> set (a # xs) = {}"
  shows "dll (list_splice l a h) a (ys @ xs)"
  using assms dll_splice_after [OF assms(1,2) _ assms(3)] links_first [of h a xs a] dll_empty_iff [OF assms(1)]
  by (cases "ys = []") (auto simp: list_splice_def dll_def)

lemma dll_splice_tail [inv_intros]:
  assumes "dll h l ys" "dll h a xs" "set (l # ys) \<inter> set (a # xs) = {}"
  shows "dll (list_splice_tail l a h) a (xs @ ys)"
proof (cases "ys = []")
  case True
  then show ?thesis using assms dll_empty_iff [OF assms(1)] by (simp add: list_splice_tail_def)
next
  case ne: False
  then have eq: "list_splice_tail l a h = list_splice_between l (hprev h a) a h"
    using dll_empty_iff [OF assms(1)] by (simp add: list_splice_tail_def)
  show ?thesis
  proof (cases xs rule: rev_cases)
    case Nil
    then show ?thesis
      using dll_splice_after [OF assms(1,2) ne assms(3)] dll_last [OF assms(2)] by (simp add: eq)
  next
    case (snoc ws e)
    have d: "dll h e (a # ws)"
      using assms(2) dll_rotate [of h a ws e "[]"] by (simp add: snoc)
    have "set (l # ys) \<inter> set (e # a # ws) = {}"
      using assms(3) by (auto simp: snoc)
    from dll_splice_after [OF assms(1) d ne this]
    have "dll (list_splice_between l e a h) e (ys @ a # ws)" by simp
    then show ?thesis
      using dll_last [OF assms(2)] dll_rotate [of _ e ys a ws] by (simp add: eq snoc)
  qed
qed

section \<open>Run queues\<close>

text \<open>
  The contract the scheduler relies on: a queue of distinct entries that are appended,
  removed, and moved to the tail when they are served.
\<close>

locale run_queue =
  fixes queue :: "'h \<Rightarrow> 'a list \<Rightarrow> bool"
    and first :: "'h \<Rightarrow> 'a"
    and is_empty :: "'h \<Rightarrow> bool"
    and enqueue :: "'a \<Rightarrow> 'h \<Rightarrow> 'h"
    and requeue :: "'a \<Rightarrow> 'h \<Rightarrow> 'h"
    and dequeue :: "'a \<Rightarrow> 'h \<Rightarrow> 'h"
    and valid :: "'a \<Rightarrow> bool"
  assumes queue_distinct: "queue q xs \<Longrightarrow> distinct xs"
    and first_law: "queue q (x # xs) \<Longrightarrow> first q = x"
    and empty_law: "queue q xs \<Longrightarrow> is_empty q \<longleftrightarrow> xs = []"
    and enqueue_law: "\<lbrakk>queue q xs; x \<notin> set xs; valid x\<rbrakk> \<Longrightarrow> queue (enqueue x q) (xs @ [x])"
    and requeue_law: "\<lbrakk>queue q xs; x \<in> set xs\<rbrakk> \<Longrightarrow> queue (requeue x q) (remove1 x xs @ [x])"
    and dequeue_law: "\<lbrakk>queue q xs; x \<in> set xs\<rbrakk> \<Longrightarrow> queue (dequeue x q) (remove1 x xs)"
begin

fun serve :: "nat \<Rightarrow> 'h \<Rightarrow> 'a list \<times> 'h" where
  "serve 0 q = ([], q)"
| "serve (Suc n) q = (let x = first q; (ys, q) = serve n (requeue x q) in (x # ys, q))"

lemma serve_front:
  "queue q (xs @ ys) \<Longrightarrow> fst (serve (length xs) q) = xs \<and> queue (snd (serve (length xs) q)) (ys @ xs)"
proof (induction xs arbitrary: q ys)
  case (Cons x xs)
  have "queue (requeue x q) (xs @ ys @ [x])"
    using requeue_law [OF Cons.prems, of x] by simp
  from Cons.IH [OF this] show ?case
    using first_law [of q x "xs @ ys"] Cons.prems by (auto simp: Let_def split: prod.split)
qed simp

text \<open>One round serves every entry once and leaves the order as it was.\<close>

lemma round_robin:
  assumes "queue q xs"
  shows "fst (serve (length xs) q) = xs \<and> queue (snd (serve (length xs) q)) xs"
  using serve_front [of q xs "[]"] assms by simp

lemma requeue_first: "queue q (x # xs) \<Longrightarrow> queue (requeue x q) (xs @ [x])"
  using requeue_law [of q "x # xs" x] by simp

end

interpretation klist: run_queue "\<lambda>h xs. dll h a xs" "\<lambda>h. hnext h a" "list_empty a"
    "\<lambda>n. list_add_tail n a" "\<lambda>n. list_move_tail n a" list_del "\<lambda>n. n \<noteq> a" for a
  by unfold_locales
    (use dll_distinct dll_first dll_empty_iff dll_add_tail dll_move(2) dll_del in auto)

section \<open>Properties\<close>



end
