(* ===== verification/Se_Socket.thy ===== *)
theory Se_Socket
  imports Sds_Laws "HOL-Library.Multiset"
begin

text \<open>
  The socket layer of the runtime, \<^verbatim>\<open>se/se/se/se_socket.c\<close>: parsing of addresses such as
  \<^verbatim>\<open>tcp://10.0.0.1:80\<close>, and creation, connection, binding and acceptance of non-blocking
  sockets. The operating system is a script: the result of each system call the code makes
  is the head of a list, and the calls that matter to a caller (which descriptors were
  opened and closed) are recorded. The C library functions the parser uses (\<open>strchr\<close>,
  \<open>strstr\<close>, \<open>atoi\<close>, \<open>inet_pton\<close> for AF_INET) are written out as documented, on LP64.
\<close>

section \<open>The C library\<close>

fun strchr :: "cstring \<Rightarrow> char \<Rightarrow> nat option" where
  "strchr [] c = (if c = NUL then Some 0 else None)"
| "strchr (x # xs) c = (if x = c then Some 0 else map_option Suc (strchr xs c))"

fun strstr :: "cstring \<Rightarrow> cstring \<Rightarrow> nat option" where
  "strstr [] pat = (if pat = [] then Some 0 else None)"
| "strstr (x # xs) pat =
     (if take (length pat) (x # xs) = pat then Some 0 else map_option Suc (strstr xs pat))"

text \<open>\<open>strtol\<close> saturates; the conversion to \<^verbatim>\<open>int\<close> keeps the low 32 bits.\<close>

definition atoi :: "cstring \<Rightarrow> int" where
  "atoi s =
     (let s = dropWhile isspace s;
          (neg, s) = (case s of
                        [] \<Rightarrow> (False, s)
                      | c # r \<Rightarrow> if c = CHR ''-'' then (True, r) else if c = CHR ''+'' then (False, r) else (False, s));
          v = int (digits_value (takeWhile is_digit s));
          l = (if neg then max (- (2 ^ 63)) (- v) else min (2 ^ 63 - 1) v)
      in sint (word_of_int l :: 32 word))"

text \<open>
  \<open>inet_pton(AF_INET, \<dots>)\<close>: four decimal octets without superfluous leading zeros. The state is
  the octets read, the octet being read and whether it has a digit.
\<close>

fun inet_pton4 :: "nat list \<Rightarrow> nat \<Rightarrow> bool \<Rightarrow> cstring \<Rightarrow> nat list option" where
  "inet_pton4 octets v digit [] =
     (if digit \<and> length octets = 3 then Some (octets @ [v]) else None)"
| "inet_pton4 octets v digit (c # s) =
     (if is_digit c then
        (if digit \<and> v = 0 then None
         else let v = v * 10 + (of_char c - 48)
              in if 255 < v then None else inet_pton4 octets v True s)
      else if c = CHR ''.'' \<and> digit \<and> length octets < 3
      then inet_pton4 (octets @ [v]) 0 False s
      else None)"

section \<open>Addresses\<close>

definition EINVAL :: int where "EINVAL = 22"
definition EBADF :: int where "EBADF = 9"
definition EAGAIN :: int where "EAGAIN = 11"
definition EINPROGRESS :: int where "EINPROGRESS = 115"
definition ENOPROTOOPT :: int where "ENOPROTOOPT = 92"
definition EOPNOTSUPP :: int where "EOPNOTSUPP = 95"

definition SE_IP_MAX_LENGTH :: nat where
  "SE_IP_MAX_LENGTH = 64"

datatype sock_type = SOCK_STREAM | SOCK_DGRAM
datatype sock_family = AF_INET | AF_UNIX

record sockaddr_in =
  sin_port :: u16
  sin_addr :: "nat list"

text \<open>\<open>Inl\<close> is the error number returned, \<open>Inr\<close> the filled structure. The port is in host order.\<close>

definition se_parse_ipv4_addr :: "cstring \<Rightarrow> int + sockaddr_in" where
  "se_parse_ipv4_addr addr =
     (case strchr addr CHR '':'' of
        None \<Rightarrow> Inl EINVAL
      | Some colon \<Rightarrow>
          let port = atoi (drop (colon + 1) addr)
          in if port < 0 \<or> 65535 < port then Inl EINVAL
             else if SE_IP_MAX_LENGTH \<le> colon then Inl EINVAL
             else case inet_pton4 [] 0 False (take colon addr) of
                    Some a \<Rightarrow> Inr \<lparr>sin_port = word_of_int port, sin_addr = a\<rparr>
                  | None \<Rightarrow> Inl EINVAL)"

definition se_parse_addr :: "cstring \<Rightarrow> int + sock_type \<times> sockaddr_in" where
  "se_parse_addr addr =
     (case strstr addr ''://'' of
        None \<Rightarrow> Inl EINVAL
      | Some colon \<Rightarrow>
          (let scheme =
                 (if colon = 3 then
                    (if take 3 addr = ''tcp'' then Some (SOCK_STREAM, AF_INET)
                     else if take 3 addr = ''udp'' then Some (SOCK_DGRAM, AF_INET) else None)
                  else if colon = 4 then
                    (if take 4 addr = ''unix'' then Some (SOCK_STREAM, AF_UNIX) else None)
                  else if colon = 8 then
                    (if take 8 addr = ''unixgram'' then Some (SOCK_DGRAM, AF_UNIX) else None)
                  else None)
           in case scheme of
                None \<Rightarrow> Inl EINVAL
              | Some (ty, AF_INET) \<Rightarrow> map_sum id (Pair ty) (se_parse_ipv4_addr (drop (colon + 3) addr))
              | Some (ty, AF_UNIX) \<Rightarrow> Inl EINVAL))"

section \<open>System calls\<close>

text \<open>
  A system call returns bytes, a non-negative number, or fails with an error number. When
  the script is exhausted every call fails with EAGAIN.
\<close>

datatype sysret = SysData "char list" | SysNum nat | SysErr int

record se_os =
  os_script :: "sysret list"
  os_opened :: "nat list"
  os_closed :: "nat list"

definition sys_call :: "se_os \<Rightarrow> sysret \<times> se_os" where
  "sys_call w = (case os_script w of [] \<Rightarrow> (SysErr EAGAIN, w) | r # rs \<Rightarrow> (r, w\<lparr>os_script := rs\<rparr>))"

text \<open>\<open>Inl\<close> the error number, \<open>Inr\<close> the number returned.\<close>

definition sys_num :: "se_os \<Rightarrow> (int + nat) \<times> se_os" where
  "sys_num w = (case sys_call w of
                  (SysErr e, w) \<Rightarrow> (Inl e, w)
                | (SysNum n, w) \<Rightarrow> (Inr n, w)
                | (SysData xs, w) \<Rightarrow> (Inr (length xs), w))"

definition sys_open :: "se_os \<Rightarrow> (int + nat) \<times> se_os" where
  "sys_open w = (case sys_num w of
                   (Inl e, w) \<Rightarrow> (Inl e, w)
                 | (Inr fd, w) \<Rightarrow> (Inr fd, w\<lparr>os_opened := os_opened w @ [fd]\<rparr>))"

definition sys_close :: "nat \<Rightarrow> se_os \<Rightarrow> se_os" where
  "sys_close fd w = w\<lparr>os_closed := os_closed w @ [fd]\<rparr>"

section \<open>Sockets\<close>

text \<open>Zero is success.\<close>

definition se_socket_config :: "nat \<Rightarrow> se_os \<Rightarrow> int \<times> se_os" where
  "se_socket_config sock w =
     (case sys_num w of
        (Inl e, w) \<Rightarrow> if e \<noteq> ENOPROTOOPT \<and> e \<noteq> EOPNOTSUPP then (e, w) else (0, w)
      | (Inr _, w) \<Rightarrow> (0, w))"

definition se_socket_create :: "sock_type \<Rightarrow> se_os \<Rightarrow> (int + nat) \<times> se_os" where
  "se_socket_create ty w =
     (case sys_open w of
        (Inl e, w) \<Rightarrow> (Inl e, w)
      | (Inr sock, w) \<Rightarrow>
          (case se_socket_config sock w of
             (err, w) \<Rightarrow> if err \<noteq> 0 then (Inl err, sys_close sock w) else (Inr sock, w)))"

text \<open>\<open>getsockopt(SO_ERROR)\<close>: the pending error of the socket, zero when there is none.\<close>

definition se_socket_error :: "nat \<Rightarrow> se_os \<Rightarrow> int \<times> se_os" where
  "se_socket_error sock w =
     (case sys_num w of
        (Inl e, w) \<Rightarrow> (e, w)
      | (Inr n, w) \<Rightarrow> (int n, w))"

text \<open>The error number and \<open>*psock\<close>, \<open>None\<close> for \<open>-1\<close>.\<close>

definition se_socket_connect :: "cstring \<Rightarrow> se_os \<Rightarrow> (int \<times> nat option) \<times> se_os" where
  "se_socket_connect addr w =
     (case se_parse_addr addr of
        Inl err \<Rightarrow> ((err, None), w)
      | Inr (ty, sa) \<Rightarrow>
          (case se_socket_create ty w of
             (Inl err, w) \<Rightarrow> ((err, None), w)
           | (Inr sock, w) \<Rightarrow>
               (case sys_num w of
                  (Inl err, w) \<Rightarrow>
                    if err \<noteq> EINPROGRESS then ((err, None), sys_close sock w) else ((err, Some sock), w)
                | (Inr _, w) \<Rightarrow> ((0, Some sock), w))))"

definition se_socket_bind :: "nat \<Rightarrow> sockaddr_in \<Rightarrow> se_os \<Rightarrow> int \<times> se_os" where
  "se_socket_bind sock sa w =
     (case sys_num w of
        (Inl err, w) \<Rightarrow> (err, w)
      | (Inr _, w) \<Rightarrow> (case sys_num w of (Inl err, w) \<Rightarrow> (err, w) | (Inr _, w) \<Rightarrow> (0, w)))"

definition se_socket_listen :: "cstring \<Rightarrow> se_os \<Rightarrow> (int \<times> nat option) \<times> se_os" where
  "se_socket_listen addr w =
     (case se_parse_addr addr of
        Inl err \<Rightarrow> ((err, None), w)
      | Inr (ty, sa) \<Rightarrow>
          (case se_socket_create ty w of
             (Inl err, w) \<Rightarrow> ((err, None), w)
           | (Inr sock, w) \<Rightarrow>
               (case se_socket_bind sock sa w of
                  (err, w) \<Rightarrow>
                    if err \<noteq> 0 then ((err, None), sys_close sock w)
                    else case sys_num w of
                           (Inl err, w) \<Rightarrow> ((err, None), sys_close sock w)
                         | (Inr _, w) \<Rightarrow> ((0, Some sock), w))))"

definition se_socket_accept :: "nat \<Rightarrow> se_os \<Rightarrow> (int + nat) \<times> se_os" where
  "se_socket_accept sock w =
     (case sys_open w of
        (Inl e, w) \<Rightarrow> (Inl e, w)
      | (Inr newsock, w) \<Rightarrow>
          (case se_socket_config newsock w of
             (err, w) \<Rightarrow> if err \<noteq> 0 then (Inl err, sys_close newsock w) else (Inr newsock, w)))"

text \<open>
  What \<^verbatim>\<open>getsockname\<close> or \<^verbatim>\<open>getpeername\<close> filled in (\<open>None\<close>: it failed); \<open>ntop\<close> is
  \<^verbatim>\<open>inet_ntop\<close>. The result is the error, the address text and the port.
\<close>

datatype sockname = Inet "nat list" u16 | Inet6 "nat list" u16 | Other_family

definition se_socket_addr :: "(sockname \<Rightarrow> cstring option) \<Rightarrow> sockname option \<Rightarrow> int \<times> cstring \<times> u16" where
  "se_socket_addr ntop name =
     (case name of
        None \<Rightarrow> (EINVAL, [], 0)
      | Some sa \<Rightarrow>
          (case (case sa of Inet a p \<Rightarrow> Some p | Inet6 a p \<Rightarrow> Some p | Other_family \<Rightarrow> None) of
             None \<Rightarrow> (EINVAL, [], 0)
           | Some port \<Rightarrow> (case ntop sa of None \<Rightarrow> (EINVAL, [], 0) | Some ip \<Rightarrow> (0, ip, port))))"

definition se_socket_shutdown :: "nat \<Rightarrow> int \<Rightarrow> se_os \<Rightarrow> int \<times> se_os" where
  "se_socket_shutdown sock how w =
     (case sys_num w of (Inl err, w) \<Rightarrow> (err, w) | (Inr _, w) \<Rightarrow> (0, w))"


section \<open>Reading addresses\<close>

abbreviation decimal :: "nat \<Rightarrow> cstring" where
  "decimal n \<equiv> ll_digits n []"

fun dotted :: "nat list \<Rightarrow> cstring" where
  "dotted [] = []"
| "dotted [v] = decimal v"
| "dotted (v # w # vs) = decimal v @ CHR ''.'' # dotted (w # vs)"

lemma decimal_cases:
  "v < 1000 \<Longrightarrow> decimal v =
     (if v < 10 then [char_of (48 + v)]
      else if v < 100 then [char_of (48 + v div 10), char_of (48 + v mod 10)]
      else [char_of (48 + v div 100), char_of (48 + v div 10 mod 10), char_of (48 + v mod 10)])"
  by (auto simp: ll_digits_step [of v] ll_digits_step [of "v div 10"] ll_digits_step [of "v div 100"]
      div_mult2_eq [symmetric])

lemma is_digit_char_of [simp]: "(d::nat) < 10 \<Longrightarrow> is_digit (char_of (48 + d))"
  by (simp add: is_digit_def)

lemma inet_pton4_digit:
  "d < 10 \<Longrightarrow> inet_pton4 octets v digit (char_of (48 + d) # s) =
     (if digit \<and> v = 0 \<or> 255 < v * 10 + d then None else inet_pton4 octets (v * 10 + d) True s)"
  by (auto simp: Let_def)

lemma inet_pton4_decimal:
  assumes "v \<le> 255"
  shows "inet_pton4 octets 0 False (decimal v @ s) = inet_pton4 octets v True s"
proof -
  have "v < 1000" using assms by simp
  consider "v < 10" | "10 \<le> v" "v < 100" | "100 \<le> v" by linarith
  then show ?thesis
  proof cases
    case 1
    then show ?thesis by (simp add: decimal_cases inet_pton4_digit del: inet_pton4.simps)
  next
    case 2
    then have "v div 10 < 10" "v div 10 \<noteq> 0" by auto
    with 2 show ?thesis
      using assms by (simp add: decimal_cases inet_pton4_digit del: inet_pton4.simps)
  next
    case 3
    then have "v div 100 < 10" "v div 100 \<noteq> 0" using assms by auto
    moreover have "v div 100 * 10 + v div 10 mod 10 = v div 10" "v div 10 * 10 + v mod 10 = v"
      by (simp_all add: div_mult2_eq [of v 10 10, simplified])
    moreover have "v div 10 \<le> 25" using assms by simp
    ultimately show ?thesis
      using assms 3 \<open>v < 1000\<close>
      by (simp add: decimal_cases inet_pton4_digit del: inet_pton4.simps)
  qed
qed


lemma inet_pton4_dot:
  "length octets < 3 \<Longrightarrow> inet_pton4 octets v True (CHR ''.'' # s) = inet_pton4 (octets @ [v]) 0 False s"
  by (simp add: is_digit_def)

lemma inet_pton4_dotted:
  "\<lbrakk>a \<noteq> []; length octets + length a = 4; \<forall>v \<in> set a. v \<le> 255\<rbrakk> \<Longrightarrow>
   inet_pton4 octets 0 False (dotted a) = Some (octets @ a)"
proof (induction a arbitrary: octets rule: dotted.induct)
  case (2 v)
  then show ?case using inet_pton4_decimal [of v octets "[]"] by simp
next
  case (3 v w vs)
  then show ?case by (simp add: inet_pton4_decimal inet_pton4_dot del: inet_pton4.simps)
qed simp

lemma decimal_digits: "c \<in> set (decimal v) \<Longrightarrow> is_digit c"
  using ll_digits_value [of v] by blast

lemma dotted_chars: "c \<in> set (dotted a) \<Longrightarrow> is_digit c \<or> c = CHR ''.''"
  by (induction a rule: dotted.induct) (auto dest: decimal_digits)

lemma strchr_append: "c \<notin> set xs \<Longrightarrow> strchr (xs @ c # ys) c = Some (length xs)"
  by (induction xs) auto

lemma strchr_Some: "strchr s c = Some n \<Longrightarrow> c \<noteq> NUL \<Longrightarrow> n < length s \<and> s ! n = c"
  by (induction s arbitrary: n) (auto split: if_splits)

lemma decimal_ne [simp]: "decimal v \<noteq> []"
  by (subst ll_digits_step) simp

lemma atoi_decimal:
  assumes "p < 2 ^ 31"
  shows "atoi (decimal p) = int p"
proof -
  obtain c r where c: "decimal p = c # r" by (cases "decimal p") auto
  have d: "is_digit c" using decimal_digits [of c p] c by simp
  then have "\<not> isspace c" "c \<noteq> CHR ''-''" "c \<noteq> CHR ''+''"
    by (auto simp: is_digit_def isspace_def)
  moreover have "takeWhile is_digit (decimal p) = decimal p"
    using decimal_digits by (simp add: takeWhile_eq_all_conv)
  moreover have "digits_value (decimal p) = p"
    using ll_digits_value [of p] by blast
  moreover have "sint (word_of_int (int p) :: 32 word) = int p"
    using assms by (subst int_word_sint) simp
  ultimately show ?thesis
    using assms by (simp add: atoi_def c Let_def)
qed

lemma inet_pton4_sound:
  "inet_pton4 octets v digit s = Some a \<Longrightarrow>
   (\<forall>x \<in> set octets. x \<le> 255) \<Longrightarrow> v \<le> 255 \<Longrightarrow> length a = 4 \<and> (\<forall>x \<in> set a. x \<le> 255)"
  by (induction octets v digit s rule: inet_pton4.induct) (auto simp: Let_def split: if_splits)

lemma length_dotted: "\<lbrakk>length a = 4; \<forall>v \<in> set a. v \<le> 255\<rbrakk> \<Longrightarrow> length (dotted a) < SE_IP_MAX_LENGTH"
proof -
  have l: "length (decimal v) \<le> 3" if "v \<le> 255" for v
    using that by (subst decimal_cases) auto
  assume a: "length a = 4" "\<forall>v \<in> set a. v \<le> 255"
  then obtain w x y z where "a = [w, x, y, z]"
    by (auto simp: numeral_eq_Suc length_Suc_conv)
  with a l [of w] l [of x] l [of y] l [of z] show ?thesis
    by (simp add: SE_IP_MAX_LENGTH_def)
qed

lemma se_parse_ipv4_addr_complete:
  assumes "length a = 4" "\<forall>v \<in> set a. v \<le> 255" "p < 65536"
  shows "se_parse_ipv4_addr (dotted a @ CHR '':'' # decimal p) =
    Inr \<lparr>sin_port = of_nat p, sin_addr = a\<rparr>"
proof -
  have "CHR '':'' \<notin> set (dotted a)"
    by (auto dest!: dotted_chars simp: is_digit_def)
  moreover have "a \<noteq> []" using assms(1) by auto
  ultimately show ?thesis
    using assms atoi_decimal [of p] length_dotted [OF assms(1,2)] inet_pton4_dotted [of a "[]"]
    by (auto simp: se_parse_ipv4_addr_def strchr_append)
qed

lemma strstr_Some: "strstr s pat = Some n \<Longrightarrow> take (length pat) (drop n s) = pat"
  by (induction s arbitrary: n) (auto split: if_splits)

lemma se_parse_addr_tcp_udp:
  "se_parse_addr (''tcp://'' @ r) = map_sum id (Pair SOCK_STREAM) (se_parse_ipv4_addr r)"
  "se_parse_addr (''udp://'' @ r) = map_sum id (Pair SOCK_DGRAM) (se_parse_ipv4_addr r)"
  by (simp_all add: se_parse_addr_def)

lemma take_6_split: "take 6 xs = take 3 xs @ take 3 (drop 3 xs)"
  using take_add [of 3 3 xs] by simp

lemma se_parse_addr_sound:
  assumes "se_parse_addr addr = Inr (ty, sa)"
  shows "take 6 addr = (case ty of SOCK_STREAM \<Rightarrow> ''tcp://'' | SOCK_DGRAM \<Rightarrow> ''udp://'') \<and>
    se_parse_ipv4_addr (drop 6 addr) = Inr sa"
proof -
  obtain n where n: "strstr addr ''://'' = Some n"
    using assms by (auto simp: se_parse_addr_def split: option.splits)
  have 3: "take 3 (drop n addr) = ''://''"
    using strstr_Some [OF n] by (simp add: numeral_3_eq_3)
  show ?thesis
  proof (cases "n = 3")
    case True
    then show ?thesis
      using assms n 3 take_6_split [of addr]
      by (auto simp: se_parse_addr_def map_sum_def id_def split: if_splits sum.splits)
  next
    case False
    then show ?thesis using assms n by (auto simp: se_parse_addr_def split: if_splits)
  qed
qed

lemma se_parse_ipv4_addr_sound:
  assumes "se_parse_ipv4_addr s = Inr sa"
  shows "length (sin_addr sa) = 4 \<and> (\<forall>v \<in> set (sin_addr sa). v \<le> 255) \<and>
    (\<exists>n. strchr s CHR '':'' = Some n \<and> n < SE_IP_MAX_LENGTH)"
  using assms inet_pton4_sound [of "[]" 0 False]
  by (auto simp: se_parse_ipv4_addr_def Let_def split: option.splits if_splits)

section \<open>Descriptors are not leaked\<close>

text \<open>\<open>w'\<close> is reached from \<open>w\<close> by calls that, together, left exactly the descriptors \<open>fds\<close> open.\<close>

definition fd_balance :: "se_os \<Rightarrow> se_os \<Rightarrow> nat multiset \<Rightarrow> bool" where
  "fd_balance w w' fds \<longleftrightarrow>
     mset (os_opened w') + mset (os_closed w) = mset (os_opened w) + mset (os_closed w') + fds"

abbreviation opt_fd :: "nat option \<Rightarrow> nat multiset" where
  "opt_fd fd \<equiv> (case fd of None \<Rightarrow> {#} | Some fd \<Rightarrow> {#fd#})"

lemma sys_num_fds: "sys_num w = (r, w') \<Longrightarrow> os_opened w' = os_opened w \<and> os_closed w' = os_closed w"
  by (auto simp: sys_num_def sys_call_def split: list.splits sysret.splits prod.splits)

lemma sys_open_fds:
  "sys_open w = (r, w') \<Longrightarrow> os_closed w' = os_closed w \<and>
     os_opened w' = os_opened w @ (case r of Inl e \<Rightarrow> [] | Inr fd \<Rightarrow> [fd])"
  by (auto simp: sys_open_def dest: sys_num_fds split: sum.splits prod.splits)

lemma se_socket_config_fds:
  "se_socket_config sock w = (r, w') \<Longrightarrow> os_opened w' = os_opened w \<and> os_closed w' = os_closed w"
  by (auto simp: se_socket_config_def dest: sys_num_fds split: sum.splits prod.splits if_splits)

lemma se_socket_create_fds:
  "se_socket_create ty w = (r, w') \<Longrightarrow> fd_balance w w' (case r of Inl e \<Rightarrow> {#} | Inr fd \<Rightarrow> {#fd#})"
  by (auto simp: se_socket_create_def fd_balance_def sys_close_def
      dest!: sys_open_fds se_socket_config_fds split: sum.splits prod.splits if_splits)

lemma se_socket_connect_fds:
  "se_socket_connect addr w = ((err, fd), w') \<Longrightarrow> fd_balance w w' (opt_fd fd)"
  by (auto simp: se_socket_connect_def sys_close_def split: sum.splits prod.splits if_splits
      dest!: sys_num_fds se_socket_create_fds) (auto simp: fd_balance_def)

lemma se_socket_bind_fds:
  "se_socket_bind sock sa w = (r, w') \<Longrightarrow> os_opened w' = os_opened w \<and> os_closed w' = os_closed w"
  by (auto simp: se_socket_bind_def dest!: sys_num_fds split: sum.splits prod.splits)

lemma se_socket_listen_fds:
  "se_socket_listen addr w = ((err, fd), w') \<Longrightarrow> fd_balance w w' (opt_fd fd)"
  by (auto simp: se_socket_listen_def sys_close_def split: sum.splits prod.splits if_splits
      dest!: sys_num_fds se_socket_create_fds se_socket_bind_fds) (auto simp: fd_balance_def)

lemma se_socket_accept_fds:
  "se_socket_accept sock w = (r, w') \<Longrightarrow> fd_balance w w' (case r of Inl e \<Rightarrow> {#} | Inr fd \<Rightarrow> {#fd#})"
  by (auto simp: se_socket_accept_def fd_balance_def sys_close_def
      dest!: sys_open_fds se_socket_config_fds split: sum.splits prod.splits if_splits)


section \<open>Properties\<close>



text \<open>C28. Creating a connected, listening or accepted socket leaves open exactly the
  descriptor it returns: every descriptor opened on a path that fails is closed.\<close>

theorem se_socket_no_leak:
  "(let ((err, fd), w') = se_socket_connect addr w in fd_balance w w' (opt_fd fd)) \<and>
   (let ((err, fd), w') = se_socket_listen addr w in fd_balance w w' (opt_fd fd)) \<and>
   (let (r, w') = se_socket_accept sock w in fd_balance w w' (case r of Inl e \<Rightarrow> {#} | Inr fd \<Rightarrow> {#fd#}))"
  using se_socket_connect_fds [of addr w] se_socket_listen_fds [of addr w] se_socket_accept_fds [of sock w]
  by (auto split: prod.split)

end
