(* ===== verification/Se_Core.thy ===== *)
theory Se_Core
  imports Kernel_List Se_Socket Complex_Main
begin

text \<open>
  The coroutine runtime \<^verbatim>\<open>se/se/se/se_core.c\<close>. A state holds the run queue (a \<open>list.h\<close> list on
  its heap), the threads by the address of their structure, libev's count of the things
  that keep the loop running, and the operating system's script. Every Lua-callable
  function \<open>l_se_*\<close> takes its Lua arguments and either returns values, raises, or suspends
  the thread with a watcher; every \<open>se_on_*\<close> callback is the function libev runs when the
  watcher fires. Lua programs are the environment: \<open>se_exec\<close> runs one event, and any
  sequence of enabled events is a run. Callbacks are enabled whenever no coroutine is running,
  which includes every schedule of libev. Lua's coercion of strings to numbers is
  not modelled (such an argument counts as ill-typed), \<open>LErr e\<close> stands for the text
  \<^verbatim>\<open>strerror(e)\<close>, and a thread structure is never allocated at an address used before.
\<close>

section \<open>State\<close>

datatype lua_val = LNil | LStr "char list" | LInt int | LNum rat | LErr int | LFun
  | LTab "(cstring \<times> lua_val) list"

datatype io_cb = On_read | On_write | On_connect | On_accept
datatype timer_cb = On_sleep | On_timeout io_cb

text \<open>
  \<open>t_timer\<close> and \<open>t_io\<close> are the callbacks of the watchers while they are active; \<open>t_stack\<close> is
  the coroutine's stack while it is suspended; \<open>t_yielded\<close> is the status LUA_YIELD.
\<close>

record se_thread =
  t_nresult :: nat
  t_timer :: "timer_cb option"
  t_io :: "io_cb option"
  t_fd :: int
  t_data :: int
  t_buf :: "sds option"
  t_nwrite :: nat
  t_stack :: "lua_val list"
  t_yielded :: bool

datatype api_result = Return "lua_val list" | Wait "lua_val list" | Raise cstring

record se_state =
  s_heap :: list_heap
  s_thr :: "addr \<Rightarrow> se_thread option"
  s_fresh :: addr
  s_current :: "addr option"
  s_evcount :: int
  s_now :: rat
  s_os :: se_os
  s_wire :: "(int \<times> char list) list"
  s_last :: "api_result option"

definition se_running_threads :: addr where
  "se_running_threads = 8"

definition upd_thr :: "addr \<Rightarrow> (se_thread \<Rightarrow> se_thread) \<Rightarrow> se_state \<Rightarrow> se_state" where
  "upd_thr t f s = s\<lparr>s_thr := (s_thr s)(t := map_option f (s_thr s t))\<rparr>"

definition the_thr :: "se_state \<Rightarrow> addr \<Rightarrow> se_thread" where
  "the_thr s t = the (s_thr s t)"

definition upd_os :: "(se_os \<Rightarrow> se_os) \<Rightarrow> se_state \<Rightarrow> se_state" where
  "upd_os f s = s\<lparr>s_os := f (s_os s)\<rparr>"

section \<open>libev\<close>

definition ev_ref :: "se_state \<Rightarrow> se_state" where
  "ev_ref s = s\<lparr>s_evcount := s_evcount s + 1\<rparr>"

definition ev_unref :: "se_state \<Rightarrow> se_state" where
  "ev_unref s = s\<lparr>s_evcount := s_evcount s - 1\<rparr>"

text \<open>Initialising a watcher makes it inactive; starting it makes it count.\<close>

definition ev_timer_start :: "addr \<Rightarrow> timer_cb \<Rightarrow> se_state \<Rightarrow> se_state" where
  "ev_timer_start t cb s = ev_ref (upd_thr t (\<lambda>th. th\<lparr>t_timer := Some cb\<rparr>) s)"

definition ev_io_start :: "addr \<Rightarrow> io_cb \<Rightarrow> int \<Rightarrow> se_state \<Rightarrow> se_state" where
  "ev_io_start t cb fd s = ev_ref (upd_thr t (\<lambda>th. th\<lparr>t_io := Some cb, t_fd := fd\<rparr>) s)"

definition ev_timer_stop :: "addr \<Rightarrow> se_state \<Rightarrow> se_state" where
  "ev_timer_stop t s =
     (if t_timer (the_thr s t) = None then s
      else ev_unref (upd_thr t (\<lambda>th. th\<lparr>t_timer := None\<rparr>) s))"

definition ev_io_stop :: "addr \<Rightarrow> se_state \<Rightarrow> se_state" where
  "ev_io_stop t s =
     (if t_io (the_thr s t) = None then s
      else ev_unref (upd_thr t (\<lambda>th. th\<lparr>t_io := None\<rparr>) s))"

section \<open>Lua arguments\<close>

definition lua_arg :: "lua_val list \<Rightarrow> nat \<Rightarrow> lua_val option" where
  "lua_arg args i = (if 1 \<le> i \<and> i \<le> length args then Some (args ! (i - 1)) else None)"

definition lua_number :: "lua_val option \<Rightarrow> rat option" where
  "lua_number v = (case v of Some (LInt n) \<Rightarrow> Some (of_int n) | Some (LNum r) \<Rightarrow> Some r | _ \<Rightarrow> None)"

definition lua_integer :: "lua_val option \<Rightarrow> int option" where
  "lua_integer v = (case v of
                      Some (LInt n) \<Rightarrow> Some n
                    | Some (LNum r) \<Rightarrow> (if of_int \<lfloor>r\<rfloor> = r then Some \<lfloor>r\<rfloor> else None)
                    | _ \<Rightarrow> None)"

definition lua_string :: "lua_val option \<Rightarrow> char list option" where
  "lua_string v = (case v of Some (LStr s) \<Rightarrow> Some s | _ \<Rightarrow> None)"

abbreviation TIMEOUT :: lua_val where "TIMEOUT \<equiv> LStr ''TIMEOUT''"

section \<open>Threads\<close>

definition se_thread_wakeup :: "addr \<Rightarrow> nat \<Rightarrow> se_state \<Rightarrow> se_state" where
  "se_thread_wakeup t nresult s =
     upd_thr t (\<lambda>th. th\<lparr>t_nresult := nresult\<rparr>)
       (s\<lparr>s_heap := list_add_tail t se_running_threads (s_heap s)\<rparr>)"

text \<open>The callbacks push the results on the coroutine's stack just before they wake it.\<close>

definition lua_push :: "addr \<Rightarrow> lua_val list \<Rightarrow> se_state \<Rightarrow> se_state" where
  "lua_push t vs s = upd_thr t (\<lambda>th. th\<lparr>t_stack := t_stack th @ vs\<rparr>) s"

definition se_thread_wakeup_io :: "addr \<Rightarrow> nat \<Rightarrow> se_state \<Rightarrow> se_state" where
  "se_thread_wakeup_io t nresult s =
     se_thread_wakeup t nresult (ev_io_stop t (ev_timer_stop t s))"

definition wake_with :: "addr \<Rightarrow> lua_val list \<Rightarrow> se_state \<Rightarrow> se_state" where
  "wake_with t vs s = se_thread_wakeup_io t (length vs) (lua_push t vs s)"

definition se_thread_new :: "lua_val list \<Rightarrow> se_state \<Rightarrow> se_state option" where
  "se_thread_new args s =
     (if lua_arg args 1 \<noteq> Some LFun then None
      else let t = s_fresh s;
               th = \<lparr>t_nresult = 0, t_timer = None, t_io = None, t_fd = 0, t_data = 0, t_buf = None,
                     t_nwrite = 0, t_stack = [], t_yielded = False\<rparr>;
               s = s\<lparr>s_thr := (s_thr s)(t \<mapsto> th), s_fresh := t + 1\<rparr>;
               s = se_thread_wakeup t (length args - 1) s
           in Some (lua_push t args (ev_ref s)))"

text \<open>\<open>None\<close> is a failed assertion, an error in the caller of the event loop.\<close>

definition se_thread_free :: "addr \<Rightarrow> se_state \<Rightarrow> se_state option" where
  "se_thread_free t s =
     (let s = ev_unref s;
          s = s\<lparr>s_heap := list_del t (s_heap s)\<rparr>;
          th = the_thr s t
      in if t_buf th \<noteq> None then None
         else if t_timer th \<noteq> None then None
         else if t_io th \<noteq> None then None
         else Some (s\<lparr>s_thr := (s_thr s)(t := None)\<rparr>))"

text \<open>
  The part of \<open>se_thread_resume\<close> up to the entry of \<open>lua_resume\<close>: the last \<open>nresult\<close> values of
  the stack become the results of the call that suspended the coroutine.
\<close>

definition se_thread_resume :: "addr \<Rightarrow> se_state \<Rightarrow> se_state option" where
  "se_thread_resume t s =
     (let th = the_thr s t
      in if \<not> t_yielded th \<and> t_stack th = [] then None
         else Some (upd_thr t (\<lambda>th. th\<lparr>t_stack := [], t_yielded := False\<rparr>)
                (s\<lparr>s_last := Some (Return (drop (length (t_stack th) - t_nresult th) (t_stack th)))\<rparr>)))"

text \<open>\<open>lua_resume\<close> returns LUA_YIELD with the values \<open>vs\<close>.\<close>

definition se_resume_yield :: "addr \<Rightarrow> lua_val list \<Rightarrow> se_state \<Rightarrow> se_state" where
  "se_resume_yield t vs s =
     upd_thr t (\<lambda>th. th\<lparr>t_nresult := 0, t_stack := vs, t_yielded := True\<rparr>) (s\<lparr>s_current := None\<rparr>)"

text \<open>It returns LUA_OK.\<close>

definition se_resume_finish :: "addr \<Rightarrow> se_state \<Rightarrow> se_state option" where
  "se_resume_finish t s = map_option (\<lambda>s. s\<lparr>s_current := None\<rparr>) (se_thread_free t s)"

text \<open>One round of the loop in \<open>se_on_schedule\<close>, up to the point where the coroutine runs.\<close>

definition se_on_schedule :: "se_state \<Rightarrow> se_state option" where
  "se_on_schedule s =
     (if list_empty se_running_threads (s_heap s) then Some s
      else let t = hnext (s_heap s) se_running_threads;
               s = s\<lparr>s_heap := list_move_tail t se_running_threads (s_heap s), s_current := Some t\<rparr>
           in se_thread_resume t s)"

section \<open>Suspending\<close>

definition SE_WAIT_timer :: "addr \<Rightarrow> timer_cb \<Rightarrow> se_state \<Rightarrow> se_state" where
  "SE_WAIT_timer t cb s = ev_timer_start t cb (s\<lparr>s_heap := list_del t (s_heap s)\<rparr>)"

text \<open>
  \<open>argc\<close> is the number of arguments of the call, \<open>extra\<close> the values yielded. The result is
  \<open>None\<close> when the macro falls through to the code after it: a timeout between 0 and 1 ms.
\<close>

definition SE_WAIT_TIMEOUT ::
  "addr \<Rightarrow> lua_val list \<Rightarrow> lua_val list \<Rightarrow> nat \<Rightarrow> io_cb \<Rightarrow> int \<Rightarrow> se_state \<Rightarrow> se_state \<times> api_result option" where
  "SE_WAIT_TIMEOUT t args extra timeout_arg cb fd s =
     (let wait = (\<lambda>s. (let s = ev_io_start t cb fd s
                       in (s\<lparr>s_heap := list_del t (s_heap s)\<rparr>, Some (Wait extra))))
      in if timeout_arg \<le> length args then
           (case lua_number (lua_arg args timeout_arg) of
              None \<Rightarrow> (s, Some (Raise ''number expected''))
            | Some timeout \<Rightarrow>
                if 0.001 < timeout then wait (ev_timer_start t (On_timeout cb) s)
                else if 0 \<le> timeout then (s, None)
                else wait s)
         else wait s)"

section \<open>Reading\<close>

datatype try_result = Again | Done "lua_val list" | Failed cstring

definition se_read_error :: "sds option \<Rightarrow> lua_val \<Rightarrow> lua_val list \<times> sds option" where
  "se_read_error pcache errmsg =
     (case pcache of
        Some cache \<Rightarrow>
          ([if sdslen cache \<noteq> 0 then LStr (map the (take (sdslen cache) (sh_buf cache))) else LNil, errmsg], None)
      | None \<Rightarrow> ([LNil, errmsg], None))"

definition se_read_bufsize :: "int \<Rightarrow> nat" where
  "se_read_bufsize sz = (if 0 < sz then nat sz else if sz < 0 then nat (- sz) else 4096)"

text \<open>A buffer of \<open>n\<close> free bytes.\<close>

definition se_read_cache :: "nat \<Rightarrow> sds" where
  "se_read_cache n = sdsclear (sdsnewlen None n)"

text \<open>
  \<open>Failed\<close> is an error raised by an assertion. The bytes read go to the free part of the cache,
  or to the stack buffer when there is none.
\<close>

definition se_try_read :: "int \<Rightarrow> sds option \<Rightarrow> se_os \<Rightarrow> try_result \<times> sds option \<times> se_os" where
  "se_try_read sz pcache w =
     (let (cache, bufsize) =
            (case pcache of
               Some c \<Rightarrow> (Some c, sdsavail c)
             | None \<Rightarrow>
                 let bufsize = se_read_bufsize sz
                 in if bufsize \<le> 4096 then (None, bufsize) else (Some (se_read_cache bufsize), bufsize))
      in case sys_call w of
           (SysErr e, w) \<Rightarrow>
             if e = EAGAIN then (Again, cache, w)
             else if e = EBADF then (Failed ''read error'', cache, w)
             else let (vs, cache) = se_read_error cache (LErr e) in (Done vs, cache, w)
         | (ret, w) \<Rightarrow>
             let data = take bufsize (case ret of SysData xs \<Rightarrow> xs | _ \<Rightarrow> []); nread = length data
             in if 0 < nread then
                  (if sz \<le> 0 \<or> nread = bufsize then
                     (case cache of
                        Some c \<Rightarrow> (Done [LStr (map the (take (sdslen c + nread) (sh_buf (sds_poke c data))))], None, w)
                      | None \<Rightarrow> (Done [LStr data], None, w))
                   else
                     let c = (case cache of Some c \<Rightarrow> c | None \<Rightarrow> se_read_cache bufsize)
                     in case sdsIncrLen (sds_poke c data) (int nread) of
                          None \<Rightarrow> (Failed ''assert'', Some c, w)
                        | Some c \<Rightarrow> (Again, Some c, w))
                else let (vs, cache) = se_read_error cache (LStr ''EOF'') in (Done vs, cache, w))"

text \<open>Storing back through the pointers the code passes.\<close>

definition set_read :: "addr \<Rightarrow> sds option \<Rightarrow> se_os \<Rightarrow> se_state \<Rightarrow> se_state" where
  "set_read t buf w s = upd_thr t (\<lambda>th. th\<lparr>t_buf := buf\<rparr>) (s\<lparr>s_os := w\<rparr>)"

definition se_on_read :: "addr \<Rightarrow> se_state \<Rightarrow> se_state option" where
  "se_on_read t s =
     (let th = the_thr s t
      in if length (t_stack th) \<noteq> 0 then None
         else case se_try_read (t_data th) (t_buf th) (s_os s) of
                (r, buf, w) \<Rightarrow>
                  (let s = set_read t buf w s
                   in case r of
                        Again \<Rightarrow> Some s
                      | Done vs \<Rightarrow> Some (wake_with t vs s)
                      | Failed m \<Rightarrow> None))"

definition se_on_read_timeout :: "addr \<Rightarrow> se_state \<Rightarrow> se_state option" where
  "se_on_read_timeout t s =
     (let th = the_thr s t
      in if length (t_stack th) \<noteq> 0 then None
         else let (vs, buf) = se_read_error (t_buf th) TIMEOUT
              in Some (wake_with t vs (upd_thr t (\<lambda>th. th\<lparr>t_buf := buf\<rparr>) s)))"

definition l_se_read :: "addr \<Rightarrow> lua_val list \<Rightarrow> se_state \<Rightarrow> se_state \<times> api_result" where
  "l_se_read t args s =
     (if length args < 1 \<or> 3 < length args then (s, Raise ''usage: read(fd, size, timeout)'')
      else case lua_integer (lua_arg args 1) of
             None \<Rightarrow> (s, Raise ''integer expected'')
           | Some fd \<Rightarrow>
               (let sz = (case lua_integer (lua_arg args 2) of Some n \<Rightarrow> n | None \<Rightarrow> 0)
                in if t_buf (the_thr s t) \<noteq> None then (s, Raise ''!se_current->buf'')
                   else case se_try_read sz (t_buf (the_thr s t)) (s_os s) of
                          (r, buf, w) \<Rightarrow>
                            (let s = set_read t buf w s
                             in case r of
                                  Done vs \<Rightarrow> (s, Return vs)
                                | Failed m \<Rightarrow> (s, Raise m)
                                | Again \<Rightarrow>
                                    (let s = upd_thr t (\<lambda>th. th\<lparr>t_data := sz\<rparr>) s
                                     in case SE_WAIT_TIMEOUT t args [] 3 On_read fd s of
                                          (s, Some res) \<Rightarrow> (s, res)
                                        | (s, None) \<Rightarrow>
                                            (let (vs, buf) = se_read_error (t_buf (the_thr s t)) TIMEOUT
                                             in (upd_thr t (\<lambda>th. th\<lparr>t_buf := buf\<rparr>) s, Return vs))))))"

section \<open>Writing\<close>

definition se_write_error :: "nat \<Rightarrow> lua_val \<Rightarrow> lua_val list" where
  "se_write_error nwrite errmsg = [errmsg, LInt (int nwrite)]"

text \<open>The result, the new \<open>*pnwrite\<close> and the bytes the kernel took.\<close>

definition se_try_write :: "char list \<Rightarrow> nat \<Rightarrow> se_os \<Rightarrow> try_result \<times> nat \<times> char list \<times> se_os" where
  "se_try_write data pnwrite w =
     (let buf = drop pnwrite data; bufsize = length data - pnwrite
      in case sys_num w of
           (Inl e, w) \<Rightarrow>
             if e = EAGAIN then (Again, pnwrite, [], w)
             else if e = EBADF then (Failed ''write error'', pnwrite, [], w)
             else (Done (se_write_error pnwrite (LErr e)), pnwrite, [], w)
         | (Inr n, w) \<Rightarrow>
             (let nwrite = min n bufsize
              in if nwrite = bufsize then (Done [], pnwrite, take nwrite buf, w)
                 else if 0 < nwrite then (Again, pnwrite + nwrite, take nwrite buf, w)
                 else (Again, pnwrite, [], w)))"

definition set_write :: "addr \<Rightarrow> nat \<Rightarrow> int \<Rightarrow> char list \<Rightarrow> se_os \<Rightarrow> se_state \<Rightarrow> se_state" where
  "set_write t n fd bytes w s =
     upd_thr t (\<lambda>th. th\<lparr>t_nwrite := n\<rparr>) (s\<lparr>s_os := w, s_wire := s_wire s @ [(fd, bytes)]\<rparr>)"

definition se_on_write :: "addr \<Rightarrow> se_state \<Rightarrow> se_state option" where
  "se_on_write t s =
     (let th = the_thr s t
      in if length (t_stack th) \<noteq> 1 then None
         else case lua_string (lua_arg (t_stack th) 1) of
                None \<Rightarrow> None
              | Some data \<Rightarrow>
                  (case se_try_write data (t_nwrite th) (s_os s) of
                     (r, n, bytes, w) \<Rightarrow>
                       (let s = set_write t n (t_fd th) bytes w s
                        in case r of
                             Again \<Rightarrow> Some s
                           | Done vs \<Rightarrow> Some (wake_with t vs s)
                           | Failed m \<Rightarrow> None)))"

definition se_on_write_timeout :: "addr \<Rightarrow> se_state \<Rightarrow> se_state option" where
  "se_on_write_timeout t s =
     (let th = the_thr s t
      in if length (t_stack th) \<noteq> 1 then None
         else Some (wake_with t (se_write_error (t_nwrite th) TIMEOUT) s))"

definition l_se_write :: "addr \<Rightarrow> lua_val list \<Rightarrow> se_state \<Rightarrow> se_state \<times> api_result" where
  "l_se_write t args s =
     (if length args < 2 \<or> 3 < length args then (s, Raise ''usage: write(fd, data, timeout)'')
      else case (lua_integer (lua_arg args 1), lua_string (lua_arg args 2)) of
             (Some fd, Some data) \<Rightarrow>
               (if length data = 0 then (s, Return [])
                else
                  let s = upd_thr t (\<lambda>th. th\<lparr>t_nwrite := 0\<rparr>) s
                  in case se_try_write data 0 (s_os s) of
                       (r, n, bytes, w) \<Rightarrow>
                         (let s = set_write t n fd bytes w s
                          in case r of
                               Done vs \<Rightarrow> (s, Return vs)
                             | Failed m \<Rightarrow> (s, Raise m)
                             | Again \<Rightarrow>
                                 (case SE_WAIT_TIMEOUT t args [LStr data] 3 On_write fd s of
                                    (s, Some res) \<Rightarrow> (s, res)
                                  | (s, None) \<Rightarrow> (s, Return (se_write_error (t_nwrite (the_thr s t)) TIMEOUT)))))
           | _ \<Rightarrow> (s, Raise ''bad argument''))"

section \<open>Connecting and accepting\<close>

definition se_connect_error :: "lua_val \<Rightarrow> lua_val list" where
  "se_connect_error errmsg = [LNil, errmsg]"

definition se_on_connect :: "addr \<Rightarrow> se_state \<Rightarrow> se_state option" where
  "se_on_connect t s =
     (let th = the_thr s t
      in if length (t_stack th) \<noteq> 0 then None
         else case se_socket_error (nat (t_fd th)) (s_os s) of
                (err, w) \<Rightarrow>
                  (let s = s\<lparr>s_os := w\<rparr>
                   in if err \<noteq> 0
                      then Some (upd_os (sys_close (nat (t_fd th))) (wake_with t (se_connect_error (LErr err)) s))
                      else Some (wake_with t [LInt (t_fd th)] s)))"

definition se_on_connect_timeout :: "addr \<Rightarrow> se_state \<Rightarrow> se_state option" where
  "se_on_connect_timeout t s =
     (let th = the_thr s t
      in if length (t_stack th) \<noteq> 0 then None
         else Some (upd_os (sys_close (nat (t_fd th))) (wake_with t (se_connect_error TIMEOUT) s)))"

definition l_se_connect :: "addr \<Rightarrow> lua_val list \<Rightarrow> se_state \<Rightarrow> se_state \<times> api_result" where
  "l_se_connect t args s =
     (if length args < 1 \<or> 2 < length args then (s, Raise ''usage: connect(addr, timeout)'')
      else case lua_string (lua_arg args 1) of
             None \<Rightarrow> (s, Raise ''string expected'')
           | Some addr \<Rightarrow>
               (case se_socket_connect (cstr addr) (s_os s) of
                  ((err, fd), w) \<Rightarrow>
                    (let s = s\<lparr>s_os := w\<rparr>
                     in case (err = 0, fd) of
                          (True, Some fd) \<Rightarrow> (s, Return [LInt (int fd)])
                        | (True, None) \<Rightarrow> (s, Return [LInt (- 1)])
                        | (False, None) \<Rightarrow> (s, Return (se_connect_error (LErr err)))
                        | (False, Some fd) \<Rightarrow>
                            (case SE_WAIT_TIMEOUT t args [] 2 On_connect (int fd) s of
                               (s, Some res) \<Rightarrow> (s, res)
                             | (s, None) \<Rightarrow>
                                 (upd_os (sys_close fd) s, Return (se_connect_error TIMEOUT))))))"

definition l_se_listen :: "addr \<Rightarrow> lua_val list \<Rightarrow> se_state \<Rightarrow> se_state \<times> api_result" where
  "l_se_listen t args s =
     (if length args \<noteq> 1 then (s, Raise ''usage: listen(addr)'')
      else case lua_string (lua_arg args 1) of
             None \<Rightarrow> (s, Raise ''string expected'')
           | Some addr \<Rightarrow>
               (case se_socket_listen (cstr addr) (s_os s) of
                  ((err, fd), w) \<Rightarrow>
                    (s\<lparr>s_os := w\<rparr>,
                     Return (if err \<noteq> 0 then [LNil, LErr err]
                             else [LInt (case fd of Some n \<Rightarrow> int n | None \<Rightarrow> - 1)]))))"

definition se_accept_error :: "lua_val \<Rightarrow> lua_val list" where
  "se_accept_error errmsg = [LNil, errmsg]"

definition se_try_accept :: "int \<Rightarrow> se_os \<Rightarrow> try_result \<times> se_os" where
  "se_try_accept fd w =
     (case se_socket_accept (nat fd) w of
        (Inl err, w) \<Rightarrow>
          (if err = EAGAIN then Again
           else if err = EBADF then Failed ''accept error''
           else Done (se_accept_error (LErr err)), w)
      | (Inr newfd, w) \<Rightarrow> (Done [LInt (int newfd)], w))"

definition se_on_accept :: "addr \<Rightarrow> se_state \<Rightarrow> se_state option" where
  "se_on_accept t s =
     (let th = the_thr s t
      in if length (t_stack th) \<noteq> 0 then None
         else case se_try_accept (t_fd th) (s_os s) of
                (r, w) \<Rightarrow>
                  (let s = s\<lparr>s_os := w\<rparr>
                   in case r of Again \<Rightarrow> Some s | Done vs \<Rightarrow> Some (wake_with t vs s) | Failed m \<Rightarrow> None))"

definition se_on_accept_timeout :: "addr \<Rightarrow> se_state \<Rightarrow> se_state option" where
  "se_on_accept_timeout t s =
     (if length (t_stack (the_thr s t)) \<noteq> 0 then None
      else Some (wake_with t (se_accept_error TIMEOUT) s))"

definition l_se_accept :: "addr \<Rightarrow> lua_val list \<Rightarrow> se_state \<Rightarrow> se_state \<times> api_result" where
  "l_se_accept t args s =
     (if length args < 1 \<or> 2 < length args then (s, Raise ''usage: accept(fd, timeout)'')
      else case lua_integer (lua_arg args 1) of
             None \<Rightarrow> (s, Raise ''integer expected'')
           | Some fd \<Rightarrow>
               (case se_try_accept fd (s_os s) of
                  (r, w) \<Rightarrow>
                    (let s = s\<lparr>s_os := w\<rparr>
                     in case r of
                          Done vs \<Rightarrow> (s, Return vs)
                        | Failed m \<Rightarrow> (s, Raise m)
                        | Again \<Rightarrow>
                            (case SE_WAIT_TIMEOUT t args [] 2 On_accept fd s of
                               (s, Some res) \<Rightarrow> (s, res)
                             | (s, None) \<Rightarrow> (s, Return (se_accept_error TIMEOUT))))))"

section \<open>The other functions\<close>

definition l_se_go :: "addr \<Rightarrow> lua_val list \<Rightarrow> se_state \<Rightarrow> se_state \<times> api_result" where
  "l_se_go t args s =
     (case se_thread_new args s of None \<Rightarrow> (s, Raise ''function expected'') | Some s \<Rightarrow> (s, Return []))"

definition l_se_time :: "addr \<Rightarrow> lua_val list \<Rightarrow> se_state \<Rightarrow> se_state \<times> api_result" where
  "l_se_time t args s = (s, Return [LNum (s_now s)])"

definition se_on_sleep :: "addr \<Rightarrow> se_state \<Rightarrow> se_state option" where
  "se_on_sleep t s =
     (let th = the_thr s t
      in if length (t_stack th) \<noteq> 0 then None
         else if t_timer th \<noteq> None then None
         else Some (se_thread_wakeup t 0 s))"

definition l_se_sleep :: "addr \<Rightarrow> lua_val list \<Rightarrow> se_state \<Rightarrow> se_state \<times> api_result" where
  "l_se_sleep t args s =
     (if length args \<noteq> 1 then (s, Raise ''usage: sleep(second)'')
      else case lua_number (lua_arg args 1) of
             None \<Rightarrow> (s, Raise ''number expected'')
           | Some timeout \<Rightarrow>
               if \<not> 0 < timeout then (s, Raise ''bad timeout'')
               else (SE_WAIT_timer t On_sleep s, Wait []))"

definition l_se_close :: "addr \<Rightarrow> lua_val list \<Rightarrow> se_state \<Rightarrow> se_state \<times> api_result" where
  "l_se_close t args s =
     (if length args \<noteq> 1 then (s, Raise ''usage: close(fd)'')
      else case lua_integer (lua_arg args 1) of
             None \<Rightarrow> (s, Raise ''integer expected'')
           | Some fd \<Rightarrow>
               (case sys_num (s_os s) of
                  (Inl e, w) \<Rightarrow>
                    (s\<lparr>s_os := w\<rparr>, if e = EBADF then Raise ''close error'' else Return [LErr e])
                | (Inr _, w) \<Rightarrow> (s\<lparr>s_os := sys_close (nat fd) w\<rparr>, Return [])))"

definition l_se_shutdown :: "addr \<Rightarrow> lua_val list \<Rightarrow> se_state \<Rightarrow> se_state \<times> api_result" where
  "l_se_shutdown t args s =
     (if length args \<noteq> 2 then (s, Raise ''usage: shutdown(fd, how)'')
      else case (lua_integer (lua_arg args 1), lua_integer (lua_arg args 2)) of
             (Some fd, Some how) \<Rightarrow>
               (case se_socket_shutdown (nat fd) how (s_os s) of
                  (err, w) \<Rightarrow>
                    (s\<lparr>s_os := w\<rparr>,
                     if err \<noteq> 0 then (if err = EBADF then Raise ''shutdown error'' else Return [LErr err])
                     else Return []))
           | _ \<Rightarrow> (s, Raise ''integer expected''))"

text \<open>\<open>name\<close> is what the system call fills in for the descriptor, \<open>ntop\<close> \<^verbatim>\<open>inet_ntop\<close>.\<close>

definition se_getsockaddr ::
  "(sockname \<Rightarrow> cstring option) \<Rightarrow> (int \<Rightarrow> sockname option) \<Rightarrow> lua_val list \<Rightarrow> se_state \<Rightarrow> se_state \<times> api_result" where
  "se_getsockaddr ntop name args s =
     (if length args \<noteq> 1 then (s, Raise ''usage: getsockaddr(fd)'')
      else case lua_integer (lua_arg args 1) of
             None \<Rightarrow> (s, Raise ''integer expected'')
           | Some fd \<Rightarrow>
               (case se_socket_addr ntop (name fd) of
                  (_, ip, port) \<Rightarrow> (s, Return [LTab [(''ip'', LStr ip), (''port'', LInt (uint port))]])))"

text \<open>
  \<open>l_se_run\<close> from a fresh runtime: the main thread is current, one thread is created, and the
  schedule's prepare watcher is started and then not counted.
\<close>

definition l_se_run :: "lua_val list \<Rightarrow> se_state \<Rightarrow> se_state option" where
  "l_se_run args s =
     map_option (\<lambda>s. ev_unref (ev_ref s)) (se_thread_new args (s\<lparr>s_current := None\<rparr>))"

section \<open>Runs\<close>

datatype se_api = Api_go | Api_time | Api_sleep | Api_close | Api_read | Api_write | Api_connect
  | Api_listen | Api_accept | Api_shutdown

definition se_api_fun :: "se_api \<Rightarrow> addr \<Rightarrow> lua_val list \<Rightarrow> se_state \<Rightarrow> se_state \<times> api_result" where
  "se_api_fun f = (case f of
     Api_go \<Rightarrow> l_se_go | Api_time \<Rightarrow> l_se_time | Api_sleep \<Rightarrow> l_se_sleep | Api_close \<Rightarrow> l_se_close
   | Api_read \<Rightarrow> l_se_read | Api_write \<Rightarrow> l_se_write | Api_connect \<Rightarrow> l_se_connect
   | Api_listen \<Rightarrow> l_se_listen | Api_accept \<Rightarrow> l_se_accept | Api_shutdown \<Rightarrow> l_se_shutdown)"

text \<open>
  \<open>EvPick\<close>: the scheduler resumes the first thread. \<open>EvCall\<close>: the running coroutine calls a
  function of the library. \<open>EvYield\<close>, \<open>EvReturn\<close>: it yields by itself, or ends. \<open>EvIo\<close>,
  \<open>EvTimer\<close>: libev runs the callback of an active watcher of a thread; an expired timer is
  stopped first.
\<close>

datatype se_event = EvPick | EvCall se_api "lua_val list" | EvYield "lua_val list" | EvReturn
  | EvIo addr | EvTimer addr

definition se_enabled :: "se_event \<Rightarrow> se_state \<Rightarrow> bool" where
  "se_enabled e s = (case e of
     EvPick \<Rightarrow> s_current s = None \<and> \<not> list_empty se_running_threads (s_heap s)
   | EvCall _ _ \<Rightarrow> s_current s \<noteq> None
   | EvYield _ \<Rightarrow> s_current s \<noteq> None
   | EvReturn \<Rightarrow> s_current s \<noteq> None
   | EvIo t \<Rightarrow> s_current s = None \<and> s_thr s t \<noteq> None \<and> t_io (the_thr s t) \<noteq> None
   | EvTimer t \<Rightarrow> s_current s = None \<and> s_thr s t \<noteq> None \<and> t_timer (the_thr s t) \<noteq> None)"

definition se_io_callback :: "addr \<Rightarrow> se_state \<Rightarrow> se_state option" where
  "se_io_callback t s =
     (case the (t_io (the_thr s t)) of
        On_read \<Rightarrow> se_on_read t s | On_write \<Rightarrow> se_on_write t s
      | On_connect \<Rightarrow> se_on_connect t s | On_accept \<Rightarrow> se_on_accept t s)"

definition se_timer_callback :: "addr \<Rightarrow> se_state \<Rightarrow> se_state option" where
  "se_timer_callback t s =
     (case the (t_timer (the_thr s t)) of
        On_sleep \<Rightarrow> se_on_sleep t (ev_timer_stop t s)
      | On_timeout On_read \<Rightarrow> se_on_read_timeout t (ev_timer_stop t s)
      | On_timeout On_write \<Rightarrow> se_on_write_timeout t (ev_timer_stop t s)
      | On_timeout On_connect \<Rightarrow> se_on_connect_timeout t (ev_timer_stop t s)
      | On_timeout On_accept \<Rightarrow> se_on_accept_timeout t (ev_timer_stop t s))"

definition se_exec :: "se_event \<Rightarrow> se_state \<Rightarrow> se_state option" where
  "se_exec e s =
     (let cur = the (s_current s)
      in case e of
           EvPick \<Rightarrow> se_on_schedule s
         | EvCall f args \<Rightarrow>
             (case se_api_fun f cur args s of
                (s, Wait vs) \<Rightarrow> Some (se_resume_yield cur vs (s\<lparr>s_last := Some (Wait vs)\<rparr>))
              | (s, r) \<Rightarrow> Some (s\<lparr>s_last := Some r\<rparr>))
         | EvYield vs \<Rightarrow> Some (se_resume_yield cur vs s)
         | EvReturn \<Rightarrow> se_resume_finish cur s
         | EvIo t \<Rightarrow> se_io_callback t s
         | EvTimer t \<Rightarrow> se_timer_callback t s)"

inductive se_step :: "se_state \<Rightarrow> se_state \<Rightarrow> bool" where
  "\<lbrakk>se_enabled e s; se_exec e s = Some s'\<rbrakk> \<Longrightarrow> se_step s s'"

inductive_cases se_stepE: "se_step s s'"

end
