(* ===== verification/Se_Inv.thy ===== *)
theory Se_Inv
  imports Se_Core
begin

text \<open>
  What keeps the coroutine runtime consistent: every thread is either in the run queue or
  suspended with an active watcher, the count that keeps libev's loop running is exact, and
  the data a callback finds (the coroutine's stack, a read cache, a write offset) is what its
  assertions and buffer arithmetic expect. \<open>se_ok\<close> is proved to be kept by every library
  call and every callback, and the results of reads and writes are described for any
  division of the data into chunks.
\<close>

section \<open>The invariant\<close>

definition watchers :: "se_thread \<Rightarrow> int" where
  "watchers th = (if t_timer th = None then 0 else 1) + (if t_io th = None then 0 else 1)"

definition waiting :: "se_thread \<Rightarrow> bool" where
  "waiting th \<longleftrightarrow> t_timer th \<noteq> None \<or> t_io th \<noteq> None"

text \<open>A read in progress: what the cache holds and how much room it has left.\<close>

definition read_ok :: "int \<Rightarrow> sds option \<Rightarrow> bool" where
  "read_ok sz buf \<longleftrightarrow>
     (\<forall>c. buf = Some c \<longrightarrow>
        (\<exists>xs. sds_rep c xs \<and> length xs + sdsavail c = se_read_bufsize sz \<and> 0 < sdsavail c \<and> (sz \<le> 0 \<longrightarrow> xs = [])))"

definition thread_ok :: "se_thread \<Rightarrow> bool" where
  "thread_ok th \<longleftrightarrow>
     (case t_io th of
        None \<Rightarrow> t_timer th = None \<or> (t_timer th = Some On_sleep \<and> t_stack th = [])
      | Some cb \<Rightarrow>
          (t_timer th = None \<or> t_timer th = Some (On_timeout cb)) \<and>
          (case cb of
             On_read \<Rightarrow> t_stack th = [] \<and> read_ok (t_data th) (t_buf th)
           | On_write \<Rightarrow> (\<exists>data. t_stack th = [LStr data] \<and> t_nwrite th < length data)
           | On_connect \<Rightarrow> t_stack th = []
           | On_accept \<Rightarrow> t_stack th = []))"

text \<open>\<open>lua_resume\<close> does not find a dead coroutine.\<close>

definition resumable :: "se_thread \<Rightarrow> bool" where
  "resumable th \<longleftrightarrow> t_yielded th \<or> t_stack th \<noteq> []"

definition se_ok :: "addr list \<Rightarrow> se_state \<Rightarrow> bool" where
  "se_ok xs s \<longleftrightarrow>
     dll (s_heap s) se_running_threads xs \<and> finite (dom (s_thr s)) \<and> set xs \<subseteq> dom (s_thr s) \<and>
     (\<forall>t th. s_thr s t = Some th \<longrightarrow>
        thread_ok th \<and> t < s_fresh s \<and> se_running_threads < t \<and> (t \<in> set xs \<longleftrightarrow> \<not> waiting th) \<and>
        (s_current s = Some t \<or> resumable th)) \<and>
     (\<forall>t. s_current s = Some t \<longrightarrow> t \<in> set xs) \<and>
     s_evcount s = (\<Sum>t \<in> dom (s_thr s). 1 + watchers (the (s_thr s t))) \<and>
     se_running_threads < s_fresh s"

definition se_inv :: "se_state \<Rightarrow> bool" where
  "se_inv s \<longleftrightarrow> (\<exists>xs. se_ok xs s)"

lemma resumable_simps [simp]:
  "resumable (th\<lparr>t_nresult := n\<rparr>) = resumable th" "resumable (th\<lparr>t_timer := tm\<rparr>) = resumable th"
  "resumable (th\<lparr>t_io := io\<rparr>) = resumable th" "resumable (th\<lparr>t_fd := fd\<rparr>) = resumable th"
  "resumable (th\<lparr>t_data := d\<rparr>) = resumable th" "resumable (th\<lparr>t_buf := b\<rparr>) = resumable th"
  "resumable (th\<lparr>t_nwrite := n\<rparr>) = resumable th" "resumable (th\<lparr>t_yielded := True\<rparr>)"
  "resumable (th\<lparr>t_stack := vs\<rparr>) = (t_yielded th \<or> vs \<noteq> [])"
  by (simp_all add: resumable_def)

lemma watchers_not_waiting: "\<not> waiting th \<Longrightarrow> watchers th = 0"
  by (simp add: waiting_def watchers_def)

lemma sum_dom_upd:
  assumes "finite (dom m)" "m t = Some th"
  shows "(\<Sum>x \<in> dom (m(t \<mapsto> th')). 1 + f (the ((m(t \<mapsto> th')) x))) =
    (\<Sum>x \<in> dom m. 1 + f (the (m x))) - f th + (f th' :: int)"
proof -
  have d: "dom (m(t \<mapsto> th')) = insert t (dom m - {t})" "dom m = insert t (dom m - {t})"
    using assms(2) by auto
  have "(\<Sum>x \<in> dom m - {t}. 1 + f (the ((m(t \<mapsto> th')) x))) = (\<Sum>x \<in> dom m - {t}. 1 + f (the (m x)))"
    by (rule sum.cong) auto
  then show ?thesis
    using assms by (subst d(1), subst (2) d(2)) (simp add: sum.insert_remove)
qed

lemma se_ok_upd:
  assumes "se_ok xs s" "s_thr s t = Some th"
    and "s_thr s' = (s_thr s)(t \<mapsto> th')" "s_fresh s' = s_fresh s"
    and "dll (s_heap s') se_running_threads xs'"
    and "set xs' = (if waiting th' then set xs - {t} else insert t (set xs))" "thread_ok th'"
    and "\<And>c. s_current s' = Some c \<Longrightarrow> c \<in> set xs'"
    and "s_evcount s' = s_evcount s - watchers th + watchers th'"
    and "s_current s' = Some t \<or> resumable th'"
    and "s_current s = None \<or> s_current s = Some t \<or> s_current s' = s_current s"
  shows "se_ok xs' s'"
proof -
  have fin: "finite (dom (s_thr s))" using assms(1) by (simp add: se_ok_def)
  have "(\<Sum>x \<in> dom (s_thr s'). 1 + watchers (the (s_thr s' x))) = s_evcount s'"
    using sum_dom_upd [OF fin assms(2), of watchers th'] assms(1,3,9) by (simp add: se_ok_def)
  moreover have "set xs' \<subseteq> dom (s_thr s')"
    using assms(1,3,6) by (auto simp: se_ok_def split: if_splits)
  moreover have "finite (dom (s_thr s'))" using fin assms(3) by simp
  moreover have "s_current s' = Some x \<or> resumable u" if "s_thr s' x = Some u" for x u
  proof (cases "x = t")
    case False
    then have "s_current s = Some x \<or> resumable u"
      using that assms(1,3) by (simp add: se_ok_def)
    then show ?thesis using False assms(11) by auto
  qed (use that assms(3,10) in auto)
  moreover have "thread_ok u \<and> x < s_fresh s' \<and> se_running_threads < x \<and> (x \<in> set xs' \<longleftrightarrow> \<not> waiting u)"
    if "s_thr s' x = Some u" for x u
    using that assms(1,2,3,4,6,7) unfolding se_ok_def by (cases "x = t") (auto split: if_splits)
  ultimately show ?thesis
    using assms(1,4,5,8) unfolding se_ok_def by auto
qed

lemma se_ok_cur: "se_ok xs s \<Longrightarrow> s_current s = Some c \<Longrightarrow> c \<in> set xs"
  by (simp add: se_ok_def)

lemma se_ok_resumable:
  "\<lbrakk>se_ok xs s; s_thr s t = Some th; s_current s \<noteq> Some t\<rbrakk> \<Longrightarrow> t_yielded th \<or> t_stack th \<noteq> []"
  by (auto simp: se_ok_def resumable_def)

section \<open>The effect of each primitive on one thread\<close>

lemma upd_thr_eq:
  "s_thr s t = Some th \<Longrightarrow> upd_thr t f s = s\<lparr>s_thr := (s_thr s)(t \<mapsto> f th)\<rparr>"
  by (simp add: upd_thr_def)

lemma the_thr_eq [simp]: "s_thr s t = Some th \<Longrightarrow> the_thr s t = th"
  by (simp add: the_thr_def)

lemma wake_with_eq:
  assumes "s_thr s t = Some th"
  shows "wake_with t vs s = s\<lparr>s_heap := list_add_tail t se_running_threads (s_heap s),
    s_thr := (s_thr s)(t \<mapsto> th\<lparr>t_stack := t_stack th @ vs, t_timer := None, t_io := None, t_nresult := length vs\<rparr>),
    s_evcount := s_evcount s - watchers th\<rparr>"
  using assms
  by (cases th)
    (auto simp: wake_with_def se_thread_wakeup_io_def se_thread_wakeup_def lua_push_def ev_io_stop_def
      ev_timer_stop_def ev_unref_def upd_thr_eq watchers_def)

lemma se_ok_enqueue:
  assumes "se_ok xs s" "s_thr s t = Some th" "waiting th"
  shows "dll (list_add_tail t se_running_threads (s_heap s)) se_running_threads (xs @ [t])"
  using assms by (intro klist.enqueue_law) (auto simp: se_ok_def)

lemma thread_ok_idle: "\<not> waiting th \<Longrightarrow> thread_ok th"
  by (simp add: waiting_def thread_ok_def)

text \<open>A suspended thread that is woken joins the end of the run queue.\<close>

lemma se_ok_wake:
  assumes "se_ok xs s" "s_thr s t = Some th" "waiting th"
    and "s_thr s' = (s_thr s)(t \<mapsto> th')" "\<not> waiting th'"
    and "s_fresh s' = s_fresh s" "s_current s' = None" "s_evcount s' = s_evcount s - watchers th"
    and "s_heap s' = list_add_tail t se_running_threads (s_heap s)" "s_current s = None" "resumable th'"
  shows "se_ok (xs @ [t]) s'"
  using se_ok_enqueue [OF assms(1-3)] assms
  by (intro se_ok_upd [OF assms(1,2,4)]) (auto simp: thread_ok_idle watchers_not_waiting)

text \<open>One that is not is left where it is.\<close>

lemma se_ok_stay:
  assumes "se_ok xs s" "s_thr s t = Some th"
    and "s_thr s' = (s_thr s)(t \<mapsto> th')" "waiting th' = waiting th" "thread_ok th'" "watchers th' = watchers th"
    and "s_fresh s' = s_fresh s" "\<And>c. s_current s' = Some c \<Longrightarrow> c \<in> set xs" "s_evcount s' = s_evcount s"
    and "s_heap s' = s_heap s" "s_current s' = Some t \<or> resumable th'"
    and "s_current s = None \<or> s_current s = Some t \<or> s_current s' = s_current s"
  shows "se_ok xs s'"
proof -
  have "set xs = (if waiting th' then set xs - {t} else insert t (set xs))"
    using assms(1,2,4) by (auto simp: se_ok_def)
  then show ?thesis
    using assms by (intro se_ok_upd [OF assms(1-3)]) (auto simp: se_ok_def)
qed

lemma read_ok_none [simp]: "read_ok sz None"
  by (simp add: read_ok_def)

lemma se_read_bufsize_pos [simp]: "0 < se_read_bufsize sz"
  by (simp add: se_read_bufsize_def)

lemma se_read_cache_rep: "sds_rep (se_read_cache n) [] \<and> sdsavail (se_read_cache n) = n"
  using sds_rep_clear [OF sds_rep_newlen_zero [of n]]
  by (auto simp: se_read_cache_def sdsnewlen_def sdsavail_def)

text \<open>
  What one attempt to read does: \<open>xs\<close> is what earlier attempts collected, \<open>n\<close> the room left.
\<close>

definition read_val :: "sds option \<Rightarrow> char list" where
  "read_val buf = (case buf of None \<Rightarrow> [] | Some c \<Rightarrow> sds_val c)"

definition chunk :: "char list \<Rightarrow> lua_val" where
  "chunk xs = (if xs = [] then LNil else LStr xs)"

definition sys_bytes :: "sysret \<Rightarrow> char list" where
  "sys_bytes ret = (case ret of SysData xs \<Rightarrow> xs | _ \<Rightarrow> [])"

definition read_attempt ::
  "int \<Rightarrow> char list \<Rightarrow> sysret \<Rightarrow> try_result \<Rightarrow> sds option \<Rightarrow> bool" where
  "read_attempt sz xs ret r buf' \<longleftrightarrow>
     (case ret of
        SysErr e \<Rightarrow>
          if e = EAGAIN then r = Again \<and> read_ok sz buf' \<and> read_val buf' = xs
          else if e = EBADF then r = Failed ''read error''
          else r = Done [chunk xs, LErr e] \<and> buf' = None
      | _ \<Rightarrow>
          let n = se_read_bufsize sz - length xs; data = take n (sys_bytes ret)
          in if data = [] then r = Done [chunk xs, LStr ''EOF''] \<and> buf' = None
             else if sz \<le> 0 \<or> length data = n then r = Done [LStr (xs @ data)] \<and> buf' = None
             else r = Again \<and> read_ok sz buf' \<and> read_val buf' = xs @ data)"

lemma sds_val_rep: "sds_rep c xs \<Longrightarrow> sds_val c = xs"
  by (simp add: sds_rep_iff)

lemma se_read_error_val:
  "\<forall>c. buf = Some c \<longrightarrow> sds_rep c xs \<Longrightarrow> (buf = None \<longrightarrow> xs = []) \<Longrightarrow>
   se_read_error buf err = ([chunk xs, err], None)"
  by (auto simp: se_read_error_def chunk_def sds_rep_len sds_val_rep sds_val_def [symmetric, unfolded sdslen_def [symmetric]]
      split: option.split)

lemma sds_poke_val:
  assumes "sds_rep c xs"
  shows "map the (take (sdslen c + length data) (sh_buf (sds_poke c data))) = xs @ data"
  using assms by (auto simp: sds_poke_def sds_rep_def sdslen_def mem_put_append mem_put_here)

lemma se_try_read_attempt:
  assumes "read_ok sz buf" "se_try_read sz buf w = (r, buf', w')"
  shows "read_attempt sz (read_val buf) (fst (sys_call w)) r buf' \<and> w' = snd (sys_call w)"
proof -
  define cache where "cache = (case buf of
      Some c \<Rightarrow> Some c
    | None \<Rightarrow> if se_read_bufsize sz \<le> 4096 then None else Some (se_read_cache (se_read_bufsize sz)))"
  define n where "n = (case buf of Some c \<Rightarrow> sdsavail c | None \<Rightarrow> se_read_bufsize sz)"
  define c0 where "c0 = (case cache of Some c \<Rightarrow> c | None \<Rightarrow> se_read_cache n)"
  have init: "(case buf of
      Some c \<Rightarrow> (Some c, sdsavail c)
    | None \<Rightarrow> let bufsize = se_read_bufsize sz
        in if bufsize \<le> 4096 then (None, bufsize) else (Some (se_read_cache bufsize), bufsize)) = (cache, n)"
    by (simp add: cache_def n_def Let_def split: option.split)
  define xs where "xs = read_val buf"
  have "sds_rep c0 xs \<and> sdsavail c0 = n \<and> (sz \<le> 0 \<longrightarrow> xs = []) \<and> 0 < n \<and> length xs + n = se_read_bufsize sz \<and>
    read_ok sz cache \<and> (\<forall>c. cache = Some c \<longrightarrow> c = c0) \<and> (cache = None \<longrightarrow> xs = [])"
  proof (cases buf)
    case None
    then have "xs = []" "n = se_read_bufsize sz" "c0 = se_read_cache n" "\<forall>c. cache = Some c \<longrightarrow> c = c0"
      by (auto simp: xs_def read_val_def n_def c0_def cache_def split: if_splits)
    then show ?thesis using se_read_cache_rep [of n] by (auto simp: read_ok_def)
  next
    case (Some c)
    with assms(1) obtain ys where "sds_rep c ys" "length ys + sdsavail c = se_read_bufsize sz" "0 < sdsavail c"
      "sz \<le> 0 \<longrightarrow> ys = []" by (auto simp: read_ok_def)
    moreover from this have "xs = ys" "n = sdsavail c" "cache = Some c" "c0 = c"
      using Some by (simp_all add: xs_def read_val_def n_def c0_def cache_def sds_val_rep)
    ultimately show ?thesis using assms(1) Some by simp
  qed
  then have c0: "sds_rep c0 xs" "n = se_read_bufsize sz - length xs" "sdsavail c0 = n" "sz \<le> 0 \<longrightarrow> xs = []"
    and n0: "0 < n" "length xs + n = se_read_bufsize sz" and cok: "read_ok sz cache"
    and cx: "\<forall>c. cache = Some c \<longrightarrow> c = c0" "cache = None \<longrightarrow> xs = []"
    by auto
  have cv: "read_val cache = xs"
    using cx c0(1) by (auto simp: read_val_def sds_val_rep split: option.split)
  have err: "se_read_error cache e = ([chunk xs, e], None)" for e
    using c0(1) cx by (intro se_read_error_val) auto
  obtain ret w1 where call: "sys_call w = (ret, w1)" by force
  show ?thesis
  proof (cases "\<exists>e. ret = SysErr e")
    case True
    then show ?thesis
      using assms(2) cok cv
      by (auto simp: se_try_read_def init call err read_attempt_def xs_def [symmetric] split: if_splits)
  next
    case False
    define data where "data = take n (sys_bytes ret)"
    have le: "length data \<le> sdsavail c0" by (simp add: data_def c0)
    obtain c' where c': "sdsIncrLen (sds_poke c0 data) (int (length data)) = Some c'"
      "sds_rep c' (xs @ data)" "sdsavail c' = sdsavail c0 - length data"
      using sds_rep_incr [OF c0(1) le] by blast
    have ok: "read_ok sz (Some c')" if "length data \<noteq> n" "0 < sz"
      using that c' c0 n0 le by (auto simp: read_ok_def)
    have val: "map the (take (sdslen c0 + length data) (sh_buf (sds_poke c0 data))) = xs @ data"
      using c0(1) by (rule sds_poke_val)
    have lhs: "se_try_read sz buf w =
      (if 0 < length data then
         if sz \<le> 0 \<or> length data = n then (Done [LStr (xs @ data)], None, w1) else (Again, Some c', w1)
       else (Done [chunk xs, LStr ''EOF''], None, w1))"
    proof -
      have b: "(case ret of SysData xs \<Rightarrow> xs | _ \<Rightarrow> []) = sys_bytes ret"
        by (simp add: sys_bytes_def)
      have "(case cache of Some c \<Rightarrow> c | None \<Rightarrow> se_read_cache n) = c0"
        by (simp add: c0_def)
      moreover have "(case cache of
          Some c \<Rightarrow> (Done [LStr (map the (take (sdslen c + length data) (sh_buf (sds_poke c data))))], None, w1)
        | None \<Rightarrow> (Done [LStr data], None, w1)) = (Done [LStr (xs @ data)], None :: sds option, w1)"
        using cx val by (auto split: option.split)
      ultimately show ?thesis
        using False c'(1) unfolding se_try_read_def init call unfolding Let_def prod.case err
        by (cases ret; cases cache) (simp_all add: Let_def sys_bytes_def data_def err)
    qed
    have rv: "read_val (Some c') = xs @ data"
      using c'(2) by (simp add: read_val_def sds_val_rep)
    have att: "read_attempt sz xs ret r buf' \<longleftrightarrow>
        (if data = [] then r = Done [chunk xs, LStr ''EOF''] \<and> buf' = None
         else if sz \<le> 0 \<or> length data = n then r = Done [LStr (xs @ data)] \<and> buf' = None
         else r = Again \<and> read_ok sz buf' \<and> read_val buf' = xs @ data)"
      using False by (cases ret) (simp_all add: read_attempt_def Let_def data_def c0(2))
    show ?thesis
      using assms(2) lhs rv ok unfolding call xs_def [symmetric]
      by (auto simp: att split: if_splits)
  qed
qed

lemmas se_try_read_ok = se_try_read_attempt [unfolded read_attempt_def]


section \<open>Calls of the library keep the invariant\<close>

lemma se_ok_irrelevant [simp]:
  "se_ok xs (s\<lparr>s_os := w\<rparr>) = se_ok xs s" "se_ok xs (s\<lparr>s_last := l\<rparr>) = se_ok xs s"
  "se_ok xs (s\<lparr>s_wire := ws\<rparr>) = se_ok xs s"
  by (simp_all add: se_ok_def)

text \<open>What a thread must have prepared before it suspends in a callback.\<close>

definition wait_ok :: "io_cb \<Rightarrow> lua_val list \<Rightarrow> se_thread \<Rightarrow> bool" where
  "wait_ok cb extra th \<longleftrightarrow>
     (case cb of
        On_read \<Rightarrow> extra = [] \<and> read_ok (t_data th) (t_buf th)
      | On_write \<Rightarrow> (\<exists>data. extra = [LStr data] \<and> t_nwrite th < length data)
      | On_connect \<Rightarrow> extra = []
      | On_accept \<Rightarrow> extra = [])"

text \<open>The state after a call, when its caller is the running thread.\<close>

definition api_ok :: "addr list \<Rightarrow> addr \<Rightarrow> se_state \<times> api_result \<Rightarrow> bool" where
  "api_ok xs t p \<longleftrightarrow>
     (case p of (s, Wait vs) \<Rightarrow> se_ok (remove1 t xs) (se_resume_yield t vs s) | (s, _) \<Rightarrow> se_ok xs s)"

lemma api_ok_simps [simp]:
  "api_ok xs t (s, Return vs) = se_ok xs s" "api_ok xs t (s, Raise m) = se_ok xs s"
  "api_ok xs t (s, Wait vs) = se_ok (remove1 t xs) (se_resume_yield t vs s)"
  by (simp_all add: api_ok_def)

lemma se_ok_suspend:
  assumes "se_ok xs s" "s_current s = Some t" "s_thr s t = Some th" "\<not> waiting th"
    and "s_thr s' = (s_thr s)(t \<mapsto> th')" "waiting th'" "thread_ok th'" "s_fresh s' = s_fresh s"
    and "s_heap s' = list_del t (s_heap s)" "s_current s' = None"
    and "s_evcount s' = s_evcount s + watchers th'" "resumable th'"
  shows "se_ok (remove1 t xs) s'"
proof -
  have "t \<in> set xs" "dll (s_heap s) se_running_threads xs"
    using assms(1,2) by (auto simp: se_ok_def)
  then have "dll (list_del t (s_heap s)) se_running_threads (remove1 t xs)"
    by (rule klist.dequeue_law [rotated])
  moreover have "distinct xs" using \<open>dll _ _ xs\<close> by (rule klist.queue_distinct)
  ultimately show ?thesis
    using assms by (intro se_ok_upd [OF assms(1,3,5)]) (auto simp: watchers_not_waiting)
qed

lemma SE_WAIT_TIMEOUT_ok:
  assumes "se_ok xs s" "s_current s = Some t" "s_thr s t = Some th" "\<not> waiting th" "wait_ok cb extra th"
    and "SE_WAIT_TIMEOUT t args extra k cb fd s = (s', res)"
  shows "(case res of Some r \<Rightarrow> api_ok xs t (s', r) | None \<Rightarrow> s' = s)"
proof -
  have run: "t_timer th = None" "t_io th = None" using assms(4) by (auto simp: waiting_def)
  define go where "go tm = (let s1 = (case tm of None \<Rightarrow> s | Some b \<Rightarrow> ev_timer_start t b s);
      s2 = ev_io_start t cb fd s1 in s2\<lparr>s_heap := list_del t (s_heap s2)\<rparr>)" for tm
  have go: "api_ok xs t (go tm, Wait extra)" if "tm = None \<or> tm = Some (On_timeout cb)" for tm
  proof -
    let ?th = "th\<lparr>t_timer := tm, t_io := Some cb, t_fd := fd, t_nresult := 0, t_stack := extra, t_yielded := True\<rparr>"
    have "se_ok (remove1 t xs) (se_resume_yield t extra (go tm))"
    proof (rule se_ok_suspend [OF assms(1-4), where th' = ?th])
      show "thread_ok ?th"
        using assms(5) that by (cases cb) (auto simp: thread_ok_def wait_ok_def)
    qed (use that assms(3) run in \<open>auto simp: go_def Let_def se_resume_yield_def ev_io_start_def ev_timer_start_def
        ev_ref_def upd_thr_def waiting_def watchers_def split: option.splits\<close>)
    then show ?thesis by simp
  qed
  have "SE_WAIT_TIMEOUT t args extra k cb fd s =
    (if k \<le> length args then
       (case lua_number (lua_arg args k) of
          None \<Rightarrow> (s, Some (Raise ''number expected''))
        | Some timeout \<Rightarrow> if 0.001 < timeout then (go (Some (On_timeout cb)), Some (Wait extra))
            else if 0 \<le> timeout then (s, None) else (go None, Some (Wait extra)))
     else (go None, Some (Wait extra)))"
    by (simp add: SE_WAIT_TIMEOUT_def go_def Let_def split: option.split)
  then show ?thesis
    using assms(1,6) go [of None] go [of "Some (On_timeout cb)"]
    by (auto split: if_splits option.splits simp del: api_ok_simps(3))
qed

text \<open>Changing the private fields of the running thread.\<close>

lemma se_ok_private:
  assumes "se_ok xs s" "s_thr s t = Some th" "\<not> waiting th"
    and "t_timer (f th) = t_timer th" "t_io (f th) = t_io th" "resumable (f th) = resumable th"
  shows "se_ok xs (upd_thr t f s)"
proof -
  have "\<not> waiting (f th)" "watchers (f th) = watchers th"
    using assms(3-5) by (auto simp: waiting_def watchers_def)
  then show ?thesis
    using assms(1) thread_ok_idle se_ok_resumable [OF assms(1,2)] assms(6) [unfolded resumable_def]
    by (intro se_ok_stay [OF assms(1,2), where th' = "f th"])
      (auto simp: upd_thr_eq [OF assms(2)] assms(3) resumable_def se_ok_cur)
qed


lemma se_ok_current:
  assumes "se_ok xs s" "s_current s = Some t"
  obtains th where "s_thr s t = Some th" "\<not> waiting th" "t \<in> set xs"
  using assms by (fastforce simp: se_ok_def)

lemma watchers_private [simp]:
  "watchers (th\<lparr>t_buf := b\<rparr>) = watchers th" "watchers (th\<lparr>t_nwrite := n\<rparr>) = watchers th"
  "watchers (th\<lparr>t_stack := vs\<rparr>) = watchers th" "watchers (th\<lparr>t_nresult := m\<rparr>) = watchers th"
  "watchers (th\<lparr>t_yielded := y\<rparr>) = watchers th"
  by (simp_all add: watchers_def)

lemma upd_thr_simps [simp]:
  "s_thr (upd_thr t f s) t = map_option f (s_thr s t)" "s_current (upd_thr t f s) = s_current s"
  "s_fresh (upd_thr t f s) = s_fresh s" "s_heap (upd_thr t f s) = s_heap s"
  "s_evcount (upd_thr t f s) = s_evcount s" "s_os (upd_thr t f s) = s_os s"
  by (simp_all add: upd_thr_def)

lemma se_ok_set_read:
  assumes "se_ok xs s" "s_thr s t = Some th" "\<not> waiting th"
  shows "se_ok xs (set_read t buf w s) \<and> s_thr (set_read t buf w s) t = Some (th\<lparr>t_buf := buf\<rparr>)"
  using se_ok_private [of xs "s\<lparr>s_os := w\<rparr>" t th "\<lambda>th. th\<lparr>t_buf := buf\<rparr>"] assms
  by (simp add: set_read_def)

lemma se_ok_set_write:
  assumes "se_ok xs s" "s_thr s t = Some th" "\<not> waiting th"
  shows "se_ok xs (set_write t n fd bs w s) \<and> s_thr (set_write t n fd bs w s) t = Some (th\<lparr>t_nwrite := n\<rparr>)"
  using se_ok_private [of xs "s\<lparr>s_os := w, s_wire := s_wire s @ [(fd, bs)]\<rparr>" t th "\<lambda>th. th\<lparr>t_nwrite := n\<rparr>"] assms
  by (simp add: set_write_def)

lemma set_current [simp]:
  "s_current (set_read t buf w s) = s_current s" "s_current (set_write t n fd bs w s) = s_current s"
  by (simp_all add: set_read_def set_write_def)

lemma waiting_private [simp]:
  "waiting (th\<lparr>t_buf := b\<rparr>) = waiting th" "waiting (th\<lparr>t_nwrite := n\<rparr>) = waiting th"
  "waiting (th\<lparr>t_data := d\<rparr>) = waiting th" "waiting (th\<lparr>t_stack := vs\<rparr>) = waiting th"
  "waiting (th\<lparr>t_nresult := n\<rparr>) = waiting th" "waiting (th\<lparr>t_yielded := y\<rparr>) = waiting th"
  by (simp_all add: waiting_def)

lemma l_se_read_ok:
  assumes "se_ok xs s" "s_current s = Some t"
  shows "api_ok xs t (l_se_read t args s)"
proof -
  from assms obtain th where th: "s_thr s t = Some th" "\<not> waiting th" by (rule se_ok_current)
  show ?thesis
  proof (cases "length args < 1 \<or> 3 < length args \<or> lua_integer (lua_arg args 1) = None \<or> t_buf th \<noteq> None")
    case True
    then show ?thesis
      using assms th by (auto simp: l_se_read_def Let_def split: option.split)
  next
    case False
    then obtain fd where fd: "lua_integer (lua_arg args 1) = Some fd" by auto
    define sz where "sz = (case lua_integer (lua_arg args 2) of Some n \<Rightarrow> n | None \<Rightarrow> 0)"
    obtain r buf w where tr: "se_try_read sz None (s_os s) = (r, buf, w)" by (metis prod_cases3)
    define s1 where "s1 = set_read t buf w s"
    have s1: "se_ok xs s1" "s_thr s1 t = Some (th\<lparr>t_buf := buf\<rparr>)" "s_current s1 = Some t"
      using se_ok_set_read [OF assms(1) th, of buf w] assms(2) by (auto simp: s1_def)
    define s2 where "s2 = upd_thr t (\<lambda>th. th\<lparr>t_data := sz\<rparr>) s1"
    have s2: "se_ok xs s2" "s_thr s2 t = Some (th\<lparr>t_buf := buf, t_data := sz\<rparr>)" "s_current s2 = Some t"
      using se_ok_private [OF s1(1,2), of "\<lambda>th. th\<lparr>t_data := sz\<rparr>"] s1 th(2) by (auto simp: s2_def)
    have eq: "l_se_read t args s = (case r of Done vs \<Rightarrow> (s1, Return vs) | Failed m \<Rightarrow> (s1, Raise m)
      | Again \<Rightarrow> (case SE_WAIT_TIMEOUT t args [] 3 On_read fd s2 of
                   (s, Some res) \<Rightarrow> (s, res)
                 | (s, None) \<Rightarrow> (let (vs, buf) = se_read_error (t_buf (the_thr s t)) TIMEOUT
                                in (upd_thr t (\<lambda>th. th\<lparr>t_buf := buf\<rparr>) s, Return vs))))"
      using False th fd tr by (cases r) (simp_all add: l_se_read_def sz_def [symmetric] s1_def s2_def del: One_nat_def)
    show ?thesis
    proof (cases r)
      case Again
      then have "read_ok sz buf"
        using se_try_read_attempt [OF _ tr]
        by (auto simp: read_attempt_def Let_def split: sysret.splits if_splits)
      then have w: "wait_ok On_read [] (th\<lparr>t_buf := buf, t_data := sz\<rparr>)" by (simp add: wait_ok_def)
      obtain s' res where wt: "SE_WAIT_TIMEOUT t args [] 3 On_read fd s2 = (s', res)" by force
      have "\<not> waiting (th\<lparr>t_buf := buf, t_data := sz\<rparr>)" using th(2) by simp
      from SE_WAIT_TIMEOUT_ok [OF s2(1,3,2) this w wt]
      show ?thesis
        using se_ok_private [OF s2(1,2)] th(2)
        by (auto simp: eq Again wt split: option.splits prod.splits)
    qed (use s1 in \<open>auto simp: eq\<close>)
  qed
qed

lemma l_se_write_ok:
  assumes "se_ok xs s" "s_current s = Some t"
  shows "api_ok xs t (l_se_write t args s)"
proof -
  from assms obtain th where th: "s_thr s t = Some th" "\<not> waiting th" by (rule se_ok_current)
  show ?thesis
  proof (cases "length args < 2 \<or> 3 < length args \<or> lua_integer (lua_arg args 1) = None \<or>
      lua_string (lua_arg args 2) = None \<or> lua_string (lua_arg args 2) = Some []")
    case True
    then show ?thesis
      using assms th by (auto simp: l_se_write_def Let_def split: option.split)
  next
    case False
    then obtain fd data where fd: "lua_integer (lua_arg args 1) = Some fd"
      "lua_string (lua_arg args 2) = Some data" "data \<noteq> []" by auto
    obtain r n bs w where tr: "se_try_write data 0 (s_os s) = (r, n, bs, w)" by (metis prod_cases4)
    define s0 where "s0 = upd_thr t (\<lambda>th. th\<lparr>t_nwrite := 0\<rparr>) s"
    have s0: "se_ok xs s0" "s_thr s0 t = Some (th\<lparr>t_nwrite := 0\<rparr>)" "s_current s0 = Some t" "s_os s0 = s_os s"
      using se_ok_private [OF assms(1) th, of "\<lambda>th. th\<lparr>t_nwrite := 0\<rparr>"] assms(2) th by (auto simp: s0_def)
    define s1 where "s1 = set_write t n fd bs w s0"
    have s1: "se_ok xs s1" "s_thr s1 t = Some (th\<lparr>t_nwrite := n\<rparr>)" "s_current s1 = Some t"
      using se_ok_set_write [OF s0(1,2), of n fd bs w] s0(3) th(2) by (auto simp: s1_def)
    have eq: "l_se_write t args s = (case r of Done vs \<Rightarrow> (s1, Return vs) | Failed m \<Rightarrow> (s1, Raise m)
      | Again \<Rightarrow> (case SE_WAIT_TIMEOUT t args [LStr data] 3 On_write fd s1 of
                   (s, Some res) \<Rightarrow> (s, res)
                 | (s, None) \<Rightarrow> (s, Return (se_write_error (t_nwrite (the_thr s t)) TIMEOUT))))"
      using False th fd tr s0(4) by (cases r) (simp_all add: l_se_write_def s0_def [symmetric] s1_def)
    show ?thesis
    proof (cases r)
      case Again
      then have "n < length data"
        using tr fd(3) by (auto simp: se_try_write_def Let_def split: sum.splits prod.splits if_splits)
      then have w: "wait_ok On_write [LStr data] (th\<lparr>t_nwrite := n\<rparr>)" by (simp add: wait_ok_def)
      obtain s' res where wt: "SE_WAIT_TIMEOUT t args [LStr data] 3 On_write fd s1 = (s', res)" by force
      have "\<not> waiting (th\<lparr>t_nwrite := n\<rparr>)" using th(2) by simp
      from SE_WAIT_TIMEOUT_ok [OF s1(1,3,2) this w wt]
      show ?thesis
        using s1 by (auto simp: eq Again wt split: option.splits)
    qed (use s1 in \<open>auto simp: eq\<close>)
  qed
qed


lemma l_se_connect_ok:
  assumes "se_ok xs s" "s_current s = Some t"
  shows "api_ok xs t (l_se_connect t args s)"
proof -
  from assms obtain th where th: "s_thr s t = Some th" "\<not> waiting th" by (rule se_ok_current)
  show ?thesis
  proof (cases "length args < 1 \<or> 2 < length args \<or> lua_string (lua_arg args 1) = None")
    case True
    then show ?thesis
      using assms by (auto simp: l_se_connect_def split: option.split)
  next
    case False
    then obtain addr where a: "lua_string (lua_arg args 1) = Some addr" by auto
    obtain err fd w where c: "se_socket_connect (cstr addr) (s_os s) = ((err, fd), w)"
      by (metis prod.exhaust)
    have w: "wait_ok On_connect [] th" by (simp add: wait_ok_def)
    show ?thesis
    proof (cases "err = 0 \<or> fd = None")
      case True
      then show ?thesis using assms False a c by (auto simp: l_se_connect_def Let_def split: option.split bool.split)
    next
      case False
      then obtain n where n: "fd = Some n" "err \<noteq> 0" by auto
      obtain s' res where wt: "SE_WAIT_TIMEOUT t args [] 2 On_connect (int n) (s\<lparr>s_os := w\<rparr>) = (s', res)" by force
      have "case res of Some r \<Rightarrow> api_ok xs t (s', r) | None \<Rightarrow> s' = s\<lparr>s_os := w\<rparr>"
        by (rule SE_WAIT_TIMEOUT_ok [OF _ _ _ _ w wt]) (use assms th in simp_all)
      then show ?thesis
        using assms n a c wt \<open>\<not> (_ \<or> _ \<or> _)\<close>
        by (auto simp: l_se_connect_def Let_def upd_os_def split: option.splits)
    qed
  qed
qed

lemma l_se_accept_ok:
  assumes "se_ok xs s" "s_current s = Some t"
  shows "api_ok xs t (l_se_accept t args s)"
proof -
  from assms obtain th where th: "s_thr s t = Some th" "\<not> waiting th" by (rule se_ok_current)
  show ?thesis
  proof (cases "length args < 1 \<or> 2 < length args \<or> lua_integer (lua_arg args 1) = None")
    case True
    then show ?thesis
      using assms by (auto simp: l_se_accept_def split: option.split)
  next
    case False
    then obtain fd where a: "lua_integer (lua_arg args 1) = Some fd" by auto
    obtain r w where c: "se_try_accept fd (s_os s) = (r, w)" by force
    have w: "wait_ok On_accept [] th" by (simp add: wait_ok_def)
    obtain s' res where wt: "SE_WAIT_TIMEOUT t args [] 2 On_accept fd (s\<lparr>s_os := w\<rparr>) = (s', res)" by force
    have "case res of Some r \<Rightarrow> api_ok xs t (s', r) | None \<Rightarrow> s' = s\<lparr>s_os := w\<rparr>"
      by (rule SE_WAIT_TIMEOUT_ok [OF _ _ _ _ w wt]) (use assms th in simp_all)
    then show ?thesis
      using assms a c wt False
      by (cases r) (auto simp: l_se_accept_def Let_def split: option.splits)
  qed
qed

lemma l_se_sleep_ok:
  assumes "se_ok xs s" "s_current s = Some t"
  shows "api_ok xs t (l_se_sleep t args s)"
proof -
  from assms obtain th where th: "s_thr s t = Some th" "\<not> waiting th" by (rule se_ok_current)
  let ?th = "th\<lparr>t_timer := Some On_sleep, t_nresult := 0, t_stack := [], t_yielded := True\<rparr>"
  have "se_ok (remove1 t xs) (se_resume_yield t [] (SE_WAIT_timer t On_sleep s))"
    by (rule se_ok_suspend [OF assms th, where th' = ?th])
      (use th in \<open>auto simp: se_resume_yield_def SE_WAIT_timer_def ev_timer_start_def ev_ref_def
        upd_thr_def waiting_def watchers_def thread_ok_def\<close>)
  then show ?thesis
    using assms by (auto simp: l_se_sleep_def split: option.split)
qed

text \<open>A new thread starts in the run queue and counts once.\<close>

lemma se_thread_new_ok:
  assumes "se_ok xs s" "se_thread_new args s = Some s'"
  shows "se_ok (xs @ [s_fresh s]) s' \<and> s_current s' = s_current s"
proof -
  let ?t = "s_fresh s"
  define th where "th = \<lparr>t_nresult = length args - 1, t_timer = None, t_io = None, t_fd = 0, t_data = 0, t_buf = None,
                     t_nwrite = 0, t_stack = args, t_yielded = False\<rparr>"
  have "se_thread_new args s = (if lua_arg args 1 \<noteq> Some LFun then None
    else Some (s\<lparr>s_fresh := ?t + 1, s_heap := list_add_tail ?t se_running_threads (s_heap s),
      s_evcount := s_evcount s + 1, s_thr := (s_thr s)(?t \<mapsto> th)\<rparr>))"
    by (simp add: se_thread_new_def Let_def lua_push_def se_thread_wakeup_def ev_ref_def upd_thr_def th_def)
  then have s': "s' = s\<lparr>s_fresh := ?t + 1, s_heap := list_add_tail ?t se_running_threads (s_heap s),
      s_evcount := s_evcount s + 1, s_thr := (s_thr s)(?t \<mapsto> th)\<rparr>"
    using assms(2) by (cases "lua_arg args 1 = Some LFun") simp_all
  have lt: "\<And>x u. s_thr s x = Some u \<Longrightarrow> x < ?t" "se_running_threads < ?t" "set xs \<subseteq> dom (s_thr s)"
    using assms(1) by (auto simp: se_ok_def)
  have new: "s_thr s ?t = None"
    using lt(1) [of ?t] by (cases "s_thr s ?t") auto
  have "?t \<notin> set xs" using lt(3) new by auto
  note new = new this less_imp_neq [OF lt(2), symmetric]
  have "dll (list_add_tail ?t se_running_threads (s_heap s)) se_running_threads (xs @ [?t])"
    using assms(1) new by (intro klist.enqueue_law) (auto simp: se_ok_def)
  moreover have "(\<Sum>x \<in> dom ((s_thr s)(?t \<mapsto> th)). 1 + watchers (the (((s_thr s)(?t \<mapsto> th)) x))) = s_evcount s + 1"
  proof -
    have "(\<Sum>x \<in> dom (s_thr s). 1 + watchers (the (((s_thr s)(?t \<mapsto> th)) x))) =
        (\<Sum>x \<in> dom (s_thr s). 1 + watchers (the (s_thr s x)))"
      using new by (intro sum.cong) auto
    moreover have "watchers th = 0" by (simp add: th_def watchers_def)
    ultimately show ?thesis
      using assms(1) new(1) by (simp add: se_ok_def domIff)
  qed
  moreover have "thread_ok u \<and> x < s_fresh s + 1 \<and> se_running_threads < x \<and> (x \<in> set (xs @ [?t]) \<longleftrightarrow> \<not> waiting u)"
    if "((s_thr s)(?t \<mapsto> th)) x = Some u" for x u
  proof (cases "x = ?t")
    case True
    then have "u = th" using that by simp
    moreover have "\<not> waiting th" by (simp add: th_def waiting_def)
    moreover have "se_running_threads < ?t" using assms(1) by (simp add: se_ok_def)
    ultimately show ?thesis using True by (simp add: thread_ok_idle)
  next
    case False
    then show ?thesis using that assms(1) by (auto simp: se_ok_def less_Suc_eq)
  qed
  moreover have "s_current s = Some x \<or> resumable u" if "((s_thr s)(?t \<mapsto> th)) x = Some u" for x u
  proof (cases "x = ?t")
    case True
    moreover have "args \<noteq> []" using assms(2) by (auto simp: se_thread_new_def lua_arg_def split: if_splits)
    ultimately show ?thesis using that by (auto simp: th_def resumable_def)
  qed (use that assms(1) in \<open>auto simp: se_ok_def\<close>)
  moreover have "set (xs @ [?t]) \<subseteq> dom ((s_thr s)(?t \<mapsto> th))" "finite (dom ((s_thr s)(?t \<mapsto> th)))"
    using assms(1) by (auto simp: se_ok_def)
  moreover have "\<forall>c. s_current s = Some c \<longrightarrow> c \<in> set (xs @ [?t])" "se_running_threads < ?t + 1"
    using assms(1) by (auto simp: se_ok_def)
  ultimately show ?thesis
    unfolding s' se_ok_def by simp
qed

lemma se_api_ok:
  assumes "se_ok xs s" "s_current s = Some t"
  shows "\<exists>ys. api_ok ys t (se_api_fun f t args s)"
proof (cases f)
  case Api_go
  then show ?thesis
    using assms(1) se_thread_new_ok [OF assms(1), of args]
    by (auto simp: se_api_fun_def l_se_go_def split: option.split)
next
  case Api_close
  then show ?thesis
    using assms(1) by (auto simp: se_api_fun_def l_se_close_def split: option.split prod.split sum.split)
next
  case Api_listen
  then show ?thesis
    using assms(1) by (auto simp: se_api_fun_def l_se_listen_def split: option.split prod.split)
next
  case Api_shutdown
  then show ?thesis
    using assms(1) by (auto simp: se_api_fun_def l_se_shutdown_def split: option.split prod.split)
qed (use assms(1) l_se_read_ok [OF assms, of args] l_se_write_ok [OF assms, of args]
    l_se_connect_ok [OF assms, of args] l_se_accept_ok [OF assms, of args] l_se_sleep_ok [OF assms, of args] in
  \<open>auto simp: se_api_fun_def l_se_time_def\<close>)

section \<open>Callbacks keep the invariant\<close>

lemma se_ok_thread: "se_ok xs s \<Longrightarrow> s_thr s t = Some th \<Longrightarrow> thread_ok th"
  by (simp add: se_ok_def)

lemma wake_with_ok:
  assumes "se_ok xs s" "s_thr s t = Some th" "waiting th" "s_current s = None"
  shows "se_ok (xs @ [t]) (wake_with t vs s)"
  by (rule se_ok_wake [OF assms(1-3)])
    (use assms se_ok_resumable [OF assms(1,2)] in \<open>auto simp: wake_with_eq waiting_def\<close>)

lemma se_ok_set_read_waiting:
  assumes "se_ok xs s" "s_thr s t = Some th" "t_io th = Some On_read" "read_ok (t_data th) buf"
  shows "se_ok xs (set_read t buf w s) \<and> s_thr (set_read t buf w s) t = Some (th\<lparr>t_buf := buf\<rparr>)"
proof -
  have "thread_ok (th\<lparr>t_buf := buf\<rparr>)"
    using se_ok_thread [OF assms(1,2)] assms(3,4) by (auto simp: thread_ok_def)
  then show ?thesis
    using assms(2) se_ok_cur [OF assms(1)] se_ok_resumable [OF assms(1,2)]
    by (cases "s_current s = Some t") (auto simp: resumable_def set_read_def upd_thr_def intro!: se_ok_stay [OF assms(1,2), where th' = "th\<lparr>t_buf := buf\<rparr>"])
qed

lemma se_on_read_ok:
  assumes "se_ok xs s" "s_thr s t = Some th" "t_io th = Some On_read" "s_current s = None"
  shows "(case se_on_read t s of
      Some s' \<Rightarrow> se_ok xs s' \<or> se_ok (xs @ [t]) s'
    | None \<Rightarrow> fst (sys_call (s_os s)) = SysErr EBADF)"
proof -
  have th: "t_stack th = []" "read_ok (t_data th) (t_buf th)" "waiting th"
    using se_ok_thread [OF assms(1,2)] assms(3) by (auto simp: thread_ok_def waiting_def)
  obtain r buf w where tr: "se_try_read (t_data th) (t_buf th) (s_os s) = (r, buf, w)" by (metis prod_cases3)
  note att = se_try_read_attempt [OF th(2) tr, unfolded read_attempt_def Let_def]
  have eq: "se_on_read t s = (case r of Again \<Rightarrow> Some (set_read t buf w s)
    | Done vs \<Rightarrow> Some (wake_with t vs (set_read t buf w s)) | Failed m \<Rightarrow> None)"
    using assms(2) th(1) tr by (cases r) (simp_all add: se_on_read_def)
  show ?thesis
  proof (cases r)
    case Again
    then have "read_ok (t_data th) buf"
      using att by (auto split: sysret.splits if_splits)
    with Again se_ok_set_read_waiting [OF assms(1-3), of buf w] show ?thesis by (simp add: eq)
  next
    case (Done vs)
    then have "buf = None"
      using att by (auto split: sysret.splits if_splits)
    then have "se_ok xs (set_read t buf w s)" "s_thr (set_read t buf w s) t = Some (th\<lparr>t_buf := buf\<rparr>)"
      using se_ok_set_read_waiting [OF assms(1-3), of buf w] by auto
    from wake_with_ok [OF this, of vs] Done th(3) assms(4) show ?thesis by (simp add: eq)
  next
    case (Failed m)
    then show ?thesis using att by (auto simp: eq split: sysret.splits if_splits)
  qed
qed


lemma se_on_write_ok:
  assumes "se_ok xs s" "s_thr s t = Some th" "t_io th = Some On_write" "s_current s = None"
  shows "(case se_on_write t s of
      Some s' \<Rightarrow> se_ok xs s' \<or> se_ok (xs @ [t]) s'
    | None \<Rightarrow> fst (sys_call (s_os s)) = SysErr EBADF)"
proof -
  obtain data where th: "t_stack th = [LStr data]" "t_nwrite th < length data" "waiting th" "thread_ok th"
    using se_ok_thread [OF assms(1,2)] assms(3) by (auto simp: thread_ok_def waiting_def)
  obtain r n bs w where tr: "se_try_write data (t_nwrite th) (s_os s) = (r, n, bs, w)" by (metis prod_cases4)
  define s1 where "s1 = set_write t n (t_fd th) bs w s"
  have eq: "se_on_write t s = (case r of Again \<Rightarrow> Some s1 | Done vs \<Rightarrow> Some (wake_with t vs s1) | Failed m \<Rightarrow> None)"
    using assms(2) th(1) tr by (cases r) (simp_all add: se_on_write_def lua_arg_def lua_string_def s1_def)
  have n: "n < length data" and fl: "\<And>m. r = Failed m \<Longrightarrow> fst (sys_call (s_os s)) = SysErr EBADF"
    using tr th(2) by (auto simp: se_try_write_def sys_num_def Let_def split: sum.splits prod.splits if_splits sysret.splits)
  have "thread_ok (th\<lparr>t_nwrite := n\<rparr>)"
    using th n assms(3) by (auto simp: thread_ok_def)
  then have s1: "se_ok xs s1" "s_thr s1 t = Some (th\<lparr>t_nwrite := n\<rparr>)" "s_current s1 = None"
    using assms(2,4) se_ok_cur [OF assms(1)] se_ok_resumable [OF assms(1,2)]
    by (auto simp: resumable_def s1_def set_write_def upd_thr_def intro!: se_ok_stay [OF assms(1,2), where th' = "th\<lparr>t_nwrite := n\<rparr>"])
  then show ?thesis
    using wake_with_ok [OF s1(1,2) _ s1(3)] th(3) fl by (cases r) (auto simp: eq)
qed

lemma se_on_connect_ok:
  assumes "se_ok xs s" "s_thr s t = Some th" "t_io th = Some On_connect" "s_current s = None"
  shows "\<exists>s'. se_on_connect t s = Some s' \<and> se_ok (xs @ [t]) s'"
proof -
  have th: "t_stack th = []" "waiting th"
    using se_ok_thread [OF assms(1,2)] assms(3) by (auto simp: thread_ok_def waiting_def)
  have "se_ok (xs @ [t]) (wake_with t vs (s\<lparr>s_os := w\<rparr>))" for vs w
    using assms th by (intro wake_with_ok) auto
  then show ?thesis
    using assms(2) th(1) by (auto simp: se_on_connect_def Let_def upd_os_def split: prod.split)
qed

lemma se_on_accept_ok:
  assumes "se_ok xs s" "s_thr s t = Some th" "t_io th = Some On_accept" "s_current s = None"
  shows "(case se_on_accept t s of
      Some s' \<Rightarrow> se_ok xs s' \<or> se_ok (xs @ [t]) s'
    | None \<Rightarrow> \<exists>w. snd (se_try_accept (t_fd th) (s_os s)) = w \<and>
        fst (se_try_accept (t_fd th) (s_os s)) = Failed ''accept error'')"
proof -
  have th: "t_stack th = []" "waiting th"
    using se_ok_thread [OF assms(1,2)] assms(3) by (auto simp: thread_ok_def waiting_def)
  have w: "se_ok (xs @ [t]) (wake_with t vs (s\<lparr>s_os := w\<rparr>))" for vs w
    using assms th by (intro wake_with_ok) auto
  obtain r w where tr: "se_try_accept (t_fd th) (s_os s) = (r, w)" by force
  have "\<And>m. r = Failed m \<Longrightarrow> m = ''accept error''"
    using tr by (auto simp: se_try_accept_def split: sum.splits prod.splits if_splits)
  then show ?thesis
    using assms th(1) w tr by (cases r) (auto simp: se_on_accept_def)
qed

text \<open>An expired timer wakes its thread and stops the other watcher.\<close>

lemma timer_stop_eq:
  "s_thr s t = Some th \<Longrightarrow> t_timer th = Some b \<Longrightarrow>
   ev_timer_stop t s = s\<lparr>s_evcount := s_evcount s - 1, s_thr := (s_thr s)(t \<mapsto> th\<lparr>t_timer := None\<rparr>)\<rparr>"
  by (simp add: ev_timer_stop_def ev_unref_def upd_thr_def)

lemma wake_stopped_ok:
  assumes "se_ok xs s" "s_thr s t = Some th" "t_timer th = Some b" "s_current s = None"
  shows "se_ok (xs @ [t]) (wake_with t vs (upd_thr t (\<lambda>th. th\<lparr>t_buf := f (t_buf th)\<rparr>) (ev_timer_stop t s)))"
    and "se_ok (xs @ [t]) (se_thread_wakeup t n (ev_timer_stop t s)) \<or> t_io th \<noteq> None"
proof -
  let ?s = "upd_thr t (\<lambda>th. th\<lparr>t_buf := f (t_buf th)\<rparr>) (ev_timer_stop t s)"
  let ?th = "th\<lparr>t_timer := None, t_buf := f (t_buf th)\<rparr>"
  have "s_thr ?s t = Some ?th" using assms(2,3) by (simp add: timer_stop_eq)
  note w = wake_with_eq [OF this, of vs]
  have th: "waiting th" "watchers th = 1 + watchers ?th"
    using assms(3) by (auto simp: waiting_def watchers_def)
  show "se_ok (xs @ [t]) (wake_with t vs ?s)"
    unfolding w
    by (rule se_ok_wake [OF assms(1,2) th(1), where th' =
          "?th\<lparr>t_stack := t_stack ?th @ vs, t_timer := None, t_io := None, t_nresult := length vs\<rparr>"])
      (use assms th(2) se_ok_resumable [OF assms(1,2)] in \<open>auto simp: timer_stop_eq upd_thr_def waiting_def\<close>)
  show "se_ok (xs @ [t]) (se_thread_wakeup t n (ev_timer_stop t s)) \<or> t_io th \<noteq> None"
  proof (cases "t_io th = None")
    case True
    have "se_ok (xs @ [t]) (se_thread_wakeup t n (ev_timer_stop t s))"
      by (rule se_ok_wake [OF assms(1,2) th(1), where th' = "th\<lparr>t_timer := None, t_nresult := n\<rparr>"])
        (use assms True se_ok_resumable [OF assms(1,2)] in \<open>auto simp: resumable_def timer_stop_eq se_thread_wakeup_def upd_thr_def waiting_def watchers_def\<close>)
    then show ?thesis ..
  qed simp
qed

lemma se_timer_callback_ok:
  assumes "se_ok xs s" "s_thr s t = Some th" "t_timer th \<noteq> None" "s_current s = None"
  shows "\<exists>s'. se_timer_callback t s = Some s' \<and> se_ok (xs @ [t]) s'"
proof -
  obtain b where b: "t_timer th = Some b" using assms(3) by auto
  note stop = timer_stop_eq [OF assms(2) b]
  have tok: "thread_ok th" using se_ok_thread [OF assms(1,2)] .
  have wk: "se_ok (xs @ [t]) (wake_with t vs (ev_timer_stop t s))" for vs
    using wake_stopped_ok(1) [OF assms(1,2) b assms(4), of vs id] by (simp add: upd_thr_def stop)
  have the: "the_thr (ev_timer_stop t s) t = th\<lparr>t_timer := None\<rparr>"
    by (simp add: stop the_thr_def)
  show ?thesis
  proof (cases b)
    case On_sleep
    then have "t_io th = None" "t_stack th = []"
      using tok b by (auto simp: thread_ok_def split: option.splits)
    then show ?thesis
      using wake_stopped_ok(2) [OF assms(1,2) b assms(4), of 0] assms(2) b On_sleep
      by (simp add: se_timer_callback_def se_on_sleep_def the)
  next
    case (On_timeout cb)
    then have io: "t_io th = Some cb"
      using tok b by (auto simp: thread_ok_def split: option.splits)
    show ?thesis
    proof (cases cb)
      case On_read
      define f where "f = (\<lambda>c. snd (se_read_error c TIMEOUT))"
      have "t_stack th = []" using tok io On_read by (simp add: thread_ok_def)
      moreover have "upd_thr t (\<lambda>th. th\<lparr>t_buf := f (t_buf th)\<rparr>) (ev_timer_stop t s) =
          upd_thr t (\<lambda>x. x\<lparr>t_buf := f (t_buf th)\<rparr>) (ev_timer_stop t s)"
        by (simp add: upd_thr_def stop)
      moreover obtain vs buf where e: "se_read_error (t_buf th) TIMEOUT = (vs, buf)" by force
      ultimately show ?thesis
        using wake_stopped_ok(1) [OF assms(1,2) b assms(4), of vs f] assms(2) b On_timeout On_read
        by (simp add: se_timer_callback_def se_on_read_timeout_def the f_def e)
    next
      case On_write
      then show ?thesis
        using tok io assms(2) b On_timeout wk
        by (auto simp: thread_ok_def se_timer_callback_def se_on_write_timeout_def the)
    next
      case On_connect
      then show ?thesis
        using tok io assms(2) b On_timeout wk
        by (auto simp: thread_ok_def se_timer_callback_def se_on_connect_timeout_def the upd_os_def)
    next
      case On_accept
      then show ?thesis
        using tok io assms(2) b On_timeout wk
        by (auto simp: thread_ok_def se_timer_callback_def se_on_accept_timeout_def the)
    qed
  qed
qed


section \<open>Every event keeps the invariant\<close>

lemma se_on_schedule_ok:
  assumes "se_ok xs s" "s_current s = None" "\<not> list_empty se_running_threads (s_heap s)"
    and "se_on_schedule s = Some s'"
  shows "se_ok (rotate1 xs) s' \<and> s_current s' = Some (hd xs)"
proof -
  have q: "dll (s_heap s) se_running_threads xs" using assms(1) by (simp add: se_ok_def)
  then obtain t ys where xs: "xs = t # ys"
    using assms(3) klist.empty_law [OF q] by (cases xs) auto
  have first: "hnext (s_heap s) se_running_threads = t"
    using q klist.first_law xs by simp
  obtain th where th: "s_thr s t = Some th" using assms(1) xs by (auto simp: se_ok_def)
  have nw: "\<not> waiting th" using assms(1) th xs by (auto simp: se_ok_def)
  let ?th = "th\<lparr>t_stack := [], t_yielded := False\<rparr>"
  define s1 where "s1 = s\<lparr>s_heap := list_move_tail t se_running_threads (s_heap s), s_current := Some t\<rparr>"
  have "se_thread_resume t s1 = Some s'"
    using assms(3,4) first by (simp add: se_on_schedule_def Let_def s1_def)
  then have s': "s_thr s' = (s_thr s)(t \<mapsto> ?th)" "s_fresh s' = s_fresh s" "s_current s' = Some t"
    "s_heap s' = list_move_tail t se_running_threads (s_heap s)" "s_evcount s' = s_evcount s"
    using th by (auto simp: se_thread_resume_def Let_def s1_def upd_thr_def split: if_splits)
  have "dll (s_heap s') se_running_threads (ys @ [t])"
    using klist.requeue_first [OF q [unfolded xs]] s'(4) by simp
  then have "se_ok (ys @ [t]) s'"
    using s' nw xs assms(2) by (intro se_ok_upd [OF assms(1) th s'(1,2)]) (auto simp: thread_ok_idle)
  then show ?thesis using xs s'(3) by simp
qed

lemma se_resume_yield_ok:
  assumes "se_ok xs s" "s_current s = Some t"
  shows "se_ok xs (se_resume_yield t vs s)"
proof -
  from assms obtain th where th: "s_thr s t = Some th" "\<not> waiting th" by (rule se_ok_current)
  show ?thesis
    by (rule se_ok_stay [OF assms(1) th(1), where th' = "th\<lparr>t_nresult := 0, t_stack := vs, t_yielded := True\<rparr>"])
      (use th assms(2) in \<open>auto simp: se_resume_yield_def upd_thr_def thread_ok_idle\<close>)
qed

text \<open>A finished thread leaves the queue and the count; a cached read left behind is an error.\<close>

lemma se_resume_finish_eq:
  assumes "se_ok xs s" "s_current s = Some t" "s_thr s t = Some th"
  shows "se_resume_finish t s =
    (if t_buf th = None
     then Some (s\<lparr>s_evcount := s_evcount s - 1, s_heap := list_del t (s_heap s),
                 s_thr := (s_thr s)(t := None), s_current := None\<rparr>)
     else None)"
proof -
  have "\<not> waiting th" using assms se_ok_current by fastforce
  then have "t_timer th = None" "t_io th = None" by (auto simp: waiting_def)
  then show ?thesis
    using assms(3) by (simp add: se_resume_finish_def se_thread_free_def Let_def ev_unref_def the_thr_def)
qed

lemma se_resume_finish_ok:
  assumes "se_ok xs s" "s_current s = Some t" "se_resume_finish t s = Some s'"
  shows "se_ok (remove1 t xs) s'"
proof -
  from assms(1,2) obtain th where th: "s_thr s t = Some th" "\<not> waiting th" "t \<in> set xs" by (rule se_ok_current)
  have s': "s' = s\<lparr>s_evcount := s_evcount s - 1, s_heap := list_del t (s_heap s),
                 s_thr := (s_thr s)(t := None), s_current := None\<rparr>"
    using assms(3) se_resume_finish_eq [OF assms(1,2) th(1)] by (simp split: if_splits)
  have q: "dll (s_heap s) se_running_threads xs" using assms(1) by (simp add: se_ok_def)
  have "dll (list_del t (s_heap s)) se_running_threads (remove1 t xs)"
    using klist.dequeue_law [OF q th(3)] .
  moreover have "distinct xs" using klist.queue_distinct [OF q] .
  moreover have "(\<Sum>x \<in> dom (s_thr s) - {t}. 1 + watchers (the (((s_thr s)(t := None)) x))) = s_evcount s - 1"
  proof -
    have "(\<Sum>x \<in> dom (s_thr s) - {t}. 1 + watchers (the (((s_thr s)(t := None)) x))) =
        (\<Sum>x \<in> dom (s_thr s) - {t}. 1 + watchers (the (s_thr s x)))"
      by (intro sum.cong) auto
    also have "\<dots> = (\<Sum>x \<in> dom (s_thr s). 1 + watchers (the (s_thr s x))) - (1 + watchers th)"
      using assms(1) th(1) by (subst sum_diff1) (auto simp: se_ok_def)
    finally show ?thesis using assms(1) th(2) by (simp add: se_ok_def watchers_not_waiting)
  qed
  moreover have "resumable u" if "s_thr s x = Some u" "x \<noteq> t" for x u
    using that assms(1,2) by (auto simp: se_ok_def)
  ultimately show ?thesis
    using assms(1) unfolding s' se_ok_def by auto
qed

lemma se_io_callback_ok:
  assumes "se_ok xs s" "s_thr s t = Some th" "t_io th \<noteq> None" "s_current s = None"
    and "se_io_callback t s = Some s'"
  shows "se_ok xs s' \<or> se_ok (xs @ [t]) s'"
proof -
  obtain cb where cb: "t_io th = Some cb" using assms(3) by auto
  show ?thesis
    using assms(2,5) cb se_on_read_ok [OF assms(1,2) _ assms(4)] se_on_write_ok [OF assms(1,2) _ assms(4)]
      se_on_connect_ok [OF assms(1,2) _ assms(4)] se_on_accept_ok [OF assms(1,2) _ assms(4)]
    by (cases cb) (auto simp: se_io_callback_def)
qed

lemma se_exec_inv:
  assumes "se_inv s" "se_enabled e s" "se_exec e s = Some s'"
  shows "se_inv s'"
proof -
  obtain xs where xs: "se_ok xs s" using assms(1) by (auto simp: se_inv_def)
  show ?thesis
  proof (cases e)
    case EvPick
    then show ?thesis
      using assms(2,3) se_on_schedule_ok [OF xs] by (auto simp: se_enabled_def se_exec_def se_inv_def)
  next
    case (EvCall f args)
    then obtain t where t: "s_current s = Some t" using assms(2) by (auto simp: se_enabled_def)
    obtain s1 r where call: "se_api_fun f t args s = (s1, r)" by force
    obtain ys where ys: "api_ok ys t (s1, r)"
      using se_api_ok [OF xs t, of f args] call by auto
    show ?thesis
    proof (cases r)
      case (Wait vs)
      have "se_resume_yield t vs (s1\<lparr>s_last := l\<rparr>) = (se_resume_yield t vs s1)\<lparr>s_last := l\<rparr>" for l
        by (simp add: se_resume_yield_def upd_thr_def)
      then show ?thesis
        using ys Wait assms(3) EvCall t call by (auto simp: se_exec_def se_inv_def)
    qed (use ys assms(3) EvCall t call in \<open>auto simp: se_exec_def se_inv_def\<close>)
  next
    case (EvYield vs)
    then obtain t where "s_current s = Some t" using assms(2) by (auto simp: se_enabled_def)
    then show ?thesis
      using assms(3) EvYield se_resume_yield_ok [OF xs, of t vs] by (auto simp: se_exec_def se_inv_def)
  next
    case EvReturn
    then obtain t where "s_current s = Some t" using assms(2) by (auto simp: se_enabled_def)
    then show ?thesis
      using assms(3) EvReturn se_resume_finish_ok [OF xs, of t s'] by (auto simp: se_exec_def se_inv_def)
  next
    case (EvIo t)
    then show ?thesis
      using assms(2,3) se_io_callback_ok [OF xs, of t] by (fastforce simp: se_enabled_def se_exec_def se_inv_def)
  next
    case (EvTimer t)
    then show ?thesis
      using assms(2,3) se_timer_callback_ok [OF xs, of t] by (fastforce simp: se_enabled_def se_exec_def se_inv_def)
  qed
qed


section \<open>Reachable states\<close>

definition se_init :: "sysret list \<Rightarrow> se_state" where
  "se_init script =
     \<lparr>s_heap = INIT_LIST_HEAD se_running_threads \<lparr>hnext = \<lambda>_. 0, hprev = \<lambda>_. 0\<rparr>, s_thr = Map.empty,
      s_fresh = 16, s_current = None, s_evcount = 0, s_now = 0,
      s_os = \<lparr>os_script = script, os_opened = [], os_closed = []\<rparr>, s_wire = [], s_last = None\<rparr>"

inductive se_reach :: "se_state \<Rightarrow> bool" where
  start: "l_se_run args (se_init script) = Some s \<Longrightarrow> se_reach s"
| step: "\<lbrakk>se_reach s; se_step s s'\<rbrakk> \<Longrightarrow> se_reach s'"

lemma se_init_ok: "se_ok [] (se_init script)"
  using dll_init by (simp add: se_ok_def se_init_def se_running_threads_def)

lemma se_reach_inv: "se_reach s \<Longrightarrow> se_inv s"
proof (induction rule: se_reach.induct)
  case (start args script s)
  then obtain s0 where s0: "se_thread_new args ((se_init script)\<lparr>s_current := None\<rparr>) = Some s0"
    "s = ev_unref (ev_ref s0)"
    by (auto simp: l_se_run_def)
  have "(se_init script)\<lparr>s_current := None\<rparr> = se_init script"
    by (simp add: se_init_def)
  moreover have "ev_unref (ev_ref s0) = s0"
    by (cases s0) (simp add: ev_ref_def ev_unref_def)
  ultimately show ?case
    using s0 se_thread_new_ok [OF se_init_ok, of args script s0] by (auto simp: se_inv_def)
next
  case (step s s')
  then show ?case by (auto elim: se_stepE intro: se_exec_inv)
qed

text \<open>The loop ends, its count being zero, exactly when there is no thread left.\<close>

lemma watchers_nonneg: "0 \<le> watchers th"
  by (simp add: watchers_def)

lemma se_ok_evcount:
  assumes "se_ok xs s"
  shows "(s_evcount s = 0) = (dom (s_thr s) = {})" "int (card (dom (s_thr s))) \<le> s_evcount s"
proof -
  have "(\<Sum>t \<in> dom (s_thr s). 1) \<le> (\<Sum>t \<in> dom (s_thr s). 1 + watchers (the (s_thr s t)))"
    using watchers_nonneg by (intro sum_mono) simp
  then have "(\<Sum>t \<in> dom (s_thr s). 1) \<le> s_evcount s"
    using assms by (simp add: se_ok_def)
  then show le: "int (card (dom (s_thr s))) \<le> s_evcount s" by simp
  have "finite (dom (s_thr s))" using assms by (simp add: se_ok_def)
  then show "(s_evcount s = 0) = (dom (s_thr s) = {})"
    using le assms by (auto simp: se_ok_def card_gt_0_iff)
qed

section \<open>Reading and writing to the end\<close>

text \<open>The attempts of one read, the first by \<open>l_se_read\<close> and the others by its callback.\<close>

fun read_loop :: "int \<Rightarrow> sds option \<Rightarrow> sysret list \<Rightarrow> try_result \<times> sds option" where
  "read_loop sz buf [] = (Again, buf)"
| "read_loop sz buf (r # rs) =
     (case se_try_read sz buf \<lparr>os_script = [r], os_opened = [], os_closed = []\<rparr> of
        (Again, buf, _) \<Rightarrow> read_loop sz buf rs
      | (res, buf, _) \<Rightarrow> (res, buf))"

lemma read_loop_attempt:
  assumes "read_ok sz buf"
  shows "\<exists>res buf'. read_attempt sz (read_val buf) r res buf' \<and>
    read_loop sz buf (r # rs) = (if res = Again then read_loop sz buf' rs else (res, buf'))"
proof -
  let ?w = "\<lparr>os_script = [r], os_opened = [], os_closed = []\<rparr>"
  obtain res buf' w' where t: "se_try_read sz buf ?w = (res, buf', w')" by (metis prod_cases3)
  have "sys_call ?w = (r, ?w\<lparr>os_script := []\<rparr>)" by (simp add: sys_call_def)
  then have "read_attempt sz (read_val buf) r res buf'"
    using se_try_read_attempt [OF assms t] by simp
  then show ?thesis
    using t by (cases res) auto
qed

lemma read_loop_data:
  assumes "read_ok sz buf" "0 < sz" "\<forall>c \<in> set chunks. c \<noteq> []" "length (read_val buf) < nat sz"
    "nat sz \<le> length (read_val buf) + length (concat chunks)"
  shows "read_loop sz buf (map SysData chunks) = (Done [LStr (take (nat sz) (read_val buf @ concat chunks))], None)"
  using assms
proof (induction chunks arbitrary: buf)
  case (Cons c chunks)
  let ?xs = "read_val buf" and ?n = "nat sz - length (read_val buf)"
  have bs: "se_read_bufsize sz = nat sz" using Cons.prems(2) by (simp add: se_read_bufsize_def)
  obtain res buf' where att: "read_attempt sz ?xs (SysData c) res buf'"
    "read_loop sz buf (SysData c # map SysData chunks) = (if res = Again then read_loop sz buf' (map SysData chunks) else (res, buf'))"
    using read_loop_attempt [OF Cons.prems(1)] by blast
  have n: "0 < ?n" "c \<noteq> []" using Cons.prems by auto
  show ?case
  proof (cases "?n \<le> length c")
    case True
    then have "res = Done [LStr (?xs @ take ?n c)]" "buf' = None"
      using att(1) n Cons.prems(2) by (auto simp: read_attempt_def Let_def sys_bytes_def bs)
    then show ?thesis using att(2) True Cons.prems(4) by simp
  next
    case False
    then have "res = Again" "read_ok sz buf'" "read_val buf' = ?xs @ c"
      using att(1) n Cons.prems(2) by (auto simp: read_attempt_def Let_def sys_bytes_def bs)
    then show ?thesis
      using att(2) Cons.IH [of buf'] Cons.prems False by auto
  qed
qed simp

lemma read_loop_eof:
  assumes "read_ok sz buf" "0 < sz" "\<forall>c \<in> set chunks. c \<noteq> []"
    "length (read_val buf) + length (concat chunks) < nat sz"
  shows "read_loop sz buf (map SysData chunks @ [SysData []]) =
    (Done [chunk (read_val buf @ concat chunks), LStr ''EOF''], None)"
  using assms
proof (induction chunks arbitrary: buf)
  case Nil
  then obtain res buf' where "read_attempt sz (read_val buf) (SysData []) res buf'"
    "read_loop sz buf [SysData []] = (if res = Again then read_loop sz buf' [] else (res, buf'))"
    using read_loop_attempt [OF Nil.prems(1), of "SysData []" "[]"] by blast
  then show ?case by (auto simp: read_attempt_def Let_def sys_bytes_def)
next
  case (Cons c chunks)
  let ?xs = "read_val buf"
  have bs: "se_read_bufsize sz = nat sz" using Cons.prems(2) by (simp add: se_read_bufsize_def)
  obtain res buf' where att: "read_attempt sz ?xs (SysData c) res buf'"
    "read_loop sz buf (SysData c # map SysData chunks @ [SysData []]) =
       (if res = Again then read_loop sz buf' (map SysData chunks @ [SysData []]) else (res, buf'))"
    using read_loop_attempt [OF Cons.prems(1)] by blast
  have "res = Again" "read_ok sz buf'" "read_val buf' = ?xs @ c"
    using att(1) Cons.prems by (auto simp: read_attempt_def Let_def sys_bytes_def bs)
  then show ?case
    using att(2) Cons.IH [of buf'] Cons.prems by auto
qed

text \<open>The attempts of one write and the bytes the kernel has taken in all of them.\<close>

fun write_loop :: "char list \<Rightarrow> nat \<Rightarrow> char list \<Rightarrow> sysret list \<Rightarrow> try_result \<times> nat \<times> char list" where
  "write_loop data n wire [] = (Again, n, wire)"
| "write_loop data n wire (r # rs) =
     (case se_try_write data n \<lparr>os_script = [r], os_opened = [], os_closed = []\<rparr> of
        (Again, n, bs, _) \<Rightarrow> write_loop data n (wire @ bs) rs
      | (res, n, bs, _) \<Rightarrow> (res, n, wire @ bs))"

lemma se_try_write_cases:
  assumes "se_try_write data n w = (x, m, bs, w')" "n < length data"
  shows "(x = Again \<and> m < length data \<and> take n data @ bs = take m data) \<or>
    (x = Done [] \<and> take n data @ bs = data) \<or>
    (\<exists>v. x = Done [v, LInt (int n)] \<and> m = n \<and> bs = []) \<or> (\<exists>msg. x = Failed msg)"
proof -
  obtain r w1 where "sys_num w = (r, w1)" by force
  then show ?thesis
    using assms take_add [of n _ data]
    by (cases r) (auto simp: se_try_write_def Let_def se_write_error_def min_def split: if_splits)
qed

lemma write_loop_prefix:
  assumes "n < length data" "wire = take n data" "write_loop data n wire rs = (res, n', wire')"
  shows "(res = Again \<longrightarrow> n' < length data \<and> wire' = take n' data) \<and>
    (res = Done [] \<longrightarrow> wire' = data) \<and>
    (\<forall>v vs. res = Done (v # vs) \<longrightarrow> wire' = take n' data \<and> n' < length data \<and> vs = [LInt (int n')])"
  using assms
proof (induction data n wire rs rule: write_loop.induct)
  case (2 data n wire r rs)
  obtain x m bs w where t: "se_try_write data n \<lparr>os_script = [r], os_opened = [], os_closed = []\<rparr> = (x, m, bs, w)"
    by (metis prod_cases4)
  show ?case
  proof (cases x)
    case Again
    then have "m < length data" "wire @ bs = take m data"
      using se_try_write_cases [OF t "2.prems"(1)] "2.prems"(2) by auto
    then show ?thesis
      using "2.IH" [OF t [symmetric] Again refl refl] "2.prems"(3) t Again by simp
  next
    case (Done vs)
    then have "(x = Done [] \<and> take n data @ bs = data) \<or> (\<exists>v. x = Done [v, LInt (int n)] \<and> m = n \<and> bs = [])"
      using se_try_write_cases [OF t "2.prems"(1)] by auto
    moreover have "(res, n', wire') = (x, m, wire @ bs)"
      using "2.prems"(3) t Done by simp
    ultimately show ?thesis using "2.prems"(1,2) by auto
  next
    case (Failed msg)
    then show ?thesis using "2.prems"(3) t by auto
  qed
qed simp

section \<open>Progress of the scheduler and the callbacks\<close>

lemma se_on_schedule_some:
  assumes "se_ok xs s" "s_current s = None"
  shows "se_on_schedule s \<noteq> None"
proof (cases "list_empty se_running_threads (s_heap s)")
  case False
  have q: "dll (s_heap s) se_running_threads xs" using assms(1) by (simp add: se_ok_def)
  then obtain t ys where xs: "xs = t # ys"
    using False klist.empty_law [OF q] by (cases xs) auto
  obtain th where th: "s_thr s t = Some th" using assms(1) xs by (auto simp: se_ok_def)
  have "hnext (s_heap s) se_running_threads = t"
    using q klist.first_law xs by simp
  then show ?thesis
    using False th se_ok_resumable [OF assms(1) th] assms(2)
    by (auto simp: se_on_schedule_def se_thread_resume_def the_thr_def Let_def)
qed (simp add: se_on_schedule_def)

lemma sys_call_ebadf: "fst (sys_call w) = SysErr EBADF \<Longrightarrow> SysErr EBADF \<in> set (os_script w)"
  by (cases "os_script w") (auto simp: sys_call_def EBADF_def EAGAIN_def)

lemma sys_call_script: "set (os_script (snd (sys_call w))) \<subseteq> set (os_script w)"
  by (cases "os_script w") (auto simp: sys_call_def)

lemma sys_num_ebadf:
  assumes "sys_num w = (r, w')"
  shows "(r = Inl EBADF \<longrightarrow> SysErr EBADF \<in> set (os_script w)) \<and> set (os_script w') \<subseteq> set (os_script w)"
  using assms sys_call_ebadf [of w] sys_call_script [of w]
  by (auto simp: sys_num_def split: prod.splits sysret.splits)

lemma sys_open_ebadf:
  assumes "sys_open w = (r, w')"
  shows "(r = Inl EBADF \<longrightarrow> SysErr EBADF \<in> set (os_script w)) \<and> set (os_script w') \<subseteq> set (os_script w)"
  using assms sys_num_ebadf [of w] by (auto simp: sys_open_def split: prod.splits sum.splits)

lemma se_socket_config_ebadf:
  assumes "se_socket_config sock w = (e, w')"
  shows "e = EBADF \<longrightarrow> SysErr EBADF \<in> set (os_script w)"
  using assms sys_num_ebadf [of w]
  by (auto simp: se_socket_config_def EBADF_def split: prod.splits sum.splits if_splits)

lemma se_try_accept_ebadf:
  assumes "se_try_accept fd w = (Failed m, w')"
  shows "SysErr EBADF \<in> set (os_script w)"
proof -
  obtain w1 where "se_socket_accept (nat fd) w = (Inl EBADF, w1)"
    using assms by (auto simp: se_try_accept_def split: prod.splits sum.splits if_splits)
  then show ?thesis
    using sys_open_ebadf [of w] se_socket_config_ebadf
    by (fastforce simp: se_socket_accept_def split: prod.splits sum.splits if_splits)
qed

lemma se_io_callback_some:
  assumes "se_ok xs s" "s_thr s t = Some th" "t_io th \<noteq> None" "s_current s = None"
  shows "se_io_callback t s \<noteq> None \<or> SysErr EBADF \<in> set (os_script (s_os s))"
proof -
  obtain cb where cb: "t_io th = Some cb" using assms(3) by auto
  show ?thesis
  proof (cases cb)
    case On_read
    then show ?thesis
      using se_on_read_ok [OF assms(1,2) _ assms(4)] assms(2) cb sys_call_ebadf [of "s_os s"]
      by (auto simp: se_io_callback_def split: option.splits)
  next
    case On_write
    then show ?thesis
      using se_on_write_ok [OF assms(1,2) _ assms(4)] assms(2) cb sys_call_ebadf [of "s_os s"]
      by (auto simp: se_io_callback_def split: option.splits)
  next
    case On_connect
    then show ?thesis
      using se_on_connect_ok [OF assms(1,2) _ assms(4)] assms(2) cb by (auto simp: se_io_callback_def)
  next
    case On_accept
    then show ?thesis
      using se_on_accept_ok [OF assms(1,2) _ assms(4)] assms(2) cb
        se_try_accept_ebadf [of "t_fd th" "s_os s"]
      by (auto simp: se_io_callback_def split: option.splits) (metis prod.collapse)
  qed
qed

lemma read_loop_append:
  "\<lbrakk>read_loop sz buf xs = (r, b); r \<noteq> Again\<rbrakk> \<Longrightarrow> read_loop sz buf (xs @ ys) = (r, b)"
  by (induction sz buf xs rule: read_loop.induct) (auto split: prod.splits try_result.splits)

text \<open>\<open>n\<close> rounds of the scheduler's loop in which every coroutine only yields: who ran.\<close>

fun se_rounds :: "nat \<Rightarrow> se_state \<Rightarrow> (addr list \<times> se_state) option" where
  "se_rounds 0 s = Some ([], s)"
| "se_rounds (Suc n) s =
     (case se_exec EvPick s of
        None \<Rightarrow> None
      | Some s \<Rightarrow>
          (case se_exec (EvYield []) s of
             None \<Rightarrow> None
           | Some s' \<Rightarrow> map_option (\<lambda>(ts, s'). (the (s_current s) # ts, s')) (se_rounds n s')))"

lemma se_rounds_prefix:
  assumes "se_ok (ys @ zs) s" "s_current s = None"
  shows "\<exists>s'. se_rounds (length ys) s = Some (ys, s') \<and> se_ok (zs @ ys) s' \<and> s_current s' = None"
  using assms
proof (induction ys arbitrary: zs s)
  case (Cons y ys)
  obtain s1 where s1: "se_on_schedule s = Some s1"
    using se_on_schedule_some [OF Cons.prems] by auto
  have "dll (s_heap s) se_running_threads ((y # ys) @ zs)" using Cons.prems(1) by (simp add: se_ok_def)
  then have "\<not> list_empty se_running_threads (s_heap s)" by (simp add: klist.empty_law)
  from se_on_schedule_ok [OF Cons.prems this s1]
  have ok: "se_ok (ys @ zs @ [y]) s1" "s_current s1 = Some y" by simp_all
  have "se_ok (ys @ zs @ [y]) (se_resume_yield y [] s1)" "s_current (se_resume_yield y [] s1) = None"
    using se_resume_yield_ok [OF ok] by (simp_all add: se_resume_yield_def upd_thr_def)
  from Cons.IH [OF this] show ?case
    using s1 ok(2) by (auto simp: se_exec_def)
qed simp

section \<open>Properties\<close>

text \<open>C16. In every reachable state each thread is in the run queue exactly when none of its
  watchers is active, the running thread is queued, and the event loop's count is zero
  exactly when no thread is left.\<close>

theorem se_scheduler_invariant:
  assumes "se_reach s"
  shows "\<exists>xs. dll (s_heap s) se_running_threads xs \<and>
    set xs = {t. \<exists>th. s_thr s t = Some th \<and> t_timer th = None \<and> t_io th = None} \<and>
    (case s_current s of None \<Rightarrow> True | Some t \<Rightarrow> t \<in> set xs) \<and>
    (s_evcount s = 0) = (dom (s_thr s) = {}) \<and> int (card (dom (s_thr s))) \<le> s_evcount s"
proof -
  obtain xs where xs: "se_ok xs s"
    using se_reach_inv [OF assms] by (auto simp: se_inv_def)
  have "set xs = {t. \<exists>th. s_thr s t = Some th \<and> t_timer th = None \<and> t_io th = None}"
    using xs unfolding se_ok_def waiting_def by blast
  then show ?thesis
    using xs se_ok_evcount [OF xs] by (intro exI [of _ xs]) (auto simp: se_ok_def split: option.split)
qed

theorem se_scheduler_invariant_witness:
  "\<exists>s. l_se_run [LFun] (se_init []) = Some s \<and> (s_evcount s = 0) = (dom (s_thr s) = {})"
proof -
  obtain s where s: "l_se_run [LFun] (se_init []) = Some s"
    by (simp add: l_se_run_def se_thread_new_def lua_arg_def Let_def)
  then have "se_reach s" by (rule se_reach.start)
  from se_scheduler_invariant [OF this] s show ?thesis by auto
qed

text \<open>C17. In a reachable state a fired timer always wakes its thread, and an io callback only
  fails when the system reports a bad descriptor: the callbacks' assertions on the
  coroutine's stack and on the read cache hold. The scheduler never picks a dead
  coroutine, and a coroutine ends without error unless a read cache was left in it.\<close>

theorem se_callbacks_safe:
  assumes "se_reach s" "se_enabled e s"
  shows "case e of
      EvPick \<Rightarrow> se_exec e s \<noteq> None
    | EvCall f args \<Rightarrow> se_exec e s \<noteq> None
    | EvYield vs \<Rightarrow> se_exec e s \<noteq> None
    | EvReturn \<Rightarrow> (se_exec e s = None) = (t_buf (the_thr s (the (s_current s))) \<noteq> None)
    | EvIo t \<Rightarrow> se_exec e s \<noteq> None \<or> SysErr EBADF \<in> set (os_script (s_os s))
    | EvTimer t \<Rightarrow> se_exec e s \<noteq> None"
proof -
  obtain xs where xs: "se_ok xs s"
    using se_reach_inv [OF assms(1)] by (auto simp: se_inv_def)
  show ?thesis
  proof (cases e)
    case EvPick
    then show ?thesis
      using assms(2) se_on_schedule_some [OF xs] by (simp add: se_enabled_def se_exec_def)
  next
    case (EvCall f args)
    then show ?thesis by (auto simp: se_exec_def Let_def split: prod.split api_result.split)
  next
    case (EvYield vs)
    then show ?thesis by (simp add: se_exec_def)
  next
    case EvReturn
    then obtain t where t: "s_current s = Some t" using assms(2) by (auto simp: se_enabled_def)
    with xs obtain th where "s_thr s t = Some th" by (rule se_ok_current)
    then show ?thesis
      using EvReturn t se_resume_finish_eq [OF xs t] by (simp add: se_exec_def the_thr_def)
  next
    case (EvIo t)
    then show ?thesis
      using assms(2) se_io_callback_some [OF xs, of t] by (auto simp: se_enabled_def se_exec_def)
  next
    case (EvTimer t)
    then show ?thesis
      using assms(2) se_timer_callback_ok [OF xs, of t] by (fastforce simp: se_enabled_def se_exec_def)
  qed
qed

theorem se_callbacks_safe_witness:
  "\<exists>s. l_se_run [LFun] (se_init []) = Some s \<and> se_exec EvPick s \<noteq> None"
proof -
  obtain s where s: "l_se_run [LFun] (se_init []) = Some s"
    by (simp add: l_se_run_def se_thread_new_def lua_arg_def Let_def)
  then have "se_enabled EvPick s"
    by (auto simp: l_se_run_def se_thread_new_def lua_arg_def Let_def se_enabled_def se_init_def
        lua_push_def se_thread_wakeup_def upd_thr_def ev_ref_def ev_unref_def list_empty_def
        list_add_tail_def list_add_between_def INIT_LIST_HEAD_def se_running_threads_def)
  from se_callbacks_safe [OF se_reach.start [OF s] this] s show ?thesis by simp
qed

text \<open>C19. The scheduler is fair: if the queued coroutines only yield, one round runs each of
  them once, in queue order, and leaves the queue as it was.\<close>

theorem se_schedule_round_robin:
  assumes "se_ok xs s" "s_current s = None"
  shows "\<exists>s'. se_rounds (length xs) s = Some (xs, s') \<and> se_ok xs s' \<and> s_current s' = None"
  using se_rounds_prefix [of xs "[]" s] assms by simp

theorem se_schedule_round_robin_witness:
  "\<exists>s s'. se_ok [16] s \<and> se_rounds 1 s = Some ([16], s')"
proof -
  obtain s where s: "se_thread_new [LFun] (se_init []) = Some s"
    by (simp add: se_thread_new_def lua_arg_def Let_def)
  have "se_ok [16] s" "s_current s = None"
    using se_thread_new_ok [OF se_init_ok s] by (simp_all add: se_init_def)
  from se_schedule_round_robin [OF this] \<open>se_ok [16] s\<close> show ?thesis by auto
qed

text \<open>C18. A read of \<open>n\<close> bytes returns exactly the first \<open>n\<close> bytes of the stream, however the
  kernel divides it into chunks; when the stream ends early it returns everything that
  came together with the message \<^verbatim>\<open>EOF\<close>. Either way no cache is kept.\<close>

theorem se_read_stream:
  assumes "0 < n" "[] \<notin> set chunks"
  shows "read_loop n None (map SysData chunks @ [SysData []]) =
    (if nat n \<le> length (concat chunks)
     then (Done [LStr (take (nat n) (concat chunks))], None)
     else (Done [if concat chunks = [] then LNil else LStr (concat chunks), LStr ''EOF''], None))"
proof -
  have c: "\<forall>c \<in> set chunks. c \<noteq> []" "read_val None = []"
    using assms(2) by (auto simp: read_val_def)
  show ?thesis
  proof (cases "nat n \<le> length (concat chunks)")
    case True
    then have "read_loop n None (map SysData chunks) = (Done [LStr (take (nat n) (concat chunks))], None)"
      using read_loop_data [of n None chunks] assms(1) c by simp
    from read_loop_append [OF this] True show ?thesis by simp
  next
    case False
    then show ?thesis
      using read_loop_eof [of n None chunks] assms(1) c by (simp add: chunk_def)
  qed
qed

theorem se_read_stream_witness:
  "read_loop 5 None (map SysData [''he'', ''llo'', ''x''] @ [SysData []]) = (Done [LStr ''hello''], None)"
  using se_read_stream [of 5 "[''he'', ''llo'', ''x'']"] by simp

text \<open>C32. However the kernel divides a write, what it has taken is a prefix of the data: all of
  it when the call reports success, and exactly the reported number of bytes when it
  reports an error.\<close>

theorem se_write_prefix:
  assumes "data \<noteq> []"
  shows "case write_loop data 0 [] rs of
      (Again, n, wire) \<Rightarrow> n < length data \<and> wire = take n data
    | (Done vs, n, wire) \<Rightarrow>
        (if vs = [] then wire = data else wire = take n data \<and> n < length data \<and> tl vs = [LInt (int n)])
    | (Failed m, n, wire) \<Rightarrow> True"
proof -
  obtain res n wire where l: "write_loop data 0 [] rs = (res, n, wire)" by (metis prod_cases3)
  have "0 < length data" "[] = take 0 data" using assms by auto
  from write_loop_prefix [OF this l] show ?thesis
    by (auto simp: l neq_Nil_conv split: try_result.split)
qed

theorem se_write_prefix_witness:
  "case write_loop ''abcd'' 0 [] [SysNum 3, SysErr EAGAIN, SysErr 32] of
      (Done vs, n, wire) \<Rightarrow> wire = take n ''abcd''
    | _ \<Rightarrow> False"
proof -
  have "write_loop ''abcd'' 0 [] [SysNum 3, SysErr EAGAIN, SysErr 32] = (Done [LErr 32, LInt 3], 3, ''abc'')"
    by code_simp
  then show ?thesis using se_write_prefix [of "''abcd''" "[SysNum 3, SysErr EAGAIN, SysErr 32]"] by simp
qed



end
