(* ===== verification/Mqtt_Topic.thy ===== *)
theory Mqtt_Topic
  imports Prelude
begin

text \<open>
  Topics of the MQTT broker, \<^verbatim>\<open>mosquitto14/mosquitto-1.4.2\<close>: the validity checks for
  published topics and subscriptions and the matcher the access control lists use
  (\<^verbatim>\<open>lib/util_mosq.c\<close>), and the tokeniser of the subscription tree (\<^verbatim>\<open>src/subs.c\<close>), related to
  one definition of matching on the levels of a topic, \<open>tok_match\<close>. Strings are C strings
  without NUL; pointers into a string are positions.
\<close>

section \<open>Return codes\<close>

definition MOSQ_ERR_SUCCESS :: int where "MOSQ_ERR_SUCCESS = 0"
definition MOSQ_ERR_NOMEM :: int where "MOSQ_ERR_NOMEM = 1"
definition MOSQ_ERR_PROTOCOL :: int where "MOSQ_ERR_PROTOCOL = 2"
definition MOSQ_ERR_INVAL :: int where "MOSQ_ERR_INVAL = 3"
definition MOSQ_ERR_NO_CONN :: int where "MOSQ_ERR_NO_CONN = 4"
definition MOSQ_ERR_CONN_LOST :: int where "MOSQ_ERR_CONN_LOST = 7"
definition MOSQ_ERR_PAYLOAD_SIZE :: int where "MOSQ_ERR_PAYLOAD_SIZE = 9"
definition MOSQ_ERR_AUTH :: int where "MOSQ_ERR_AUTH = 11"
definition MOSQ_ERR_ACL_DENIED :: int where "MOSQ_ERR_ACL_DENIED = 12"
definition MOSQ_ERR_ERRNO :: int where "MOSQ_ERR_ERRNO = 14"

lemmas mosq_err_defs = MOSQ_ERR_SUCCESS_def MOSQ_ERR_NOMEM_def MOSQ_ERR_PROTOCOL_def
  MOSQ_ERR_INVAL_def MOSQ_ERR_NO_CONN_def MOSQ_ERR_CONN_LOST_def MOSQ_ERR_PAYLOAD_SIZE_def
  MOSQ_ERR_AUTH_def MOSQ_ERR_ACL_DENIED_def MOSQ_ERR_ERRNO_def

abbreviation PLUS :: char where "PLUS \<equiv> CHR ''+''"
abbreviation HASH :: char where "HASH \<equiv> CHR ''#''"
abbreviation SLASH :: char where "SLASH \<equiv> CHR ''/''"
abbreviation DOLLAR :: char where "DOLLAR \<equiv> CHR ''$''"

section \<open>Checks and matching\<close>

fun pub_topic_loop :: "cstring \<Rightarrow> nat \<Rightarrow> int" where
  "pub_topic_loop [] len = (if 65535 < len then MOSQ_ERR_INVAL else MOSQ_ERR_SUCCESS)"
| "pub_topic_loop (c # str) len =
     (if c = PLUS \<or> c = HASH then MOSQ_ERR_INVAL else pub_topic_loop str (len + 1))"

definition mosquitto_pub_topic_check :: "cstring \<Rightarrow> int" where
  "mosquitto_pub_topic_check str = pub_topic_loop str 0"

text \<open>\<open>c\<close> is the previous character, NUL at the start.\<close>

fun sub_topic_loop :: "char \<Rightarrow> nat \<Rightarrow> cstring \<Rightarrow> int" where
  "sub_topic_loop c len [] = (if 65535 < len then MOSQ_ERR_INVAL else MOSQ_ERR_SUCCESS)"
| "sub_topic_loop c len (d # str) =
     (if d = PLUS \<and> ((c \<noteq> NUL \<and> c \<noteq> SLASH) \<or> (cchar str 0 \<noteq> NUL \<and> cchar str 0 \<noteq> SLASH))
      then MOSQ_ERR_INVAL
      else if d \<noteq> PLUS \<and> d = HASH \<and> ((c \<noteq> NUL \<and> c \<noteq> SLASH) \<or> cchar str 0 \<noteq> NUL)
      then MOSQ_ERR_INVAL
      else sub_topic_loop d (len + 1) str)"

definition mosquitto_sub_topic_check :: "cstring \<Rightarrow> int" where
  "mosquitto_sub_topic_check str = sub_topic_loop NUL 0 str"

text \<open>\<open>while(tpos < tlen \<and> topic[tpos] != '/') tpos++\<close>\<close>

function skip_level :: "cstring \<Rightarrow> nat \<Rightarrow> nat" where
  "skip_level topic tpos =
     (if tpos < length topic \<and> topic ! tpos \<noteq> SLASH then skip_level topic (tpos + 1) else tpos)"
  by pat_completeness auto
termination
  by (relation "measure (\<lambda>(topic, tpos). length topic - tpos)") auto

declare skip_level.simps [simp del]

lemma skip_level_ge: "tpos \<le> skip_level topic tpos"
  by (induction topic tpos rule: skip_level.induct) (subst skip_level.simps, auto)

text \<open>The loop of \<open>mosquitto_topic_matches_sub\<close>; \<open>None\<close> when \<open>*result\<close> is left unwritten.\<close>

function match_loop :: "cstring \<Rightarrow> cstring \<Rightarrow> nat \<Rightarrow> nat \<Rightarrow> bool option" where
  "match_loop sub topic spos tpos =
     (let slen = length sub; tlen = length topic
      in if spos < slen \<and> tpos < tlen then
           (if sub ! spos = topic ! tpos then
              (if tpos + 1 = tlen \<and> spos + 3 = slen \<and> cchar sub (spos + 1) = SLASH \<and> cchar sub (spos + 2) = HASH
               then Some True
               else
                 let spos = spos + 1; tpos = tpos + 1
                 in if spos = slen \<and> tpos = tlen then Some True
                    else if tpos = tlen \<and> spos + 1 = slen \<and> cchar sub spos = PLUS then Some True
                    else match_loop sub topic spos tpos)
            else if sub ! spos = PLUS then
              (let spos = spos + 1; tpos = skip_level topic tpos
               in if tpos = tlen \<and> spos = slen then Some True
                  else match_loop sub topic spos tpos)
            else if sub ! spos = HASH then Some (spos + 1 = slen)
            else Some False)
         else if tpos < tlen \<or> spos < slen then Some False
         else None)"
  by pat_completeness auto
termination
  by (relation "measure (\<lambda>(sub, topic, spos, tpos). length sub - spos)") auto

declare match_loop.simps [simp del]

definition mosquitto_topic_matches_sub :: "cstring \<Rightarrow> cstring \<Rightarrow> bool option" where
  "mosquitto_topic_matches_sub sub topic =
     (if sub \<noteq> [] \<and> topic \<noteq> [] \<and>
         ((sub ! 0 = DOLLAR \<and> topic ! 0 \<noteq> DOLLAR) \<or> (topic ! 0 = DOLLAR \<and> sub ! 0 \<noteq> DOLLAR))
      then Some False
      else match_loop sub topic 0 0)"

section \<open>The tokeniser of the subscription tree\<close>

text \<open>The levels of the string from position \<open>i\<close> on; \<open>cur\<close> is \<open>subtopic[start..i)\<close>.\<close>

fun tokenise_loop :: "cstring \<Rightarrow> cstring \<Rightarrow> cstring list" where
  "tokenise_loop cur [] = [cur]"
| "tokenise_loop cur (c # s) =
     (if c = SLASH then cur # tokenise_loop [] s else tokenise_loop (cur @ [c]) s)"

definition sub_topic_tokenise :: "cstring \<Rightarrow> cstring list" where
  "sub_topic_tokenise subtopic =
     (if cchar subtopic 0 \<noteq> DOLLAR then [[]] else []) @
     (if cchar subtopic 0 = SLASH then [[]] else []) @
     tokenise_loop [] (drop (if cchar subtopic 0 = SLASH then 1 else 0) subtopic)"

section \<open>Levels\<close>

fun levels :: "cstring \<Rightarrow> cstring list" where
  "levels [] = [[]]"
| "levels (c # s) = (if c = SLASH then [] # levels s else (c # hd (levels s)) # tl (levels s))"

text \<open>A filter matches a topic level by level: \<open>+\<close> matches any level, a final \<open>#\<close> any rest,
  including none.\<close>

fun tok_match :: "cstring list \<Rightarrow> cstring list \<Rightarrow> bool" where
  "tok_match [] ts \<longleftrightarrow> ts = []"
| "tok_match (f # fs) [] \<longleftrightarrow> f = ''#'' \<and> fs = []"
| "tok_match (f # fs) (t # ts) \<longleftrightarrow> (f = ''#'' \<and> fs = []) \<or> ((f = ''+'' \<or> f = t) \<and> tok_match fs ts)"

lemma levels_ne [simp]: "levels s \<noteq> []"
  by (cases s) auto

lemma levels_Cons_ex: "\<exists>x xs. levels s = x # xs"
  by (cases "levels s") auto

lemma tokenise_loop_levels: "tokenise_loop cur s = (cur @ hd (levels s)) # tl (levels s)"
  by (induction cur s rule: tokenise_loop.induct) auto

lemma tokenise_levels:
  "sub_topic_tokenise s = (if cchar s 0 \<noteq> DOLLAR then [[]] else []) @ levels s"
  by (cases s) (auto simp: sub_topic_tokenise_def tokenise_loop_levels)

lemma levels_no_slash: "t \<in> set (levels s) \<Longrightarrow> SLASH \<notin> set t"
proof (induction s arbitrary: t)
  case (Cons c s)
  obtain x xs where "levels s = x # xs" using levels_Cons_ex by blast
  with Cons show ?case by (auto split: if_splits)
qed simp

lemma levels_single: "SLASH \<notin> set s \<Longrightarrow> levels s = [s]"
  by (induction s) auto

lemma levels_app: "SLASH \<notin> set s \<Longrightarrow> levels (s @ SLASH # r) = s # levels r"
  by (induction s) auto

section \<open>Subscription checks\<close>

definition level_ok :: "cstring \<Rightarrow> bool" where
  "level_ok t \<longleftrightarrow> t = ''+'' \<or> t = ''#'' \<or> (PLUS \<notin> set t \<and> HASH \<notin> set t)"

text \<open>A well-formed filter: wildcards stand alone in their level, \<open>#\<close> only in the last.\<close>

definition filter_ok :: "cstring list \<Rightarrow> bool" where
  "filter_ok ts \<longleftrightarrow> list_all level_ok ts \<and> ''#'' \<notin> set (butlast ts)"

lemma pub_topic_loop_iff:
  "pub_topic_loop s len = MOSQ_ERR_SUCCESS \<longleftrightarrow> PLUS \<notin> set s \<and> HASH \<notin> set s \<and> len + length s \<le> 65535"
  by (induction s len rule: pub_topic_loop.induct) (auto simp: mosq_err_defs)

definition mid_ok :: "cstring list \<Rightarrow> bool" where
  "mid_ok ts \<longleftrightarrow> PLUS \<notin> set (hd ts) \<and> HASH \<notin> set (hd ts) \<and> filter_ok (tl ts)"

lemma filter_ok_Cons:
  "filter_ok (t # ts) \<longleftrightarrow> level_ok t \<and> filter_ok ts \<and> (ts \<noteq> [] \<longrightarrow> t \<noteq> ''#'')"
  by (auto simp: filter_ok_def)

lemma filter_ok_Nil [simp]: "filter_ok []"
  by (simp add: filter_ok_def)

lemma level_ok_simps [simp]: "level_ok []" "level_ok ''+''" "level_ok ''#''"
  by (simp_all add: level_ok_def)

lemma level_ok_Cons:
  "level_ok (d # h) \<longleftrightarrow> (d = PLUS \<or> d = HASH) \<and> h = [] \<or>
     (d \<noteq> PLUS \<and> d \<noteq> HASH \<and> PLUS \<notin> set h \<and> HASH \<notin> set h)"
  by (auto simp: level_ok_def)

lemma levels_hd_nil: "hd (levels s) = [] \<longleftrightarrow> s = [] \<or> hd s = SLASH"
  by (cases s) auto

lemma levels_tl_nil: "tl (levels s) = [] \<longleftrightarrow> SLASH \<notin> set s"
  by (induction s) auto

lemma sub_topic_loop_iff:
  "NUL \<notin> set s \<Longrightarrow> sub_topic_loop c len s = MOSQ_ERR_SUCCESS \<longleftrightarrow>
     len + length s \<le> 65535 \<and> (if c = NUL \<or> c = SLASH then filter_ok (levels s) else mid_ok (levels s))"
proof (induction s arbitrary: c len)
  case Nil
  then show ?case by (auto simp: mosq_err_defs mid_ok_def filter_ok_Cons)
next
  case (Cons d s)
  obtain h ts where ts: "levels s = h # ts" using levels_Cons_ex by blast
  have IH: "sub_topic_loop d (len + 1) s = MOSQ_ERR_SUCCESS \<longleftrightarrow>
      len + 1 + length s \<le> 65535 \<and> (if d = NUL \<or> d = SLASH then filter_ok (levels s) else mid_ok (levels s))"
    using Cons by simp
  have hn: "h = [] \<longleftrightarrow> s = [] \<or> hd s = SLASH" using levels_hd_nil [of s] ts by simp
  have d0: "d \<noteq> NUL" using Cons.prems by auto
  have n0: "cchar s 0 = NUL \<longleftrightarrow> s = []" "s \<noteq> [] \<Longrightarrow> cchar s 0 = hd s"
    using Cons.prems by (cases s; auto)+
  have e: "MOSQ_ERR_INVAL \<noteq> MOSQ_ERR_SUCCESS" by (simp add: mosq_err_defs)
  have t0: "ts = [] \<longleftrightarrow> SLASH \<notin> set s" using levels_tl_nil [of s] ts by simp
  consider "d = SLASH" | "d = PLUS" | "d = HASH" | "d \<noteq> SLASH" "d \<noteq> PLUS" "d \<noteq> HASH" by blast
  then show ?case
  proof cases
    case 1
    then show ?thesis using IH d0 ts by (simp add: filter_ok_Cons mid_ok_def)
  next
    case 2
    then show ?thesis
      using IH e ts n0 hn by (cases "s = []") (auto simp: filter_ok_Cons mid_ok_def level_ok_Cons)
  next
    case 3
    show ?thesis
    proof (cases "s = []")
      case True
      then show ?thesis using 3 IH e ts by (auto simp: filter_ok_Cons mid_ok_def level_ok_Cons)
    next
      case False
      then have "hd s = SLASH \<Longrightarrow> ts \<noteq> []" using t0 by (cases s) auto
      then show ?thesis
        using 3 False e ts n0 hn by (auto simp: filter_ok_Cons mid_ok_def level_ok_Cons)
    qed
  next
    case 4
    then show ?thesis
      using IH d0 ts by (auto simp: filter_ok_Cons mid_ok_def level_ok_Cons)
  qed
qed

section \<open>The matcher on suffixes\<close>

fun tm :: "cstring \<Rightarrow> cstring \<Rightarrow> bool option" where
  "tm (c # s) (d # t) =
     (if c = d then
        (if t = [] \<and> s = ''/#'' then Some True
         else if s = [] \<and> t = [] then Some True
         else if t = [] \<and> s = ''+'' then Some True
         else tm s t)
      else if c = PLUS then
        (let t = dropWhile (\<lambda>x. x \<noteq> SLASH) (d # t)
         in if t = [] \<and> s = [] then Some True else tm s t)
      else if c = HASH then Some (s = [])
      else Some False)"
| "tm [] [] = None"
| "tm (c # s) [] = Some False"
| "tm [] (d # t) = Some False"

lemma skip_level_drop: "drop (skip_level t i) t = dropWhile (\<lambda>x. x \<noteq> SLASH) (drop i t)"
proof (induction t i rule: skip_level.induct)
  case (1 t i)
  show ?case
  proof (cases "i < length t")
    case True
    then have d: "drop i t = t ! i # drop (i + 1) t" by (simp add: Cons_nth_drop_Suc)
    show ?thesis
      using "1" True by (subst skip_level.simps) (simp add: d)
  next
    case False
    then show ?thesis by (subst skip_level.simps) simp
  qed
qed

lemma skip_level_le: "i \<le> length t \<Longrightarrow> skip_level t i \<le> length t"
  by (induction t i rule: skip_level.induct) (subst skip_level.simps, auto)

lemma match_loop_tm:
  "spos \<le> length sub \<Longrightarrow> tpos \<le> length topic \<Longrightarrow>
   match_loop sub topic spos tpos = tm (drop spos sub) (drop tpos topic)"
proof (induction sub topic spos tpos rule: match_loop.induct)
  case (1 sub topic spos tpos)
  show ?case
  proof (cases "spos < length sub \<and> tpos < length topic")
    case False
    have l: "match_loop sub topic spos tpos = (if tpos < length topic \<or> spos < length sub then Some False else None)"
      using False by (subst match_loop.simps) (simp add: Let_def)
    show ?thesis
    proof (cases "spos < length sub")
      case True
      then have "tpos = length topic" "drop spos sub = sub ! spos # drop (spos + 1) sub"
        using False "1.prems" by (auto simp: Cons_nth_drop_Suc)
      then show ?thesis using True l by simp
    next
      case sp: False
      then have "spos = length sub" using "1.prems" by simp
      then show ?thesis
        using l by (cases "tpos < length topic") (simp_all add: Cons_nth_drop_Suc [symmetric])
    qed
  next
    case True
    define s t where "s = drop (spos + 1) sub" and "t = drop (tpos + 1) topic"
    have d: "drop spos sub = sub ! spos # s" "drop tpos topic = topic ! tpos # t"
      using True by (simp_all add: s_def t_def Cons_nth_drop_Suc)
    have len: "length s = length sub - (spos + 1)" "length t = length topic - (tpos + 1)"
      by (simp_all add: s_def t_def)
    have a: "(tpos + 1 = length topic \<and> spos + 3 = length sub \<and> cchar sub (spos + 1) = SLASH \<and> cchar sub (spos + 2) = HASH)
        \<longleftrightarrow> t = [] \<and> s = ''/#''"
    proof -
      have "s = ''/#'' \<longleftrightarrow> length s = 2 \<and> cchar s 0 = SLASH \<and> cchar s 1 = HASH"
        by (cases s; cases "tl s"; cases "tl (tl s)") (auto simp: cchar_def)
      then show ?thesis using True len by (auto simp: s_def t_def cchar_drop)
    qed
    have b: "(spos + 1 = length sub \<and> tpos + 1 = length topic) \<longleftrightarrow> s = [] \<and> t = []"
      using True by (auto simp: s_def t_def)
    have c: "(tpos + 1 = length topic \<and> spos + 1 + 1 = length sub \<and> cchar sub (spos + 1) = PLUS) \<longleftrightarrow> t = [] \<and> s = ''+''"
    proof -
      have "s = ''+'' \<longleftrightarrow> length s = 1 \<and> cchar s 0 = PLUS"
        by (cases s; cases "tl s") (auto simp: cchar_def)
      then show ?thesis using True len by (auto simp: s_def t_def cchar_drop)
    qed
    have e: "spos + 1 = length sub \<longleftrightarrow> s = []" using True by (auto simp: s_def)
    show ?thesis
    proof (cases "sub ! spos = topic ! tpos")
      case eq: True
      have IH: "\<not> (t = [] \<and> s = ''/#'') \<Longrightarrow> \<not> (s = [] \<and> t = []) \<Longrightarrow> \<not> (t = [] \<and> s = ''+'') \<Longrightarrow>
          match_loop sub topic (spos + 1) (tpos + 1) = tm s t"
        using "1.IH"(1) [OF refl refl True eq _ refl refl] True unfolding a b c s_def t_def by simp
      show ?thesis
        using True eq IH unfolding d by (subst match_loop.simps) (simp only: Let_def a b c tm.simps simp_thms if_True if_False; auto)
    next
      case neq: False
      show ?thesis
      proof (cases "sub ! spos = PLUS")
        case plus: True
        define tp where "tp = skip_level topic tpos"
        have tp: "drop tp topic = dropWhile (\<lambda>x. x \<noteq> SLASH) (topic ! tpos # t)" "tp \<le> length topic"
          using skip_level_drop [of topic tpos] d(2) skip_level_le [of tpos topic] True by (simp_all add: tp_def)
        have z: "tp = length topic \<longleftrightarrow> drop tp topic = []" using tp(2) by auto
        have IH: "\<not> (tp = length topic \<and> spos + 1 = length sub) \<Longrightarrow>
            match_loop sub topic (spos + 1) tp = tm s (drop tp topic)"
          using "1.IH"(2) [OF refl refl True neq plus refl tp_def] True tp(2) unfolding s_def by simp
        have "match_loop sub topic spos tpos =
            (if tp = length topic \<and> spos + 1 = length sub then Some True else match_loop sub topic (spos + 1) tp)"
          using True neq plus by (subst match_loop.simps) (simp add: Let_def tp_def)
        moreover have "tm (drop spos sub) (drop tpos topic) =
            (if drop tp topic = [] \<and> s = [] then Some True else tm s (drop tp topic))"
          using neq plus unfolding d tp(1) by (simp only: tm.simps Let_def simp_thms if_False if_True)
        ultimately show ?thesis using IH z e by presburger
      next
        case False
        then show ?thesis
          using True neq unfolding d by (subst match_loop.simps) (simp add: Let_def e [simplified])
      qed
    qed
  qed
qed

section \<open>The matcher on levels\<close>

fun lm :: "cstring list \<Rightarrow> cstring list \<Rightarrow> bool" where
  "lm [] ts \<longleftrightarrow> ts = []"
| "lm (f # fs) [] \<longleftrightarrow> f = ''#'' \<and> fs = []"
| "lm (f # fs) (t # ts) \<longleftrightarrow>
     (if f = ''#'' \<and> fs = [] then \<not> (t = [] \<and> ts = [])
      else if f = ''+'' \<and> fs = [''#''] \<and> ts = [] then False
      else (f = ''+'' \<or> f = t) \<and> lm fs ts)"

definition plain :: "cstring \<Rightarrow> bool" where
  "plain t \<longleftrightarrow> PLUS \<notin> set t \<and> HASH \<notin> set t"

definition mid_res :: "cstring \<Rightarrow> cstring \<Rightarrow> bool" where
  "mid_res s t \<longleftrightarrow> hd (levels s) = hd (levels t) \<and> lm (tl (levels s)) (tl (levels t))"

lemma levels_inj: "levels s = levels t \<Longrightarrow> s = t"
proof (induction s arbitrary: t)
  case Nil
  then show ?case by (cases t) (auto split: if_splits dest: sym)
next
  case (Cons c s)
  note prems = Cons.prems and IH = Cons.IH
  obtain h ts where s: "levels s = h # ts" using levels_Cons_ex by blast
  show ?case
  proof (cases t)
    case Nil
    then show ?thesis using prems by (auto split: if_splits)
  next
    case (Cons d t')
    obtain h' ts' where "levels t' = h' # ts'" using levels_Cons_ex by blast
    then show ?thesis using Cons prems s IH [of t'] by (auto split: if_splits)
  qed
qed

lemma levels_eq_single: "SLASH \<notin> set x \<Longrightarrow> levels s = [x] \<longleftrightarrow> s = x"
  using levels_inj [of s x] by (auto simp: levels_single)

lemma lm_step:
  assumes "c \<noteq> PLUS" "c \<noteq> HASH"
  shows "lm (levels (c # s)) (levels (c # t)) = (if c = SLASH then lm (levels s) (levels t) else mid_res s t)"
  using assms by (auto simp: mid_res_def)

lemma mid_res_step: "mid_res (c # s) (c # t) = (if c = SLASH then lm (levels s) (levels t) else mid_res s t)"
  by (simp add: mid_res_def)

lemma dropWhile_levels:
  "levels t = takeWhile (\<lambda>x. x \<noteq> SLASH) t # tl (levels (dropWhile (\<lambda>x. x \<noteq> SLASH) t))"
  by (induction t) auto

lemma lm_Nil: "lm fs [] \<longleftrightarrow> fs = [] \<or> fs = [''#'']"
  by (cases fs) auto

lemma dropWhile_hd_slash: "dropWhile (\<lambda>x. x \<noteq> SLASH) t = [] \<or> hd (dropWhile (\<lambda>x. x \<noteq> SLASH) t) = SLASH"
  using hd_dropWhile [of "\<lambda>x. x \<noteq> SLASH" t] by blast

lemma tm_levels:
  "plain t \<Longrightarrow>
    (filter_ok (levels s) \<longrightarrow> t \<noteq> [] \<or> s \<notin> {'''', ''+'', ''/#''} \<longrightarrow> tm s t = Some (lm (levels s) (levels t))) \<and>
    (mid_ok (levels s) \<longrightarrow> t \<noteq> [] \<or> s \<notin> {'''', ''/#''} \<longrightarrow> tm s t = Some (mid_res s t))"
proof (induction s t rule: tm.induct)
  case (1 c s d t)
  have pl: "plain t" "d \<noteq> PLUS" "d \<noteq> HASH" using "1.prems" by (auto simp: plain_def)
  obtain h ts where hs: "levels s = h # ts" using levels_Cons_ex by blast
  show ?case
  proof (cases "c = d")
    case True
    let ?next = "\<not> (t = [] \<and> s = ''/#'') \<and> \<not> (s = [] \<and> t = []) \<and> \<not> (t = [] \<and> s = ''+'')"
    have tm: "tm (c # s) (d # t) = (if ?next then tm s t else Some True)"
      using True by auto
    have st: "lm (levels (c # s)) (levels (d # t)) = mid_res (c # s) (d # t)"
      using lm_step [of c s t] mid_res_step [of c s t] pl True by simp
    have fo: "c = SLASH \<Longrightarrow> filter_ok (levels s)" "c \<noteq> SLASH \<Longrightarrow> mid_ok (levels s)"
      if "filter_ok (levels (c # s)) \<or> mid_ok (levels (c # s))"
      using that pl True hs by (auto simp: filter_ok_Cons mid_ok_def level_ok_Cons)
    have "tm (c # s) (d # t) = Some (mid_res (c # s) (d # t))"
      if ok: "filter_ok (levels (c # s)) \<or> mid_ok (levels (c # s))"
    proof (cases ?next)
      case n: True
      have IH: "(filter_ok (levels s) \<longrightarrow> t \<noteq> [] \<or> s \<notin> {'''', ''+'', ''/#''} \<longrightarrow> tm s t = Some (lm (levels s) (levels t))) \<and>
          (mid_ok (levels s) \<longrightarrow> t \<noteq> [] \<or> s \<notin> {'''', ''/#''} \<longrightarrow> tm s t = Some (mid_res s t))"
        using "1.IH"(1) [OF True] n pl(1) by blast
      show ?thesis
        using IH fo ok n tm True mid_res_step [of c s t] by (cases "c = SLASH") auto
    next
      case False
      then consider "t = []" "s = ''/#''" | "t = []" "s = []" | "t = []" "s = ''+''" by blast
      then have "mid_res (c # s) (d # t)"
      proof cases
        case 3
        then have "c = SLASH" using ok pl True by (auto simp: filter_ok_Cons mid_ok_def level_ok_Cons split: if_splits)
        then show ?thesis using 3 True by (simp add: mid_res_def)
      qed (use True in \<open>auto simp: mid_res_def\<close>)
      then show ?thesis unfolding tm if_not_P [OF False] by simp
    qed
    then show ?thesis using st by simp
  next
    case neq: False
    obtain h' ts' where hd': "levels (d # t) = h' # ts'" using levels_Cons_ex by blast
    consider "c = PLUS" | "c = HASH" | "c \<noteq> PLUS" "c \<noteq> HASH" by blast
    then show ?thesis
    proof cases
      case plus: 1
      define r where "r = dropWhile (\<lambda>x. x \<noteq> SLASH) (d # t)"
      have tm: "tm (c # s) (d # t) = (if r = [] \<and> s = [] then Some True else tm s r)"
        unfolding r_def plus using neq plus by (simp only: tm.simps Let_def simp_thms if_False if_True)
      have plr: "plain r" using "1.prems" set_dropWhileD unfolding plain_def r_def by fast
      have IH: "mid_ok (levels s) \<Longrightarrow> r \<noteq> [] \<Longrightarrow> \<not> (r = [] \<and> s = []) \<Longrightarrow> tm s r = Some (mid_res s r)"
        using "1.IH"(2) [OF neq plus r_def _ plr] by blast
      have r0: "r = [] \<or> hd r = SLASH" unfolding r_def by (rule dropWhile_hd_slash)
      have tl: "ts' = tl (levels r)" using dropWhile_levels [of "d # t"] unfolding hd' r_def [symmetric] by (metis list.sel(3))
      have hr: "hd (levels r) = []" "r \<noteq> [] \<Longrightarrow> tl (levels r) \<noteq> []"
        using r0 levels_hd_nil [of r] levels_tl_nil [of r] by (cases r; auto)+
      have "tm (c # s) (d # t) = Some (lm (levels (c # s)) (levels (d # t)))" if ok: "filter_ok (levels (c # s))"
      proof -
        have h0: "h = []" "filter_ok ts" using ok plus hs by (auto simp: filter_ok_Cons level_ok_Cons)
        then have lc: "levels (c # s) = ''+'' # ts" using hs plus by simp
        have tsn: "s \<noteq> [] \<Longrightarrow> ts \<noteq> []"
          using levels_hd_nil [of s] levels_tl_nil [of s] hs h0 by (cases s) auto
        show ?thesis
        proof (cases "r = []")
          case True
          then show ?thesis
            using tm lc hd' tl hs tsn unfolding lc hd' by (cases s) (auto simp: lm_Nil)
        next
          case False
          then have "tm s r = Some (mid_res s r)" using IH h0 hs by (simp add: mid_ok_def)
          then show ?thesis
            using tm False hr h0 hs unfolding lc hd' tl by (auto simp: mid_res_def)
        qed
      qed
      moreover have "\<not> mid_ok (levels (c # s))" using plus hs by (simp add: mid_ok_def)
      ultimately show ?thesis by blast
    next
      case hash: 2
      have "\<not> mid_ok (levels (c # s))" using hash hs by (simp add: mid_ok_def)
      moreover have "tm (c # s) (d # t) = Some (lm (levels (c # s)) (levels (d # t)))" if "filter_ok (levels (c # s))"
      proof -
        have "h = []" "ts = []" using that hash hs by (auto simp: filter_ok_Cons level_ok_Cons)
        then have "s = []" "levels (c # s) = [''#'']"
          using levels_eq_single [of "[]" s] hs hash by auto
        then show ?thesis using hash neq by auto
      qed
      ultimately show ?thesis by blast
    next
      case 3
      have "hd (levels (c # s)) \<noteq> hd (levels (d # t))" using neq by auto
      moreover have "hd (levels (c # s)) \<noteq> ''+''" "hd (levels (c # s)) \<noteq> ''#''" using 3 by auto
      moreover obtain h'' ts'' where "levels (c # s) = h'' # ts''" using levels_Cons_ex by blast
      ultimately have "\<not> lm (levels (c # s)) (levels (d # t))" "\<not> mid_res (c # s) (d # t)"
        unfolding mid_res_def hd' by auto
      moreover have "tm (c # s) (d # t) = Some False" using neq 3 by (simp only: tm.simps if_False)
      ultimately show ?thesis by simp
    qed
  qed
next
  case 2
  show ?case by simp
next
  case (3 c s)
  obtain h ts where ts: "levels s = h # ts" using levels_Cons_ex by blast
  have "c = SLASH \<Longrightarrow> s \<noteq> ''#'' \<Longrightarrow> levels s \<noteq> [''#'']" using levels_eq_single [of "''#''" s] by auto
  then show ?case using ts levels_eq_single [of "[]" s] by (auto simp: mid_res_def lm_Nil)
next
  case (4 d t)
  show ?case by (cases "d = SLASH") (auto simp: mid_res_def)
qed


text \<open>How the matcher of the access-control lists differs from level-wise matching: a final \<open>#\<close>
  does not stand for no level after a \<open>+\<close>, nor for one empty last level.\<close>

definition hash_gap :: "cstring list \<Rightarrow> cstring list \<Rightarrow> bool" where
  "hash_gap fs ts \<longleftrightarrow> fs \<noteq> [] \<and> last fs = ''#'' \<and>
     (length fs = length ts + 1 \<and> 2 \<le> length fs \<and> fs ! (length fs - 2) = ''+'' \<or>
      length fs = length ts \<and> last ts = [])"

lemma lm_tok_match:
  "filter_ok fs \<Longrightarrow> lm fs ts \<longleftrightarrow> tok_match fs ts \<and> \<not> hash_gap fs ts"
proof (induction fs ts rule: lm.induct)
  case (1 ts)
  then show ?case by (simp add: hash_gap_def)
next
  case (2 f fs)
  then show ?case by (auto simp: hash_gap_def)
next
  case (3 f fs t ts)
  show ?case
  proof (cases "fs = []")
    case True
    then show ?thesis by (auto simp: hash_gap_def)
  next
    case False
    have fo: "filter_ok fs" "f \<noteq> ''#''" using "3.prems" False by (auto simp: filter_ok_Cons)
    show ?thesis
    proof (cases "f = ''+'' \<and> fs = [''#''] \<and> ts = []")
      case True
      then show ?thesis by (simp add: hash_gap_def)
    next
      case g: False
      have IH: "lm fs ts = (tok_match fs ts \<and> \<not> hash_gap fs ts)"
        using "3.IH" fo g by blast
      have "hash_gap (f # fs) (t # ts) \<longleftrightarrow> hash_gap fs ts" if "tok_match fs ts"
      proof (cases "ts = []")
        case True
        then have "fs = [''#'']" using that False by (cases fs) auto
        then show ?thesis using True g by (auto simp: hash_gap_def)
      next
        case tsn: False
        then have "length fs = length ts + 1 \<Longrightarrow> 2 \<le> length fs" by (cases ts) auto
        then show ?thesis
          using False tsn by (auto simp: hash_gap_def nth_Cons' numeral_2_eq_2)
      qed
      then show ?thesis using IH fo g False by auto
    qed
  qed
qed

section \<open>Correctness of the checks, the matcher and the tokeniser\<close>

fun join_levels :: "cstring list \<Rightarrow> cstring" where
  "join_levels [] = []"
| "join_levels [t] = t"
| "join_levels (t # ts) = t @ SLASH # join_levels ts"

lemma join_levels_levels: "join_levels (levels s) = s"
proof (induction s)
  case (Cons c s)
  obtain h ts where "levels s = h # ts" using levels_Cons_ex by blast
  then show ?case using Cons by (cases ts) auto
qed simp

lemma pub_topic_loop_range: "pub_topic_loop s len = MOSQ_ERR_SUCCESS \<or> pub_topic_loop s len = MOSQ_ERR_INVAL"
  by (induction s len rule: pub_topic_loop.induct) auto

lemma sub_topic_loop_range: "sub_topic_loop c len s = MOSQ_ERR_SUCCESS \<or> sub_topic_loop c len s = MOSQ_ERR_INVAL"
  by (induction c len s rule: sub_topic_loop.induct) auto

text \<open>C25. The two topic checks accept exactly the well-formed strings: a published topic without
  wildcards, a subscription whose wildcards stand alone in their level and whose \<open>#\<close> is last, both
  of at most 65535 bytes; everything else is \<open>MOSQ_ERR_INVAL\<close>. The tokeniser of the subscription
  tree yields the levels of the string, behind one empty token unless it starts with \<open>$\<close>, and
  nothing of the string is lost.\<close>

theorem topic_checks_correct:
  assumes "NUL \<notin> set s"
  shows "mosquitto_pub_topic_check s =
      (if PLUS \<notin> set s \<and> HASH \<notin> set s \<and> length s \<le> 65535 then MOSQ_ERR_SUCCESS else MOSQ_ERR_INVAL) \<and>
    mosquitto_sub_topic_check s =
      (if filter_ok (levels s) \<and> length s \<le> 65535 then MOSQ_ERR_SUCCESS else MOSQ_ERR_INVAL) \<and>
    sub_topic_tokenise s = (if cchar s 0 = DOLLAR then [] else [[]]) @ levels s \<and>
    join_levels (levels s) = s \<and> (\<forall>t. SLASH \<in> set t \<longrightarrow> t \<notin> set (sub_topic_tokenise s))"
proof -
  have pub: "mosquitto_pub_topic_check s =
      (if PLUS \<notin> set s \<and> HASH \<notin> set s \<and> length s \<le> 65535 then MOSQ_ERR_SUCCESS else MOSQ_ERR_INVAL)"
    using pub_topic_loop_iff [of s 0] pub_topic_loop_range [of s 0]
    unfolding mosquitto_pub_topic_check_def add_0 by presburger
  have sub: "mosquitto_sub_topic_check s =
      (if filter_ok (levels s) \<and> length s \<le> 65535 then MOSQ_ERR_SUCCESS else MOSQ_ERR_INVAL)"
    using sub_topic_loop_iff [OF assms, of NUL 0] sub_topic_loop_range [of NUL 0 s]
    unfolding mosquitto_sub_topic_check_def add_0 by argo
  have tok: "sub_topic_tokenise s = (if cchar s 0 = DOLLAR then [] else [[]]) @ levels s"
    by (simp add: tokenise_levels)
  show ?thesis
    using pub sub tok join_levels_levels [of s] levels_no_slash [of _ s] by auto
qed

theorem topic_checks_correct_witness:
  "mosquitto_pub_topic_check ''$S/a'' = MOSQ_ERR_SUCCESS \<and>
   mosquitto_sub_topic_check ''$S/a'' = MOSQ_ERR_SUCCESS \<and>
   sub_topic_tokenise ''$S/a'' = [''$S'', ''a''] \<and>
   mosquitto_sub_topic_check ''b/+/#'' = MOSQ_ERR_SUCCESS \<and>
   mosquitto_sub_topic_check ''b+/#'' = MOSQ_ERR_INVAL \<and>
   sub_topic_tokenise ''/b'' = ['''', '''', ''b'']"
  using topic_checks_correct [of "''$S/a''"] topic_checks_correct [of "''b/+/#''"]
    topic_checks_correct [of "''b+/#''"] topic_checks_correct [of "''/b''"]
  by (simp add: filter_ok_def level_ok_def)

lemma topic_matches_sub_facts:
  assumes "NUL \<notin> set sub" "mosquitto_sub_topic_check sub = MOSQ_ERR_SUCCESS"
    "mosquitto_pub_topic_check topic = MOSQ_ERR_SUCCESS" "topic \<noteq> []"
  shows "mosquitto_topic_matches_sub sub topic =
    Some ((cchar sub 0 = DOLLAR \<longleftrightarrow> cchar topic 0 = DOLLAR) \<and>
      tok_match (levels sub) (levels topic) \<and> \<not> hash_gap (levels sub) (levels topic))"
proof -
  have fo: "filter_ok (levels sub)"
    using assms(1,2) sub_topic_loop_iff [of sub NUL 0] by (simp add: mosquitto_sub_topic_check_def)
  have pl: "plain topic"
    using assms(3) pub_topic_loop_iff [of topic 0] by (simp add: mosquitto_pub_topic_check_def plain_def)
  have "match_loop sub topic 0 0 = Some (lm (levels sub) (levels topic))"
    using match_loop_tm [of 0 sub 0 topic] tm_levels [OF pl, of sub] fo assms(4) by simp
  moreover have "sub = [] \<Longrightarrow> \<not> lm (levels sub) (levels topic)"
    using assms(4) levels_eq_single [of "[]" topic] by (cases "levels topic") auto
  ultimately show ?thesis
    using lm_tok_match [OF fo, of "levels topic"] assms(4)
    by (cases sub; cases topic) (auto simp: mosquitto_topic_matches_sub_def)
qed

text \<open>C10. On a filter and a topic that passed their checks the matcher of the access-control lists
  always decides, and its answer is level-wise matching within the same kind of tree (both or
  neither in a \<open>$\<close> tree), short of one gap: a final \<open>#\<close> stands for no level only after a level that
  is not \<open>+\<close>, and not for a single empty last level.\<close>

theorem topic_matches_sub_correct:
  assumes "NUL \<notin> set sub" "mosquitto_sub_topic_check sub = MOSQ_ERR_SUCCESS"
    "mosquitto_pub_topic_check topic = MOSQ_ERR_SUCCESS" "topic \<noteq> []"
  shows "mosquitto_topic_matches_sub sub topic =
    Some ((cchar sub 0 = DOLLAR \<longleftrightarrow> cchar topic 0 = DOLLAR) \<and>
      tok_match (levels sub) (levels topic) \<and> \<not> hash_gap (levels sub) (levels topic))"
  using assms by (rule topic_matches_sub_facts)

theorem topic_matches_sub_correct_witness:
  "mosquitto_topic_matches_sub ''a/#'' ''a/b'' = Some True \<and>
   mosquitto_topic_matches_sub ''a/#'' ''a'' = Some True \<and>
   mosquitto_topic_matches_sub ''a/#'' ''a/'' = Some False \<and> tok_match (levels ''a/#'') (levels ''a/'') \<and>
   mosquitto_topic_matches_sub ''+/#'' ''a'' = Some False \<and> tok_match (levels ''+/#'') (levels ''a'')"
  using topic_matches_sub_correct [of "''a/#''" "''a/b''"] topic_matches_sub_correct [of "''a/#''" "''a''"]
    topic_matches_sub_correct [of "''a/#''" "''a/''"] topic_matches_sub_correct [of "''+/#''" "''a''"]
  by (simp add: mosquitto_pub_topic_check_def mosquitto_sub_topic_check_def hash_gap_def)

end
