(* ===== verification/Mqtt_Types.thy ===== *)
theory Mqtt_Types
  imports Mqtt_Topic
begin

text \<open>
  The data of the MQTT broker, \<^verbatim>\<open>mosquitto14/mosquitto-1.4.2\<close>, from \<^verbatim>\<open>lib/mosquitto_internal.h\<close> and
  \<^verbatim>\<open>src/mosquitto_broker.h\<close>, in the configuration the repository builds (\<^verbatim>\<open>config.mk\<close>: persistence
  on; TLS, threads, bridges, websockets, SRV, SOCKS, the \<open>$SYS\<close> tree and memory tracking off).

  Pointers: contexts and stored messages live in two heaps of the database, \<open>db_ctx\<close> and
  \<open>db_store\<close>, and a pointer to one is its number there; \<open>m_live\<close> and \<open>st_live\<close> tell allocated from freed memory.
  Linked lists are lists, so that \<open>next\<close> and \<open>prev\<close> need no field. The queue of a
  context has a pointer to its last message besides, which the code does not always keep
  right: \<open>last_ptr\<close>. \<open>db_ub\<close> is set by a statement whose behaviour is undefined: it uses
  freed memory or fails an assertion. An open socket is a script of what \<open>read\<close> and \<open>write\<close> will return with the
  bytes the kernel took so far; \<open>INVALID_SOCKET\<close> is \<open>None\<close>.
\<close>

section \<open>Enumerations\<close>

datatype msg_direction = mosq_md_in | mosq_md_out

datatype msg_state =
    mosq_ms_invalid | mosq_ms_publish_qos0 | mosq_ms_publish_qos1 | mosq_ms_wait_for_puback
  | mosq_ms_publish_qos2 | mosq_ms_wait_for_pubrec | mosq_ms_resend_pubrel
  | mosq_ms_wait_for_pubrel | mosq_ms_resend_pubcomp | mosq_ms_wait_for_pubcomp
  | mosq_ms_send_pubrec | mosq_ms_queued

text \<open>The states of a client; those of bridges and of the SOCKS handshake do not occur.\<close>

datatype client_state =
    mosq_cs_new | mosq_cs_connected | mosq_cs_disconnecting | mosq_cs_connect_pending
  | mosq_cs_disconnected | mosq_cs_expiring

datatype mosq_protocol = mosq_p_invalid | mosq_p_mqtt31 | mosq_p_mqtt311

section \<open>Packets and sockets\<close>

record packet =
  pk_payload :: "byte list"
  pk_remaining_mult :: nat
  pk_remaining_length :: nat
  pk_packet_length :: nat
  pk_to_process :: nat
  pk_pos :: nat
  pk_mid :: u16
  pk_command :: byte
  pk_remaining_count :: int

definition packet_zero :: packet where
  "packet_zero = \<lparr>pk_payload = [], pk_remaining_mult = 0, pk_remaining_length = 0, pk_packet_length = 0,
     pk_to_process = 0, pk_pos = 0, pk_mid = 0, pk_command = 0, pk_remaining_count = 0\<rparr>"

text \<open>What one \<open>read\<close> finds: bytes (none at the end of the stream) or an error; what one \<open>write\<close>
  does: take up to so many bytes, or fail.\<close>

datatype net_in = Recv "byte list" | RecvErr int
datatype net_out = Sent nat | SendErr int

record sock =
  sk_fd :: int
  sk_in :: "net_in list"
  sk_out :: "net_out list"
  sk_wire :: "byte list"

definition EAGAIN :: int where "EAGAIN = 11"
definition ECONNRESET :: int where "ECONNRESET = 104"

section \<open>Messages\<close>

record msg_store =
  st_live :: bool
  st_db_id :: u64
  st_source_id :: cstring
  st_dest_ids :: "cstring list"
  st_ref_count :: int
  st_topic :: "cstring option"
  st_payload :: "byte list"
  st_source_mid :: u16
  st_mid :: u16
  st_qos :: nat
  st_retain :: bool

record client_msg =
  cm_store :: nat
  cm_timestamp :: int
  cm_mid :: u16
  cm_qos :: nat
  cm_retain :: bool
  cm_direction :: msg_direction
  cm_state :: msg_state
  cm_dup :: bool

record will_msg =
  will_topic :: cstring
  will_payload :: "byte list"
  will_qos :: nat
  will_retain :: bool

section \<open>Access control and listeners\<close>

record acl =
  acl_topic :: cstring
  acl_access :: nat
  acl_ucount :: nat
  acl_ccount :: nat

record acl_user =
  au_username :: "cstring option"
  au_acl :: "acl list"

record unpwd =
  up_username :: cstring
  up_password :: "cstring option"

record listener =
  li_mount_point :: "cstring option"
  li_max_connections :: int
  li_client_count :: int
  li_use_username_as_clientid :: bool

section \<open>Contexts\<close>

text \<open>The pointer \<open>last_msg\<close>: NULL, at the last message of the queue, or at a message that was
  freed.\<close>

datatype last_ptr = LNull | LTail | LFreed

text \<open>\<open>m_subs\<close> is the array \<open>subs\<close> of pointers into the subscription tree: a node is named by the
  topics on its path from the root.\<close>

record mosquitto =
  m_live :: bool
  m_ub :: bool
  m_sock :: "sock option"
  m_protocol :: mosq_protocol
  m_address :: "cstring option"
  m_id :: "cstring option"
  m_username :: "cstring option"
  m_password :: "cstring option"
  m_keepalive :: u16
  m_last_mid :: u16
  m_state :: client_state
  m_last_msg_in :: int
  m_last_msg_out :: int
  m_ping_t :: int
  m_in_packet :: packet
  m_current_out_packet :: "packet option"
  m_out_packet :: "packet list"
  m_will :: "will_msg option"
  m_clean_session :: bool
  m_is_dropping :: bool
  m_is_bridge :: bool
  m_msgs :: "client_msg list"
  m_last_msg :: last_ptr
  m_msg_count :: int
  m_msg_count12 :: int
  m_acl_list :: "acl_user option"
  m_listener :: "nat option"
  m_disconnect_t :: int
  m_subs :: "cstring list option list"

section \<open>The subscription tree and the database\<close>

datatype subhier = Subhier (h_topic: cstring) (h_subs: "(nat \<times> nat) list")
  (h_retained: "nat option") (h_children: "subhier list")

record mqtt3_config =
  cf_acl_file :: "cstring option"
  cf_allow_anonymous :: bool
  cf_allow_duplicate_messages :: bool
  cf_allow_zero_length_clientid :: bool
  cf_auto_id_prefix :: "cstring option"
  cf_clientid_prefixes :: "cstring option"
  cf_listeners :: "listener list"
  cf_message_size_limit :: nat
  cf_password_file :: "cstring option"
  cf_psk_file :: "cstring option"
  cf_persistence :: bool
  cf_autosave_interval :: int
  cf_autosave_on_changes :: bool
  cf_persistent_client_expiration :: int
  cf_queue_qos0_messages :: bool
  cf_retry_interval :: int
  cf_upgrade_outgoing_qos :: bool

text \<open>The two callbacks of an authentication plugin the broker uses here, when one is loaded.\<close>

record auth_plugin =
  ap_acl_check :: "cstring \<Rightarrow> cstring option \<Rightarrow> cstring \<Rightarrow> nat \<Rightarrow> int"
  ap_unpwd_check :: "cstring \<Rightarrow> cstring \<Rightarrow> int"

record mosq_db =
  db_last_db_id :: u64
  db_subs :: "subhier list"
  db_unpwd :: "unpwd list"
  db_psk_id :: "unpwd list"
  db_acl_list :: "acl_user list"
  db_acl_patterns :: "acl list"
  db_contexts_by_id :: "(cstring \<times> nat) list"
  db_contexts_by_sock :: "nat list"
  db_msg_store :: "nat list"
  db_msg_store_count :: int
  db_config :: mqtt3_config
  db_persistence_changes :: int
  db_auth_plugin :: "auth_plugin option"
  db_ll_for_free :: "nat list"
  db_max_inflight :: int
  db_max_queued :: int
  db_now :: int
  db_ctx :: "nat \<Rightarrow> mosquitto"
  db_next_ctx :: nat
  db_store :: "nat \<Rightarrow> msg_store"
  db_next_store :: nat
  db_ub :: bool

definition upd_ctx :: "nat \<Rightarrow> (mosquitto \<Rightarrow> mosquitto) \<Rightarrow> mosq_db \<Rightarrow> mosq_db" where
  "upd_ctx c f db = db\<lparr>db_ctx := (db_ctx db)(c := f (db_ctx db c))\<rparr>"

definition upd_store :: "nat \<Rightarrow> (msg_store \<Rightarrow> msg_store) \<Rightarrow> mosq_db \<Rightarrow> mosq_db" where
  "upd_store s f db = db\<lparr>db_store := (db_store db)(s := f (db_store db s))\<rparr>"

text \<open>The mount point of a context: \<open>context->listener->mount_point\<close>.\<close>

definition mount_point :: "mosq_db \<Rightarrow> mosquitto \<Rightarrow> cstring option" where
  "mount_point db m =
     (case m_listener m of None \<Rightarrow> None
      | Some l \<Rightarrow> if l < length (cf_listeners (db_config db))
                   then li_mount_point (cf_listeners (db_config db) ! l) else None)"

definition mosquitto_zero :: mosquitto where
  "mosquitto_zero = \<lparr>m_live = False, m_ub = False, m_sock = None, m_protocol = mosq_p_invalid, m_address = None, m_id = None,
     m_username = None, m_password = None, m_keepalive = 0, m_last_mid = 0, m_state = mosq_cs_new,
     m_last_msg_in = 0, m_last_msg_out = 0, m_ping_t = 0, m_in_packet = packet_zero,
     m_current_out_packet = None, m_out_packet = [], m_will = None, m_clean_session = False,
     m_is_dropping = False, m_is_bridge = False, m_msgs = [], m_last_msg = LNull, m_msg_count = 0,
     m_msg_count12 = 0, m_acl_list = None, m_listener = None, m_disconnect_t = 0, m_subs = []\<rparr>"

definition msg_store_zero :: msg_store where
  "msg_store_zero = \<lparr>st_live = False, st_db_id = 0, st_source_id = [], st_dest_ids = [], st_ref_count = 0,
     st_topic = None, st_payload = [], st_source_mid = 0, st_mid = 0, st_qos = 0, st_retain = False\<rparr>"

text \<open>The database before \<open>mqtt3_db_open\<close>, with the limits' initial values.\<close>

definition config_zero :: mqtt3_config where
  "config_zero = \<lparr>cf_acl_file = None, cf_allow_anonymous = True, cf_allow_duplicate_messages = False,
     cf_allow_zero_length_clientid = True, cf_auto_id_prefix = None, cf_clientid_prefixes = None, cf_listeners = [],
     cf_message_size_limit = 0, cf_password_file = None, cf_psk_file = None, cf_persistence = False,
     cf_autosave_interval = 1800, cf_autosave_on_changes = False, cf_persistent_client_expiration = 0,
     cf_queue_qos0_messages = False, cf_retry_interval = 20, cf_upgrade_outgoing_qos = False\<rparr>"

definition db_zero :: mosq_db where
  "db_zero = \<lparr>db_last_db_id = 0, db_subs = [], db_unpwd = [], db_psk_id = [], db_acl_list = [], db_acl_patterns = [],
     db_contexts_by_id = [], db_contexts_by_sock = [], db_msg_store = [], db_msg_store_count = 0,
     db_config = config_zero, db_persistence_changes = 0, db_auth_plugin = None, db_ll_for_free = [],
     db_max_inflight = 20, db_max_queued = 100, db_now = 0, db_ctx = (\<lambda>_. mosquitto_zero), db_next_ctx = 0,
     db_store = (\<lambda>_. msg_store_zero), db_next_store = 0, db_ub = False\<rparr>"

lemma upd_ctx_sel [simp]:
  "db_ctx (upd_ctx c f db) = (db_ctx db)(c := f (db_ctx db c))"
  "db_store (upd_ctx c f db) = db_store db"
  "db_next_ctx (upd_ctx c f db) = db_next_ctx db"
  "db_next_store (upd_ctx c f db) = db_next_store db"
  "db_subs (upd_ctx c f db) = db_subs db"
  "db_config (upd_ctx c f db) = db_config db"
  "db_ub (upd_ctx c f db) = db_ub db"
  "db_msg_store (upd_ctx c f db) = db_msg_store db"
  "db_msg_store_count (upd_ctx c f db) = db_msg_store_count db"
  "db_contexts_by_id (upd_ctx c f db) = db_contexts_by_id db"
  "db_contexts_by_sock (upd_ctx c f db) = db_contexts_by_sock db"
  "db_now (upd_ctx c f db) = db_now db"
  "db_max_inflight (upd_ctx c f db) = db_max_inflight db"
  "db_max_queued (upd_ctx c f db) = db_max_queued db"
  "db_acl_list (upd_ctx c f db) = db_acl_list db"
  "db_acl_patterns (upd_ctx c f db) = db_acl_patterns db"
  "db_auth_plugin (upd_ctx c f db) = db_auth_plugin db"
  "db_ll_for_free (upd_ctx c f db) = db_ll_for_free db"
  by (simp_all add: upd_ctx_def)

lemma upd_store_sel [simp]:
  "db_store (upd_store s g db) = (db_store db)(s := g (db_store db s))"
  "db_ctx (upd_store s g db) = db_ctx db"
  "db_next_ctx (upd_store s g db) = db_next_ctx db"
  "db_next_store (upd_store s g db) = db_next_store db"
  "db_subs (upd_store s g db) = db_subs db"
  "db_config (upd_store s g db) = db_config db"
  "db_ub (upd_store s g db) = db_ub db"
  "db_msg_store (upd_store s g db) = db_msg_store db"
  "db_msg_store_count (upd_store s g db) = db_msg_store_count db"
  "db_contexts_by_id (upd_store s g db) = db_contexts_by_id db"
  "db_contexts_by_sock (upd_store s g db) = db_contexts_by_sock db"
  "db_now (upd_store s g db) = db_now db"
  "db_max_inflight (upd_store s g db) = db_max_inflight db"
  "db_max_queued (upd_store s g db) = db_max_queued db"
  "db_acl_list (upd_store s g db) = db_acl_list db"
  "db_acl_patterns (upd_store s g db) = db_acl_patterns db"
  "db_auth_plugin (upd_store s g db) = db_auth_plugin db"
  "db_ll_for_free (upd_store s g db) = db_ll_for_free db"
  by (simp_all add: upd_store_def)

end
