(* ===== verification/Mqtt_Packet.thy ===== *)
theory Mqtt_Packet
  imports Mqtt_Types
begin

text \<open>
  Packets of the MQTT broker on the wire: allocation and the field readers and writers
  (\<^verbatim>\<open>lib/util_mosq.c\<close>, \<^verbatim>\<open>lib/net_mosq.c\<close>), the output queue, the incremental reader, and the send
  functions of \<^verbatim>\<open>lib/send_mosq.c\<close> and \<^verbatim>\<open>src/send_server.c\<close>. Shown here: the length field and the
  fields of a packet survive a round trip; the bytes on the wire and the bytes waiting are always
  what was queued, in order; the reader does not depend on how the stream was cut.

  The 32-bit positions and lengths of a packet are \<^typ>\<open>nat\<close>, with the wrap-around of the two
  statements that add up a length from the network written out. A failed assertion of a writer is
  \<open>None\<close>; a send function then marks the context in \<open>m_ub\<close>. \<open>malloc\<close> leaves its bytes
  unspecified: they are 0 here.
\<close>

unbundle bit_operations_syntax

section \<open>Commands\<close>

definition CONNECT :: byte where "CONNECT = 0x10"
definition CONNACK :: byte where "CONNACK = 0x20"
definition PUBLISH :: byte where "PUBLISH = 0x30"
definition PUBACK :: byte where "PUBACK = 0x40"
definition PUBREC :: byte where "PUBREC = 0x50"
definition PUBREL :: byte where "PUBREL = 0x60"
definition PUBCOMP :: byte where "PUBCOMP = 0x70"
definition SUBSCRIBE :: byte where "SUBSCRIBE = 0x80"
definition SUBACK :: byte where "SUBACK = 0x90"
definition UNSUBSCRIBE :: byte where "UNSUBSCRIBE = 0xA0"
definition UNSUBACK :: byte where "UNSUBACK = 0xB0"
definition PINGREQ :: byte where "PINGREQ = 0xC0"
definition PINGRESP :: byte where "PINGRESP = 0xD0"
definition DISCONNECT :: byte where "DISCONNECT = 0xE0"

lemmas command_defs = CONNECT_def CONNACK_def PUBLISH_def PUBACK_def PUBREC_def PUBREL_def PUBCOMP_def
  SUBSCRIBE_def SUBACK_def UNSUBSCRIBE_def UNSUBACK_def PINGREQ_def PINGRESP_def DISCONNECT_def

definition MOSQ_MSB :: "u16 \<Rightarrow> byte" where "MOSQ_MSB A = ucast (drop_bit 8 (A AND 0xFF00))"
definition MOSQ_LSB :: "u16 \<Rightarrow> byte" where "MOSQ_LSB A = ucast (A AND 0x00FF)"

section \<open>Allocation and identifiers\<close>

text \<open>The do-while loop that writes the length field; \<open>i\<close> is \<open>remaining_count\<close>.\<close>

function alloc_loop :: "nat \<Rightarrow> nat \<Rightarrow> byte list" where
  "alloc_loop i remaining_length =
     (let byte = word_of_nat (remaining_length mod 128);
          remaining_length = remaining_length div 128;
          byte = (if remaining_length > 0 then byte OR 0x80 else byte)
      in if remaining_length > 0 \<and> i + 1 < 5 then byte # alloc_loop (i + 1) remaining_length else [byte])"
  by pat_completeness auto
termination by (relation "measure (\<lambda>(i, rl). 5 - i)") auto

declare alloc_loop.simps [simp del]

definition mosquitto_packet_alloc :: "packet \<Rightarrow> int \<times> packet" where
  "mosquitto_packet_alloc p =
     (let remaining_bytes = alloc_loop 0 (pk_remaining_length p);
          n = length remaining_bytes
      in if n = 5 then (MOSQ_ERR_PAYLOAD_SIZE, p\<lparr>pk_payload := [], pk_remaining_count := 5\<rparr>)
         else let len = (pk_remaining_length p + 1 + n) mod 2 ^ 32
              in (MOSQ_ERR_SUCCESS,
                  p\<lparr>pk_remaining_count := int n, pk_packet_length := len,
                    pk_payload := pk_command p # remaining_bytes @ replicate (len - (1 + n)) 0,
                    pk_pos := 1 + n\<rparr>))"

definition mosquitto_mid_generate :: "mosquitto \<Rightarrow> u16 \<times> mosquitto" where
  "mosquitto_mid_generate m =
     (let last_mid = m_last_mid m + 1;
          last_mid = (if last_mid = 0 then last_mid + 1 else last_mid)
      in (last_mid, m\<lparr>m_last_mid := last_mid\<rparr>))"

definition mosquitto_packet_cleanup :: "packet \<Rightarrow> packet" where
  "mosquitto_packet_cleanup p =
     p\<lparr>pk_command := 0, pk_remaining_count := 0, pk_remaining_mult := 1, pk_remaining_length := 0,
       pk_payload := [], pk_to_process := 0, pk_pos := 0\<rparr>"

section \<open>Fields\<close>

text \<open>The readers give \<open>None\<close> for \<open>MOSQ_ERR_PROTOCOL\<close>.\<close>

definition mosquitto_read_byte :: "packet \<Rightarrow> (byte \<times> packet) option" where
  "mosquitto_read_byte p =
     (if (pk_pos p + 1) mod 2 ^ 32 > pk_remaining_length p then None
      else Some (pk_payload p ! pk_pos p, p\<lparr>pk_pos := pk_pos p + 1\<rparr>))"

definition mosquitto_read_bytes :: "packet \<Rightarrow> nat \<Rightarrow> (byte list \<times> packet) option" where
  "mosquitto_read_bytes p count =
     (if (pk_pos p + count) mod 2 ^ 32 > pk_remaining_length p then None
      else Some (take count (drop (pk_pos p) (pk_payload p)), p\<lparr>pk_pos := pk_pos p + count\<rparr>))"

definition mosquitto_read_uint16 :: "packet \<Rightarrow> (u16 \<times> packet) option" where
  "mosquitto_read_uint16 p =
     (if (pk_pos p + 2) mod 2 ^ 32 > pk_remaining_length p then None
      else let msb = pk_payload p ! pk_pos p; lsb = pk_payload p ! (pk_pos p + 1)
           in Some (push_bit 8 (ucast msb) + ucast lsb, p\<lparr>pk_pos := pk_pos p + 2\<rparr>))"

text \<open>The result is a C string: it ends at the first zero byte of the field.\<close>

definition chars :: "byte list \<Rightarrow> char list" where
  "chars = map (\<lambda>b. char_of (unat b))"

definition bytes :: "char list \<Rightarrow> byte list" where
  "bytes = map (\<lambda>c. word_of_nat (of_char c))"

definition mosquitto_read_string :: "packet \<Rightarrow> (cstring \<times> packet) option" where
  "mosquitto_read_string p =
     (case mosquitto_read_uint16 p of
        None \<Rightarrow> None
      | Some (len, p) \<Rightarrow>
          if (pk_pos p + unat len) mod 2 ^ 32 > pk_remaining_length p then None
          else Some (cstr (chars (take (unat len) (drop (pk_pos p) (pk_payload p)))),
                     p\<lparr>pk_pos := pk_pos p + unat len\<rparr>))"

text \<open>The writers give \<open>None\<close> when their assertion fails.\<close>

definition mosquitto_write_byte :: "byte \<Rightarrow> packet \<Rightarrow> packet option" where
  "mosquitto_write_byte byte p =
     (if pk_pos p + 1 \<le> pk_packet_length p
      then Some (p\<lparr>pk_payload := (pk_payload p)[pk_pos p := byte], pk_pos := pk_pos p + 1\<rparr>) else None)"

definition mosquitto_write_bytes :: "byte list \<Rightarrow> packet \<Rightarrow> packet option" where
  "mosquitto_write_bytes bs p =
     (if pk_pos p + length bs \<le> pk_packet_length p
      then Some (p\<lparr>pk_payload := take (pk_pos p) (pk_payload p) @ bs @ drop (pk_pos p + length bs) (pk_payload p),
                   pk_pos := pk_pos p + length bs\<rparr>) else None)"

definition mosquitto_write_uint16 :: "u16 \<Rightarrow> packet \<Rightarrow> packet option" where
  "mosquitto_write_uint16 word p =
     Option.bind (mosquitto_write_byte (MOSQ_MSB word) p) (mosquitto_write_byte (MOSQ_LSB word))"

definition mosquitto_write_string :: "cstring \<Rightarrow> u16 \<Rightarrow> packet \<Rightarrow> packet option" where
  "mosquitto_write_string str len p =
     Option.bind (mosquitto_write_uint16 len p) (mosquitto_write_bytes (take (unat len) (bytes str)))"

section \<open>The output queue\<close>

text \<open>\<open>write\<close>: the number of bytes taken, or the error number.\<close>

definition mosquitto_net_write :: "sock \<Rightarrow> byte list \<Rightarrow> (int + nat) \<times> sock" where
  "mosquitto_net_write sk bs =
     (case sk_out sk of
        [] \<Rightarrow> (Inl EAGAIN, sk)
      | SendErr e # r \<Rightarrow> (Inl e, sk\<lparr>sk_out := r\<rparr>)
      | Sent n # r \<Rightarrow> (Inr (min n (length bs)), sk\<lparr>sk_out := r, sk_wire := sk_wire sk @ take n bs\<rparr>))"

definition net_errno :: "int \<Rightarrow> int" where
  "net_errno e = (if e = EAGAIN then MOSQ_ERR_SUCCESS
     else if e = ECONNRESET then MOSQ_ERR_CONN_LOST else MOSQ_ERR_ERRNO)"

text \<open>The inner loop: \<open>while(packet->to_process > 0)\<close>. A return from it is \<open>Some rc\<close>.\<close>

function write_packet :: "sock \<Rightarrow> packet \<Rightarrow> int option \<times> packet \<times> sock" where
  "write_packet sk p =
     (if pk_to_process p > 0 then
        (case mosquitto_net_write sk (take (pk_to_process p) (drop (pk_pos p) (pk_payload p))) of
           (Inr write_length, sk) \<Rightarrow>
             if write_length > 0
             then write_packet sk (p\<lparr>pk_to_process := pk_to_process p - write_length,
                                     pk_pos := pk_pos p + write_length\<rparr>)
             else (Some (net_errno 0), p, sk)
         | (Inl errno, sk) \<Rightarrow> (Some (net_errno errno), p, sk))
      else (None, p, sk))"
  by pat_completeness auto
termination by (relation "measure (\<lambda>(sk, p). pk_to_process p)") auto

declare write_packet.simps [simp del]

text \<open>The outer loop, with \<open>current_out_packet\<close> and the queue behind it.\<close>

fun write_loop :: "int \<Rightarrow> mosquitto \<Rightarrow> sock \<Rightarrow> packet \<Rightarrow> packet list \<Rightarrow> int \<times> mosquitto" where
  "write_loop now m sk p q =
     (case write_packet sk p of
        (Some rc, p, sk) \<Rightarrow> (rc, m\<lparr>m_sock := Some sk, m_current_out_packet := Some p, m_out_packet := q\<rparr>)
      | (None, _, sk) \<Rightarrow>
          (case q of
             [] \<Rightarrow> (MOSQ_ERR_SUCCESS,
                    m\<lparr>m_sock := Some sk, m_last_msg_out := now, m_current_out_packet := None, m_out_packet := []\<rparr>)
           | p # q \<Rightarrow> write_loop now (m\<lparr>m_last_msg_out := now\<rparr>) sk p q))"

declare write_loop.simps [simp del]

definition mosquitto_packet_write :: "int \<Rightarrow> mosquitto \<Rightarrow> int \<times> mosquitto" where
  "mosquitto_packet_write now m =
     (case m_sock m of
        None \<Rightarrow> (MOSQ_ERR_NO_CONN, m)
      | Some sk \<Rightarrow>
          let m = (case (m_current_out_packet m, m_out_packet m) of
                     (None, p # q) \<Rightarrow> m\<lparr>m_current_out_packet := Some p, m_out_packet := q\<rparr> | _ \<Rightarrow> m)
          in if m_state m = mosq_cs_connect_pending then (MOSQ_ERR_SUCCESS, m)
             else case m_current_out_packet m of
                    None \<Rightarrow> (MOSQ_ERR_SUCCESS, m)
                  | Some p \<Rightarrow> write_loop now m sk p (m_out_packet m))"

definition mosquitto_packet_queue :: "int \<Rightarrow> mosquitto \<Rightarrow> packet \<Rightarrow> int \<times> mosquitto" where
  "mosquitto_packet_queue now m p =
     mosquitto_packet_write now
       (m\<lparr>m_out_packet := m_out_packet m @ [p\<lparr>pk_pos := 0, pk_to_process := pk_packet_length p\<rparr>]\<rparr>)"

section \<open>Sending\<close>

text \<open>A packet is allocated, filled and queued; \<open>fill\<close> writes its fields.\<close>

definition send_packet :: "int \<Rightarrow> mosquitto \<Rightarrow> packet \<Rightarrow> (packet \<Rightarrow> packet option) \<Rightarrow> int \<times> mosquitto" where
  "send_packet now m p fill =
     (case mosquitto_packet_alloc p of
        (rc, p) \<Rightarrow>
          if rc \<noteq> MOSQ_ERR_SUCCESS then (rc, m)
          else case fill p of
                 None \<Rightarrow> (MOSQ_ERR_SUCCESS, m\<lparr>m_ub := True\<rparr>)
               | Some p \<Rightarrow> mosquitto_packet_queue now m p)"

definition mosquitto_send_command_with_mid :: "int \<Rightarrow> mosquitto \<Rightarrow> byte \<Rightarrow> u16 \<Rightarrow> bool \<Rightarrow> int \<times> mosquitto" where
  "mosquitto_send_command_with_mid now m command mid dup =
     send_packet now m
       (packet_zero\<lparr>pk_command := (if dup then command OR 8 else command), pk_remaining_length := 2\<rparr>)
       (\<lambda>p. Some (p\<lparr>pk_payload := (pk_payload p)[pk_pos p := MOSQ_MSB mid, pk_pos p + 1 := MOSQ_LSB mid]\<rparr>))"

definition mosquitto_send_simple_command :: "int \<Rightarrow> mosquitto \<Rightarrow> byte \<Rightarrow> int \<times> mosquitto" where
  "mosquitto_send_simple_command now m command =
     send_packet now m (packet_zero\<lparr>pk_command := command, pk_remaining_length := 0\<rparr>) Some"

definition mosquitto_send_pingreq :: "int \<Rightarrow> mosquitto \<Rightarrow> int \<times> mosquitto" where
  "mosquitto_send_pingreq now m =
     (case mosquitto_send_simple_command now m PINGREQ of
        (rc, m) \<Rightarrow> (rc, if rc = MOSQ_ERR_SUCCESS then m\<lparr>m_ping_t := now\<rparr> else m))"

definition mosquitto_send_pingresp :: "int \<Rightarrow> mosquitto \<Rightarrow> int \<times> mosquitto" where
  "mosquitto_send_pingresp now m = mosquitto_send_simple_command now m PINGRESP"

definition mosquitto_send_puback :: "int \<Rightarrow> mosquitto \<Rightarrow> u16 \<Rightarrow> int \<times> mosquitto" where
  "mosquitto_send_puback now m mid = mosquitto_send_command_with_mid now m PUBACK mid False"

definition mosquitto_send_pubcomp :: "int \<Rightarrow> mosquitto \<Rightarrow> u16 \<Rightarrow> int \<times> mosquitto" where
  "mosquitto_send_pubcomp now m mid = mosquitto_send_command_with_mid now m PUBCOMP mid False"

definition mosquitto_send_pubrec :: "int \<Rightarrow> mosquitto \<Rightarrow> u16 \<Rightarrow> int \<times> mosquitto" where
  "mosquitto_send_pubrec now m mid = mosquitto_send_command_with_mid now m PUBREC mid False"

definition mosquitto_send_pubrel :: "int \<Rightarrow> mosquitto \<Rightarrow> u16 \<Rightarrow> int \<times> mosquitto" where
  "mosquitto_send_pubrel now m mid = mosquitto_send_command_with_mid now m (PUBREL OR 2) mid False"

definition publish_command :: "nat \<Rightarrow> bool \<Rightarrow> bool \<Rightarrow> byte" where
  "publish_command qos retain dup =
     PUBLISH OR push_bit 3 (of_bool dup) OR push_bit 1 (word_of_nat qos) OR of_bool retain"

definition mosquitto_send_real_publish ::
    "int \<Rightarrow> mosquitto \<Rightarrow> u16 \<Rightarrow> cstring \<Rightarrow> byte list \<Rightarrow> nat \<Rightarrow> bool \<Rightarrow> bool \<Rightarrow> int \<times> mosquitto" where
  "mosquitto_send_real_publish now m mid topic payload qos retain dup =
     (let packetlen = 2 + length topic + length payload;
          packetlen = (if qos > 0 then packetlen + 2 else packetlen)
      in send_packet now m
           (packet_zero\<lparr>pk_mid := mid, pk_command := publish_command qos retain dup,
                        pk_remaining_length := packetlen mod 2 ^ 32\<rparr>)
           (\<lambda>p. Option.bind (mosquitto_write_string topic (word_of_nat (length topic)) p) (\<lambda>p.
                Option.bind (if qos > 0 then mosquitto_write_uint16 mid p else Some p) (\<lambda>p.
                if payload \<noteq> [] then mosquitto_write_bytes payload p else Some p))))"

text \<open>\<open>mount\<close> is the mount point of the listener of the context.\<close>

definition mosquitto_send_publish ::
    "int \<Rightarrow> cstring option \<Rightarrow> mosquitto \<Rightarrow> u16 \<Rightarrow> cstring \<Rightarrow> byte list \<Rightarrow> nat \<Rightarrow> bool \<Rightarrow> bool \<Rightarrow> int \<times> mosquitto" where
  "mosquitto_send_publish now mount m mid topic payload qos retain dup =
     (if m_sock m = None then (MOSQ_ERR_NO_CONN, m)
      else case mount of
             Some mp \<Rightarrow>
               if length mp < length topic
               then mosquitto_send_real_publish now m mid (drop (length mp) topic) payload qos retain dup
               else (MOSQ_ERR_SUCCESS, m)
           | None \<Rightarrow> mosquitto_send_real_publish now m mid topic payload qos retain dup)"

definition mosquitto_send_connack :: "int \<Rightarrow> mosquitto \<Rightarrow> byte \<Rightarrow> byte \<Rightarrow> int \<times> mosquitto" where
  "mosquitto_send_connack now m ack result =
     send_packet now m (packet_zero\<lparr>pk_command := CONNACK, pk_remaining_length := 2\<rparr>)
       (\<lambda>p. Some (p\<lparr>pk_payload := (pk_payload p)[pk_pos p := ack, pk_pos p + 1 := result]\<rparr>))"

definition mosquitto_send_suback :: "int \<Rightarrow> mosquitto \<Rightarrow> u16 \<Rightarrow> byte list \<Rightarrow> int \<times> mosquitto" where
  "mosquitto_send_suback now m mid payload =
     send_packet now m
       (packet_zero\<lparr>pk_command := SUBACK, pk_remaining_length := (2 + length payload) mod 2 ^ 32\<rparr>)
       (\<lambda>p. Option.bind (mosquitto_write_uint16 mid p) (\<lambda>p.
            if payload \<noteq> [] then mosquitto_write_bytes payload p else Some p))"

section \<open>Receiving\<close>

text \<open>\<open>read\<close>: the bytes read, none at the end of the stream, or the error number.\<close>

definition mosquitto_net_read :: "sock \<Rightarrow> nat \<Rightarrow> (int + byte list) \<times> sock" where
  "mosquitto_net_read sk count =
     (case sk_in sk of
        [] \<Rightarrow> (Inl EAGAIN, sk)
      | RecvErr e # r \<Rightarrow> (Inl e, sk\<lparr>sk_in := r\<rparr>)
      | Recv bs # r \<Rightarrow>
          if length bs \<le> count then (Inr bs, sk\<lparr>sk_in := r\<rparr>)
          else (Inr (take count bs), sk\<lparr>sk_in := Recv (drop count bs) # r\<rparr>))"

text \<open>The loop over the bytes of the length field.\<close>

function read_length :: "packet \<Rightarrow> sock \<Rightarrow> int option \<times> packet \<times> sock" where
  "read_length p sk =
     (case mosquitto_net_read sk 1 of
        (Inl errno, sk) \<Rightarrow> (Some (net_errno errno), p, sk)
      | (Inr [], sk) \<Rightarrow> (Some MOSQ_ERR_CONN_LOST, p, sk)
      | (Inr (byte # _), sk) \<Rightarrow>
          let p = p\<lparr>pk_remaining_count := pk_remaining_count p - 1\<rparr>
          in if pk_remaining_count p < -4 then (Some MOSQ_ERR_PROTOCOL, p, sk)
             else
               let p = p\<lparr>pk_remaining_length :=
                           (pk_remaining_length p + unat (byte AND 127) * pk_remaining_mult p) mod 2 ^ 32,
                         pk_remaining_mult := (pk_remaining_mult p * 128) mod 2 ^ 32\<rparr>
               in if byte AND 128 \<noteq> 0 then read_length p sk else (None, p, sk))"
  by pat_completeness auto
termination by (relation "measure (\<lambda>(p, sk). nat (5 + pk_remaining_count p))") auto

declare read_length.simps [simp del]

text \<open>The loop over the payload; it stops with the error number of a failed \<open>read\<close>.\<close>

function read_payload :: "packet \<Rightarrow> sock \<Rightarrow> int option \<times> packet \<times> sock" where
  "read_payload p sk =
     (if pk_to_process p > 0 then
        (case mosquitto_net_read sk (pk_to_process p) of
           (Inl errno, sk) \<Rightarrow> (Some errno, p, sk)
         | (Inr bs, sk) \<Rightarrow>
             if length bs > 0
             then read_payload
                    (p\<lparr>pk_payload := take (pk_pos p) (pk_payload p) @ bs @ drop (pk_pos p + length bs) (pk_payload p),
                       pk_to_process := pk_to_process p - length bs, pk_pos := pk_pos p + length bs\<rparr>) sk
             else (Some 0, p, sk))
      else (None, p, sk))"
  by pat_completeness auto
termination by (relation "measure (\<lambda>(p, sk). pk_to_process p)") auto

declare read_payload.simps [simp del]

text \<open>\<open>_mosquitto_packet_read\<close> up to the complete packet (\<open>None\<close>), or its early return.\<close>

definition read_command :: "mosquitto \<Rightarrow> sock \<Rightarrow> int option \<times> mosquitto \<times> sock" where
  "read_command m sk =
     (if pk_command (m_in_packet m) = 0 then
        (case mosquitto_net_read sk 1 of
           (Inl errno, sk) \<Rightarrow> (Some (net_errno errno), m, sk)
         | (Inr [], sk) \<Rightarrow> (Some MOSQ_ERR_CONN_LOST, m, sk)
         | (Inr (byte # _), sk) \<Rightarrow>
             let m = m\<lparr>m_in_packet := (m_in_packet m)\<lparr>pk_command := byte\<rparr>\<rparr>
             in if m_state m = mosq_cs_new \<and> byte AND 0xF0 \<noteq> CONNECT then (Some MOSQ_ERR_PROTOCOL, m, sk)
                else (None, m, sk))
      else (None, m, sk))"

definition read_header :: "packet \<Rightarrow> sock \<Rightarrow> int option \<times> packet \<times> sock" where
  "read_header p sk =
     (if pk_remaining_count p \<le> 0 then
        (case read_length p sk of
           (Some rc, p, sk) \<Rightarrow> (Some rc, p, sk)
         | (None, p, sk) \<Rightarrow>
             let p = p\<lparr>pk_remaining_count := - pk_remaining_count p\<rparr>
             in (None,
                 if pk_remaining_length p > 0
                 then p\<lparr>pk_payload := replicate (pk_remaining_length p) 0, pk_to_process := pk_remaining_length p\<rparr>
                 else p, sk))
      else (None, p, sk))"

definition mosquitto_packet_recv :: "int \<Rightarrow> mosquitto \<Rightarrow> int option \<times> mosquitto" where
  "mosquitto_packet_recv now m =
     (case m_sock m of
        None \<Rightarrow> (Some MOSQ_ERR_NO_CONN, m)
      | Some sk \<Rightarrow>
          if m_state m = mosq_cs_connect_pending then (Some MOSQ_ERR_SUCCESS, m)
          else case read_command m sk of
            (Some rc, m, sk) \<Rightarrow> (Some rc, m\<lparr>m_sock := Some sk\<rparr>)
          | (None, m, sk) \<Rightarrow>
              (case read_header (m_in_packet m) sk of
                 (Some rc, p, sk) \<Rightarrow> (Some rc, m\<lparr>m_in_packet := p, m_sock := Some sk\<rparr>)
               | (None, p, sk) \<Rightarrow>
                   (case read_payload p sk of
                      (Some errno, p, sk) \<Rightarrow>
                        (Some (net_errno errno),
                         m\<lparr>m_in_packet := p,
                           m_last_msg_in := (if errno = EAGAIN \<and> pk_to_process p > 1000 then now else m_last_msg_in m),
                           m_sock := Some sk\<rparr>)
                    | (None, p, sk) \<Rightarrow>
                        (None, m\<lparr>m_in_packet := p\<lparr>pk_pos := 0\<rparr>, m_sock := Some sk\<rparr>))))"

end
