(* ===== verification/Mqtt_Packet_Laws.thy ===== *)
theory Mqtt_Packet_Laws
  imports Mqtt_Packet
begin

text \<open>
  The laws of the packet layer: the length field, the output queue as a byte stream, and the
  incremental reader against a reader of a flat byte list.
\<close>

section \<open>Bits of bytes\<close>

lemma and_127: "unat (b AND 127 :: byte) = unat b mod 128"
proof -
  have "unat b AND 127 = take_bit 7 (unat b)" by (simp add: take_bit_eq_mask mask_eq_exp_minus_1)
  then show ?thesis by (simp add: unsigned_and_eq take_bit_eq_mod)
qed

lemma and_pow_zero: "(n :: nat) < 2 ^ k \<Longrightarrow> n AND 2 ^ k = 0"
proof -
  assume n: "n < 2 ^ k"
  have "bit n i \<Longrightarrow> i < k" for i
  proof (rule ccontr)
    assume "bit n i" "\<not> i < k"
    then have "2 ^ k \<le> (2 :: nat) ^ i" by simp
    then have "n div 2 ^ i = 0" using n by (intro div_less) linarith
    then show False using \<open>bit n i\<close> by (simp add: bit_iff_odd)
  qed
  then have "\<not> bit n k" by blast
  then show ?thesis by (intro bit_eqI) (auto simp: bit_and_iff bit_exp_iff)
qed

lemma unat_byte: "unat (b :: byte) < 256"
  using unsigned_less [of b, where ?'a = nat] by simp

lemma and_128: "(b AND 128 :: byte) \<noteq> 0 \<longleftrightarrow> 128 \<le> unat b"
proof -
  have l: "unat b < 256" by (rule unat_byte)
  have e: "(b AND 128 = 0) \<longleftrightarrow> unat b AND 128 = 0"
    by (simp add: unat_eq_zero [symmetric] unsigned_and_eq del: unat_eq_zero)
  show ?thesis
  proof (cases "unat b < 128")
    case True
    then show ?thesis using e and_pow_zero [of "unat b" 7] by simp
  next
    case False
    have "bit (unat b AND 128) 7 \<longleftrightarrow> odd (unat b div 128)"
      using bit_exp_iff [of 7 7, where ?'a = nat] by (simp add: bit_and_iff) (simp add: bit_iff_odd)
    moreover have "unat b div 128 = 1" using False l by linarith
    ultimately have "unat b AND 128 \<noteq> 0" by (metis bit_0_eq bot_apply bot_bool_def odd_one One_nat_def)
    then show ?thesis using e False by simp
  qed
qed

lemma or_128: "x < 128 \<Longrightarrow> unat ((word_of_nat x :: byte) OR 128) = x + 128"
proof -
  assume x: "x < 128"
  have "x AND 128 = 0" using and_pow_zero [of x 7] x by simp
  then have "x OR 128 = x + 128" using disjunctive_add_eq_or [of x 128] by simp
  then show ?thesis using x by (simp add: unsigned_or_eq unat_of_nat)
qed

lemma MSB_mask: "MOSQ_MSB A = ucast (drop_bit 8 (A AND push_bit 8 (mask 8)))"
  by (simp add: MOSQ_MSB_def mask_eq_exp_minus_1 push_bit_eq_mult)

lemma LSB_mask: "MOSQ_LSB A = ucast (A AND mask 8)"
  by (simp add: MOSQ_LSB_def mask_eq_exp_minus_1)

lemma MSB_LSB: "push_bit 8 (ucast (MOSQ_MSB w)) + ucast (MOSQ_LSB w) = w"
proof -
  have "push_bit 8 (ucast (MOSQ_MSB w)) AND ucast (MOSQ_LSB w) = (0 :: u16)"
    by (rule bit_word_eqI) (auto simp: MSB_mask LSB_mask bit_simps)
  then have "push_bit 8 (ucast (MOSQ_MSB w)) + ucast (MOSQ_LSB w) = (push_bit 8 (ucast (MOSQ_MSB w)) OR ucast (MOSQ_LSB w) :: u16)"
    by (rule disjunctive_add_eq_or)
  also have "\<dots> = w"
    by (rule bit_word_eqI) (auto simp: MSB_mask LSB_mask bit_simps)
  finally show ?thesis .
qed

section \<open>The input as a stream of bytes\<close>

definition has_stream :: "sock \<Rightarrow> byte list \<Rightarrow> bool" where
  "has_stream sk bs \<longleftrightarrow> (\<exists>cs. sk_in sk = map Recv cs \<and> [] \<notin> set cs \<and> concat cs = bs)"

text \<open>Reading changes nothing but the input.\<close>

definition in_frame :: "sock \<Rightarrow> sock \<Rightarrow> bool" where
  "in_frame sk sk' \<longleftrightarrow> sk' = sk\<lparr>sk_in := sk_in sk'\<rparr>"

lemma in_frame_refl [simp]: "in_frame sk sk" "in_frame sk (sk\<lparr>sk_in := x\<rparr>)"
  by (simp_all add: in_frame_def)

lemma in_frame_trans: "in_frame a b \<Longrightarrow> in_frame b c \<Longrightarrow> in_frame a c"
  unfolding in_frame_def by (metis sock.update_convs(2) sock.surjective)

lemma has_stream_Nil: "has_stream sk [] \<longleftrightarrow> sk_in sk = []"
proof
  assume "has_stream sk []"
  then obtain cs where "sk_in sk = map Recv cs" "[] \<notin> set cs" "concat cs = []"
    by (auto simp: has_stream_def simp del: concat_eq_Nil_conv)
  then show "sk_in sk = []" by (cases cs) auto
qed (simp add: has_stream_def)

lemma net_read_nil: "has_stream sk [] \<Longrightarrow> mosquitto_net_read sk n = (Inl EAGAIN, sk)"
  by (simp add: has_stream_Nil mosquitto_net_read_def)

lemma net_read_bytes:
  assumes "has_stream sk bs" "bs \<noteq> []" "0 < n"
  shows "\<exists>k sk'. 0 < k \<and> k \<le> n \<and> k \<le> length bs \<and> mosquitto_net_read sk n = (Inr (take k bs), sk') \<and>
    has_stream sk' (drop k bs) \<and> in_frame sk sk'"
proof -
  obtain cs where cs: "sk_in sk = map Recv cs" "[] \<notin> set cs" "concat cs = bs"
    using assms(1) by (auto simp: has_stream_def)
  obtain c cs' where c: "cs = c # cs'" using cs assms(2) by (cases cs) auto
  show ?thesis
  proof (cases "length c \<le> n")
    case True
    have "mosquitto_net_read sk n = (Inr (take (length c) bs), sk\<lparr>sk_in := map Recv cs'\<rparr>)"
      using True cs c by (auto simp: mosquitto_net_read_def)
    moreover have "has_stream (sk\<lparr>sk_in := map Recv cs'\<rparr>) (drop (length c) bs)"
      using cs c by (auto simp: has_stream_def)
    ultimately show ?thesis
      using True cs c by (intro exI [of _ "length c"] exI [of _ "sk\<lparr>sk_in := map Recv cs'\<rparr>"]) auto
  next
    case False
    have "mosquitto_net_read sk n = (Inr (take n bs), sk\<lparr>sk_in := map Recv (drop n c # cs')\<rparr>)"
      using False cs c by (auto simp: mosquitto_net_read_def)
    moreover have "has_stream (sk\<lparr>sk_in := map Recv (drop n c # cs')\<rparr>) (drop n bs)"
      using False cs c unfolding has_stream_def by (intro exI [of _ "drop n c # cs'"]) auto
    ultimately show ?thesis
      using False cs c assms(3)
      by (intro exI [of _ n] exI [of _ "sk\<lparr>sk_in := map Recv (drop n c # cs')\<rparr>"]) auto
  qed
qed

lemma net_read_byte:
  assumes "has_stream sk (b # bs)"
  shows "\<exists>sk'. mosquitto_net_read sk 1 = (Inr [b], sk') \<and> has_stream sk' bs \<and> in_frame sk sk'"
proof -
  obtain k sk' where "0 < k" "k \<le> 1" "mosquitto_net_read sk 1 = (Inr (take k (b # bs)), sk')"
    "has_stream sk' (drop k (b # bs))" "in_frame sk sk'"
    using net_read_bytes [OF assms, of 1] by auto
  moreover from this have "k = 1" by simp
  ultimately show ?thesis by auto
qed

section \<open>The reader on a flat list\<close>

fun flat_length :: "packet \<Rightarrow> byte list \<Rightarrow> int option \<times> packet \<times> byte list" where
  "flat_length p [] = (Some MOSQ_ERR_SUCCESS, p, [])"
| "flat_length p (byte # bs) =
     (let p = p\<lparr>pk_remaining_count := pk_remaining_count p - 1\<rparr>
      in if pk_remaining_count p < -4 then (Some MOSQ_ERR_PROTOCOL, p, bs)
         else
           let p = p\<lparr>pk_remaining_length :=
                       (pk_remaining_length p + unat (byte AND 127) * pk_remaining_mult p) mod 2 ^ 32,
                     pk_remaining_mult := (pk_remaining_mult p * 128) mod 2 ^ 32\<rparr>
           in if byte AND 128 \<noteq> 0 then flat_length p bs else (None, p, bs))"

definition flat_header :: "packet \<Rightarrow> byte list \<Rightarrow> int option \<times> packet \<times> byte list" where
  "flat_header p bs =
     (if pk_remaining_count p \<le> 0 then
        (case flat_length p bs of
           (Some rc, p, bs) \<Rightarrow> (Some rc, p, bs)
         | (None, p, bs) \<Rightarrow>
             let p = p\<lparr>pk_remaining_count := - pk_remaining_count p\<rparr>
             in (None,
                 if pk_remaining_length p > 0
                 then p\<lparr>pk_payload := replicate (pk_remaining_length p) 0, pk_to_process := pk_remaining_length p\<rparr>
                 else p, bs))
      else (None, p, bs))"

definition flat_payload :: "packet \<Rightarrow> byte list \<Rightarrow> int option \<times> packet \<times> byte list" where
  "flat_payload p bs =
     (let n = min (pk_to_process p) (length bs)
      in (if pk_to_process p \<le> length bs then None else Some EAGAIN,
          p\<lparr>pk_payload := take (pk_pos p) (pk_payload p) @ take n bs @ drop (pk_pos p + n) (pk_payload p),
            pk_to_process := pk_to_process p - n, pk_pos := pk_pos p + n\<rparr>, drop n bs))"

definition flat_command :: "mosquitto \<Rightarrow> byte list \<Rightarrow> int option \<times> mosquitto \<times> byte list" where
  "flat_command m bs =
     (if pk_command (m_in_packet m) = 0 then
        (case bs of
           [] \<Rightarrow> (Some MOSQ_ERR_SUCCESS, m, [])
         | byte # bs \<Rightarrow>
             let m = m\<lparr>m_in_packet := (m_in_packet m)\<lparr>pk_command := byte\<rparr>\<rparr>
             in if m_state m = mosq_cs_new \<and> byte AND 0xF0 \<noteq> CONNECT then (Some MOSQ_ERR_PROTOCOL, m, bs)
                else (None, m, bs))
      else (None, m, bs))"

definition flat_recv :: "int \<Rightarrow> mosquitto \<Rightarrow> byte list \<Rightarrow> int option \<times> mosquitto \<times> byte list" where
  "flat_recv now m bs =
     (case flat_command m bs of
        (Some rc, m, bs) \<Rightarrow> (Some rc, m, bs)
      | (None, m, bs) \<Rightarrow>
          (case flat_header (m_in_packet m) bs of
             (Some rc, p, bs) \<Rightarrow> (Some rc, m\<lparr>m_in_packet := p\<rparr>, bs)
           | (None, p, bs) \<Rightarrow>
               (case flat_payload p bs of
                  (Some errno, p, bs) \<Rightarrow>
                    (Some (net_errno errno),
                     m\<lparr>m_in_packet := p,
                       m_last_msg_in := (if errno = EAGAIN \<and> pk_to_process p > 1000 then now else m_last_msg_in m)\<rparr>, bs)
                | (None, p, bs) \<Rightarrow> (None, m\<lparr>m_in_packet := p\<lparr>pk_pos := 0\<rparr>\<rparr>, bs))))"

lemma read_length_flat:
  "has_stream sk bs \<Longrightarrow> flat_length p bs = (rc, p', rest) \<Longrightarrow>
   \<exists>sk'. read_length p sk = (rc, p', sk') \<and> has_stream sk' rest \<and> in_frame sk sk'"
proof (induction bs arbitrary: p sk)
  case Nil
  have "mosquitto_net_read sk 1 = (Inl EAGAIN, sk)" by (rule net_read_nil [OF Nil(1)])
  then have "read_length p sk = (Some MOSQ_ERR_SUCCESS, p, sk)"
    by (subst read_length.simps) (simp add: net_errno_def)
  then show ?case using Nil by auto
next
  case (Cons b bs)
  obtain sk' where sk': "mosquitto_net_read sk 1 = (Inr [b], sk')" "has_stream sk' bs" "in_frame sk sk'"
    using net_read_byte [OF Cons.prems(1)] by blast
  show ?case
  proof (cases "pk_remaining_count p - 1 < -4")
    case True
    then have "read_length p sk = (Some MOSQ_ERR_PROTOCOL, p\<lparr>pk_remaining_count := pk_remaining_count p - 1\<rparr>, sk')"
      using sk'(1) by (subst read_length.simps) (simp add: Let_def)
    then show ?thesis using sk'(2,3) Cons.prems(2) True by (auto simp: Let_def)
  next
    case False
    define q where "q = p\<lparr>pk_remaining_count := pk_remaining_count p - 1, pk_remaining_length :=
        (pk_remaining_length p + unat (b AND 127) * pk_remaining_mult p) mod 2 ^ 32,
        pk_remaining_mult := (pk_remaining_mult p * 128) mod 2 ^ 32\<rparr>"
    have r: "read_length p sk = (if b AND 128 \<noteq> 0 then read_length q sk' else (None, q, sk'))"
      using sk' False by (subst read_length.simps) (simp add: Let_def q_def)
    have f: "(if b AND 128 \<noteq> 0 then flat_length q bs else (None, q, bs)) = (rc, p', rest)"
      using Cons.prems(2) False by (simp add: Let_def q_def split: if_splits)
    show ?thesis
    proof (cases "b AND 128 = 0")
      case True
      then show ?thesis using r f sk' by auto
    next
      case c: False
      then obtain sk'' where "read_length q sk' = (rc, p', sk'')" "has_stream sk'' rest" "in_frame sk' sk''"
        using Cons.IH [OF sk'(2), of q] f by auto
      then show ?thesis using c r in_frame_trans [OF sk'(3), of sk''] by auto
    qed
  qed
qed


lemma read_payload_flat:
  "has_stream sk bs \<Longrightarrow> pk_pos p + pk_to_process p \<le> length (pk_payload p) \<Longrightarrow>
   flat_payload p bs = (rc, p', rest) \<Longrightarrow>
   \<exists>sk'. read_payload p sk = (rc, p', sk') \<and> has_stream sk' rest \<and> in_frame sk sk'"
proof (induction p sk arbitrary: bs rule: read_payload.induct)
  case (1 p sk)
  show ?case
  proof (cases "pk_to_process p > 0")
    case False
    then have "flat_payload p bs = (None, p, bs)" by (simp add: flat_payload_def)
    moreover have "read_payload p sk = (None, p, sk)" using False by (subst read_payload.simps) simp
    ultimately show ?thesis using "1.prems" by auto
  next
    case tp: True
    show ?thesis
    proof (cases "bs = []")
      case True
      then have "mosquitto_net_read sk (pk_to_process p) = (Inl EAGAIN, sk)"
        using net_read_nil "1.prems"(1) by simp
      then have "read_payload p sk = (Some EAGAIN, p, sk)" using tp by (subst read_payload.simps) simp
      moreover have "flat_payload p bs = (Some EAGAIN, p, [])" using True tp by (simp add: flat_payload_def)
      ultimately show ?thesis using True "1.prems" by auto
    next
      case ne: False
      obtain k sk' where k: "0 < k" "k \<le> pk_to_process p" "k \<le> length bs"
        "mosquitto_net_read sk (pk_to_process p) = (Inr (take k bs), sk')" "has_stream sk' (drop k bs)" "in_frame sk sk'"
        using net_read_bytes [OF "1.prems"(1) ne tp] by blast
      define q where "q = p\<lparr>pk_payload := take (pk_pos p) (pk_payload p) @ take k bs @ drop (pk_pos p + k) (pk_payload p),
          pk_to_process := pk_to_process p - k, pk_pos := pk_pos p + k\<rparr>"
      have r: "read_payload p sk = read_payload q sk'"
        using tp k ne by (subst read_payload.simps) (simp add: q_def min_absorb2)
      have f: "flat_payload q (drop k bs) = flat_payload p bs"
      proof -
        define n where "n = min (pk_to_process p) (length bs)"
        have n: "min (pk_to_process q) (length (drop k bs)) = n - k" "k \<le> n"
          using k by (auto simp: q_def n_def)
        have pl: "take (pk_pos q) (pk_payload q) = take (pk_pos p) (pk_payload p) @ take k bs"
          "drop (pk_pos q + (n - k)) (pk_payload q) = drop (pk_pos p + n) (pk_payload p)"
          using k "1.prems"(2) n(2) by (simp_all add: q_def min_absorb1 add.commute)
        have tk: "take n bs = take k bs @ take (n - k) (drop k bs)"
          using n(2) by (metis le_add_diff_inverse take_add)
        have "(pk_to_process q \<le> length (drop k bs)) = (pk_to_process p \<le> length bs)"
          using k by (auto simp: q_def)
        then show ?thesis
          unfolding flat_payload_def Let_def n n_def [symmetric] pl tk using k n(2) by (simp add: q_def)
      qed
      have "\<exists>sk''. read_payload q sk' = (rc, p', sk'') \<and> has_stream sk'' rest \<and> in_frame sk' sk''"
        using "1.IH" [OF tp k(4) [symmetric] refl, of "drop k bs"] k "1.prems" ne f by (simp add: q_def min_absorb2)
      then show ?thesis using r in_frame_trans [OF k(6)] by auto
    qed
  qed
qed


lemma read_command_flat:
  "has_stream sk bs \<Longrightarrow> flat_command m bs = (rc, m', rest) \<Longrightarrow>
   \<exists>sk'. read_command m sk = (rc, m', sk') \<and> has_stream sk' rest \<and> in_frame sk sk'"
proof (cases "pk_command (m_in_packet m) = 0")
  case False
  assume "has_stream sk bs" "flat_command m bs = (rc, m', rest)"
  then show ?thesis using False by (auto simp: read_command_def flat_command_def)
next
  case True
  assume a: "has_stream sk bs" "flat_command m bs = (rc, m', rest)"
  show ?thesis
  proof (cases bs)
    case Nil
    then show ?thesis
      using True a net_read_nil [of sk 1] by (auto simp: read_command_def flat_command_def net_errno_def)
  next
    case (Cons b bs')
    then obtain sk' where "mosquitto_net_read sk 1 = (Inr [b], sk')" "has_stream sk' bs'" "in_frame sk sk'"
      using net_read_byte a(1) by blast
    then show ?thesis
      using True a(2) Cons by (auto simp: read_command_def flat_command_def Let_def split: if_splits)
  qed
qed

lemma read_header_flat:
  assumes "has_stream sk bs" "flat_header p bs = (rc, p', rest)"
  shows "\<exists>sk'. read_header p sk = (rc, p', sk') \<and> has_stream sk' rest \<and> in_frame sk sk'"
proof (cases "pk_remaining_count p \<le> 0")
  case False
  then show ?thesis using assms by (auto simp: read_header_def flat_header_def)
next
  case True
  obtain rc1 p1 r1 where f: "flat_length p bs = (rc1, p1, r1)" by (metis prod_cases3)
  obtain sk' where "read_length p sk = (rc1, p1, sk')" "has_stream sk' r1" "in_frame sk sk'"
    using read_length_flat [OF assms(1) f] by blast
  then show ?thesis
    using True assms(2) f by (cases rc1) (auto simp: read_header_def flat_header_def Let_def)
qed

text \<open>The incoming packet between two reads: nothing of the length yet, part of it, or all of it and
  part of the payload.\<close>

definition in_ok :: "packet \<Rightarrow> bool" where
  "in_ok p \<longleftrightarrow> (if pk_remaining_count p \<le> 0 then pk_pos p = 0 \<and> pk_to_process p = 0 \<and> pk_payload p = []
     else pk_pos p + pk_to_process p = length (pk_payload p) \<and> pk_remaining_length p = length (pk_payload p))"

lemma flat_length_keeps:
  "flat_length p bs = (rc, p', rest) \<Longrightarrow> pk_remaining_count p \<le> 0 \<Longrightarrow>
   pk_payload p' = pk_payload p \<and> pk_pos p' = pk_pos p \<and> pk_to_process p' = pk_to_process p \<and>
   pk_command p' = pk_command p \<and> pk_remaining_count p' \<le> pk_remaining_count p \<and>
   (rc = None \<longrightarrow> pk_remaining_count p' < 0) \<and> (rc = Some MOSQ_ERR_SUCCESS \<longrightarrow> rest = [])"
proof (induction bs arbitrary: p)
  case (Cons b bs)
  show ?case
  proof (cases "pk_remaining_count p - 1 < -4")
    case True
    then show ?thesis using Cons.prems by (auto simp: Let_def mosq_err_defs)
  next
    case False
    define q where "q = p\<lparr>pk_remaining_count := pk_remaining_count p - 1, pk_remaining_length :=
        (pk_remaining_length p + unat (b AND 127) * pk_remaining_mult p) mod 2 ^ 32,
        pk_remaining_mult := (pk_remaining_mult p * 128) mod 2 ^ 32\<rparr>"
    have f: "(if b AND 128 \<noteq> 0 then flat_length q bs else (None, q, bs)) = (rc, p', rest)"
      using Cons.prems(1) False by (simp add: Let_def q_def split: if_splits)
    show ?thesis
    proof (cases "b AND 128 = 0")
      case True
      then show ?thesis using f Cons.prems(2) by (auto simp: q_def)
    next
      case c: False
      then have "flat_length q bs = (rc, p', rest)" using f by simp
      from Cons.IH [OF this] Cons.prems(2) show ?thesis by (simp add: q_def)
    qed
  qed
qed auto

lemma flat_header_ok:
  assumes "in_ok p" "flat_header p bs = (rc, p', rest)"
  shows "in_ok p' \<and> pk_command p' = pk_command p \<and> (rc = None \<longrightarrow> pk_remaining_count p' > 0) \<and>
    (rc \<noteq> None \<longrightarrow> pk_remaining_count p' \<le> 0) \<and> (rc = Some MOSQ_ERR_SUCCESS \<longrightarrow> rest = [])"
proof (cases "pk_remaining_count p \<le> 0")
  case False
  then show ?thesis using assms by (auto simp: flat_header_def)
next
  case True
  obtain rc1 p1 r1 where f: "flat_length p bs = (rc1, p1, r1)" by (metis prod_cases3)
  show ?thesis
    using flat_length_keeps [OF f True] assms f True
    by (cases rc1) (auto simp: flat_header_def in_ok_def Let_def split: if_splits)
qed

lemma packet_recv_flat:
  assumes "m_sock m = Some sk" "has_stream sk bs" "in_ok (m_in_packet m)" "m_state m \<noteq> mosq_cs_connect_pending"
    "flat_recv now m bs = (rc, m', rest)"
  shows "\<exists>sk'. mosquitto_packet_recv now m = (rc, m'\<lparr>m_sock := Some sk'\<rparr>) \<and> has_stream sk' rest \<and> in_frame sk sk'"
proof -
  obtain rc1 m1 b1 where c: "flat_command m bs = (rc1, m1, b1)" by (metis prod_cases3)
  obtain s1 where s1: "read_command m sk = (rc1, m1, s1)" "has_stream s1 b1" "in_frame sk s1"
    using read_command_flat [OF assms(2) c] by blast
  have ok1: "in_ok (m_in_packet m1)"
    using c assms(3) by (auto simp: flat_command_def in_ok_def Let_def split: if_splits list.splits)
  show ?thesis
  proof (cases rc1)
    case (Some r)
    then show ?thesis using c s1 assms by (auto simp: mosquitto_packet_recv_def flat_recv_def)
  next
    case None
    obtain rc2 p2 b2 where h: "flat_header (m_in_packet m1) b1 = (rc2, p2, b2)" by (metis prod_cases3)
    obtain s2 where s2: "read_header (m_in_packet m1) s1 = (rc2, p2, s2)" "has_stream s2 b2" "in_frame sk s2"
      using read_header_flat [OF s1(2) h] in_frame_trans [OF s1(3)] by blast
    show ?thesis
    proof (cases rc2)
      case (Some r)
      then show ?thesis using None c s1 h s2 assms by (auto simp: mosquitto_packet_recv_def flat_recv_def)
    next
      case n2: None
      obtain rc3 p3 b3 where f: "flat_payload p2 b2 = (rc3, p3, b3)" by (metis prod_cases3)
      have "pk_pos p2 + pk_to_process p2 \<le> length (pk_payload p2)"
        using flat_header_ok [OF ok1 h] by (auto simp: in_ok_def split: if_splits)
      then obtain s3 where "read_payload p2 s2 = (rc3, p3, s3)" "has_stream s3 b3" "in_frame sk s3"
        using read_payload_flat [OF s2(2) _ f] in_frame_trans [OF s2(3)] by blast
      then show ?thesis
        using None n2 c s1 h s2 f assms
        by (cases rc3) (auto simp: mosquitto_packet_recv_def flat_recv_def)
    qed
  qed
qed

lemma flat_length_append:
  "flat_length p b1 = (rc, p1, r) \<Longrightarrow>
   flat_length p (b1 @ b2) = (if rc = Some MOSQ_ERR_SUCCESS then flat_length p1 b2 else (rc, p1, r @ b2))"
proof (induction b1 arbitrary: p)
  case (Cons b bs)
  show ?case
  proof (cases "pk_remaining_count p - 1 < -4")
    case True
    then show ?thesis using Cons.prems by (auto simp: Let_def mosq_err_defs)
  next
    case False
    define q where "q = p\<lparr>pk_remaining_count := pk_remaining_count p - 1, pk_remaining_length :=
        (pk_remaining_length p + unat (b AND 127) * pk_remaining_mult p) mod 2 ^ 32,
        pk_remaining_mult := (pk_remaining_mult p * 128) mod 2 ^ 32\<rparr>"
    have e: "flat_length p (b # xs) = (if b AND 128 \<noteq> 0 then flat_length q xs else (None, q, xs))" for xs
      using False by (simp add: Let_def q_def)
    show ?thesis
      using Cons.prems Cons.IH [of q] unfolding append_Cons e by (auto split: if_splits)
  qed
qed auto

lemma flat_header_append:
  assumes "flat_header p b1 = (rc, p1, r)" "pk_remaining_count p \<le> 0 \<or> rc = None"
  shows "flat_header p (b1 @ b2) = (if rc = Some MOSQ_ERR_SUCCESS then flat_header p1 b2 else (rc, p1, r @ b2))"
proof (cases "pk_remaining_count p \<le> 0")
  case True
  obtain rc1 q r1 where f: "flat_length p b1 = (rc1, q, r1)" by (metis prod_cases3)
  have "pk_remaining_count q \<le> 0" using flat_length_keeps [OF f True] True by auto
  then show ?thesis
    using True assms f flat_length_append [OF f, of b2]
    by (cases rc1) (auto simp: flat_header_def Let_def)
next
  case False
  then show ?thesis using assms by (auto simp: flat_header_def)
qed

lemma flat_payload_append:
  assumes "flat_payload p b1 = (rc, p1, r)" "pk_pos p + pk_to_process p = length (pk_payload p)"
  shows "flat_payload p (b1 @ b2) = (if rc = None then (None, p1, r @ b2) else flat_payload p1 b2)"
proof (cases "pk_to_process p \<le> length b1")
  case True
  then show ?thesis using assms by (auto simp: flat_payload_def Let_def min_absorb1)
next
  case False
  define k where "k = length b1"
  have p1: "rc = Some EAGAIN" "r = []" "p1 = p\<lparr>pk_payload := take (pk_pos p) (pk_payload p) @ b1 @ drop (pk_pos p + k) (pk_payload p),
        pk_to_process := pk_to_process p - k, pk_pos := pk_pos p + k\<rparr>"
    using False assms(1) by (auto simp: flat_payload_def Let_def min_absorb2 k_def)
  define n where "n = min (pk_to_process p) (length (b1 @ b2))"
  have n: "min (pk_to_process p1) (length b2) = n - k" "k \<le> n" "k \<le> pk_to_process p"
    using False by (auto simp: p1 n_def k_def)
  have a: "take n (b1 @ b2) = b1 @ take (n - k) b2" "drop n (b1 @ b2) = drop (n - k) b2"
    using n(2) by (auto simp: k_def)
  have b: "take (pk_pos p1) (pk_payload p1) = take (pk_pos p) (pk_payload p) @ b1"
    "drop (pk_pos p1 + (n - k)) (pk_payload p1) = drop (pk_pos p + n) (pk_payload p)"
    using n(2,3) assms(2) by (auto simp: p1 k_def min_absorb1 add.commute)
  have c: "(pk_to_process p1 \<le> length b2) = (pk_to_process p \<le> length (b1 @ b2))"
    using False by (auto simp: p1 k_def)
  show ?thesis
    unfolding flat_payload_def Let_def n n_def [symmetric] a b c using n(2,3) by (simp add: p1)
qed

section \<open>The length field\<close>

lemma alloc_loop_small: "rl < 128 \<Longrightarrow> alloc_loop i rl = [word_of_nat rl]"
  by (subst alloc_loop.simps) (simp add: Let_def)

lemma alloc_loop_more:
  "128 \<le> rl \<Longrightarrow> i < 4 \<Longrightarrow>
   alloc_loop i rl = (word_of_nat (rl mod 128) OR 0x80) # alloc_loop (i + 1) (rl div 128)"
  by (subst alloc_loop.simps) (simp add: Let_def)

lemma alloc_loop_length_pos: "0 < length (alloc_loop i rl)"
  by (subst alloc_loop.simps) (simp add: Let_def)

lemma alloc_loop_length: "i \<le> 4 \<Longrightarrow> length (alloc_loop i rl) + i \<le> 4 \<longleftrightarrow> i < 4 \<and> rl < 128 ^ (4 - i)"
proof (induction i rl rule: alloc_loop.induct)
  case (1 i rl)
  show ?case
  proof (cases "i = 4")
    case True
    then show ?thesis using alloc_loop_length_pos [of i rl] by simp
  next
    case False
    then have i: "i < 4" using "1.prems" by simp
    show ?thesis
    proof (cases "rl < 128")
      case True
      then have "rl < 128 ^ (4 - i)" using i by (metis One_nat_def Suc_leI less_le_trans one_le_numeral power_increasing power_one_right zero_less_diff)
      then show ?thesis using True i by (simp add: alloc_loop_small)
    next
      case big: False
      have IH: "length (alloc_loop (i + 1) (rl div 128)) + (i + 1) \<le> 4 \<longleftrightarrow> i + 1 < 4 \<and> rl div 128 < 128 ^ (4 - (i + 1))"
        using "1.IH" [OF refl refl refl] big i by simp
      have e: "rl < 128 ^ (4 - i) \<longleftrightarrow> rl div 128 < 128 ^ (4 - (i + 1))"
      proof -
        have "(128 :: nat) ^ (4 - i) = 128 ^ (4 - (i + 1)) * 128" 
        proof -
          have "4 - i = Suc (4 - (i + 1))" using i by simp
          then show ?thesis by (metis mult.commute power_Suc)
        qed
        then show ?thesis by (simp add: div_less_iff_less_mult)
      qed
      show ?thesis using IH e i big by (cases "i = 3") (auto simp: alloc_loop_more)
    qed
  qed
qed

lemma alloc_loop_max: "i \<le> 4 \<Longrightarrow> length (alloc_loop i rl) + i \<le> 5"
  by (induction i rl rule: alloc_loop.induct) (subst alloc_loop.simps, auto simp: Let_def)

lemma pow128: "(128 :: nat) ^ 4 = 2 ^ 28" "(2 :: nat) ^ 28 = 268435456"
  by simp_all

text \<open>An MQTT length field takes one to four bytes and holds less than \<open>2 ^ 28\<close>.\<close>

lemma alloc_loop_iff: "length (alloc_loop 0 rl) = 5 \<longleftrightarrow> 2 ^ 28 \<le> rl"
  using alloc_loop_length [of 0 rl] alloc_loop_max [of 0 rl] by auto

lemma flat_length_alloc:
  "rl < 128 ^ (4 - i) \<Longrightarrow> i \<le> 3 \<Longrightarrow> pk_remaining_count p = - int i \<Longrightarrow> pk_remaining_mult p = 128 ^ i \<Longrightarrow>
   pk_remaining_length p < 128 ^ i \<Longrightarrow>
   \<exists>mult. flat_length p (alloc_loop i rl @ xs) =
     (None, p\<lparr>pk_remaining_count := - int (i + length (alloc_loop i rl)),
              pk_remaining_length := pk_remaining_length p + rl * 128 ^ i, pk_remaining_mult := mult\<rparr>, xs)"
proof (induction i rl arbitrary: p rule: alloc_loop.induct)
  case (1 i rl)
  have tot: "pk_remaining_length p + rl * 128 ^ i < 2 ^ 32"
  proof -
    have "rl * 128 ^ i < 128 ^ (4 - i) * 128 ^ i" using "1.prems"(1) by simp
    also have "\<dots> = (128 :: nat) ^ 4" using "1.prems"(2) by (simp flip: power_add)
    finally have a: "rl * 128 ^ i < 2 ^ 28" by simp
    have "(128 :: nat) ^ i \<le> 128 ^ 3" using "1.prems"(2) by (intro power_increasing) auto
    then have "pk_remaining_length p < 2 ^ 28" using "1.prems"(5) by simp
    then show ?thesis using a by simp
  qed
  show ?case
  proof (cases "rl < 128")
    case True
    have "unat (word_of_nat rl :: byte) = rl" using True by (simp add: unat_of_nat)
    then have w: "unat ((word_of_nat rl :: byte) AND 127) = rl" "(word_of_nat rl :: byte) AND 128 = 0"
      using and_127 [of "word_of_nat rl"] and_128 [of "word_of_nat rl"] True by auto
    show ?thesis
      using True tot "1.prems" w
      by (intro exI [of _ "(128 ^ i * 128) mod 2 ^ 32"]) (simp add: alloc_loop_small Let_def mult.commute algebra_simps)
  next
    case False
    let ?b = "word_of_nat (rl mod 128) OR 0x80 :: byte"
    have i: "i < 3" using False "1.prems"(1,2) by (cases "i = 3") auto
    have ub: "unat ?b = rl mod 128 + 128" by (rule or_128) simp
    then have w: "unat (?b AND 127) = rl mod 128" "?b AND 128 \<noteq> 0"
      using and_127 [of ?b] and_128 [of ?b] by auto
    have dm: "pk_remaining_length p + rl mod 128 * 128 ^ i + rl div 128 * 128 ^ (i + 1) = pk_remaining_length p + rl * 128 ^ i"
      using add_mult_distrib [of "rl div 128 * 128" "rl mod 128" "128 ^ i"] by simp
    define q where "q = p\<lparr>pk_remaining_count := - int i - 1, pk_remaining_length := pk_remaining_length p + rl mod 128 * 128 ^ i,
        pk_remaining_mult := 128 ^ (i + 1)\<rparr>"
    have m: "(128 :: nat) ^ i * 128 < 2 ^ 32"
    proof -
      have "(128 :: nat) ^ (i + 1) \<le> 128 ^ 4" using i by (intro power_increasing) auto
      then show ?thesis by (simp add: mult.commute)
    qed
    have step: "flat_length p (alloc_loop i rl @ xs) = flat_length q (alloc_loop (i + 1) (rl div 128) @ xs)"
    proof -
      have "pk_remaining_length p + rl mod 128 * 128 ^ i < 2 ^ 32" using tot dm by linarith
      then show ?thesis
        using False i w m "1.prems"(3,4) by (simp add: alloc_loop_more Let_def q_def mult.commute)
    qed
    have "\<exists>mult. flat_length q (alloc_loop (i + 1) (rl div 128) @ xs) =
     (None, q\<lparr>pk_remaining_count := - int (i + 1 + length (alloc_loop (i + 1) (rl div 128))),
              pk_remaining_length := pk_remaining_length q + rl div 128 * 128 ^ (i + 1), pk_remaining_mult := mult\<rparr>, xs)"
    proof (rule "1.IH" [OF refl refl refl])
      show "rl div 128 > 0 \<and> i + 1 < 5" using False i by (simp add: div_greater_zero_iff)
      have "(128 :: nat) ^ (4 - i) = 128 ^ (4 - (i + 1)) * 128" 
      proof -
        have "4 - i = Suc (4 - (i + 1))" using i by simp
        then show ?thesis by (metis mult.commute power_Suc)
      qed
      then show "rl div 128 < 128 ^ (4 - (i + 1))" using "1.prems"(1) by (simp add: div_less_iff_less_mult)
      have mm: "rl mod 128 * 128 ^ i \<le> 127 * 128 ^ i" by (rule mult_right_mono) simp_all
      have "pk_remaining_length p + rl mod 128 * 128 ^ i < 128 ^ (i + 1)"
        using mm "1.prems"(5) unfolding power_add power_one_right by linarith
      then show "pk_remaining_length q < 128 ^ (i + 1)" by (simp add: q_def)
    qed (use i in \<open>auto simp: q_def\<close>)
    then show ?thesis unfolding step using False i dm by (simp add: q_def alloc_loop_more add.assoc)
  qed
qed


section \<open>The reader and the division of the stream\<close>

definition feed :: "byte list list \<Rightarrow> mosquitto \<Rightarrow> mosquitto" where
  "feed cs m = m\<lparr>m_sock := map_option (\<lambda>sk. sk\<lparr>sk_in := map Recv cs\<rparr>) (m_sock m)\<rparr>"

text \<open>The unread bytes of a socket, and a context up to how they are cut and the time of the last
  message.\<close>

definition unread :: "mosquitto \<Rightarrow> byte list" where
  "unread m = (case m_sock m of None \<Rightarrow> []
     | Some sk \<Rightarrow> concat (map (\<lambda>r. case r of Recv bs \<Rightarrow> bs | RecvErr _ \<Rightarrow> []) (sk_in sk)))"

definition observe :: "mosquitto \<Rightarrow> mosquitto \<times> byte list" where
  "observe m = (feed [] m\<lparr>m_last_msg_in := 0\<rparr>, unread m)"

lemma has_stream_feed: "[] \<notin> set cs \<Longrightarrow> has_stream (sk\<lparr>sk_in := map Recv cs\<rparr>) (concat cs)"
  by (auto simp: has_stream_def)

lemma unread_stream: "has_stream sk bs \<Longrightarrow> unread (m\<lparr>m_sock := Some sk\<rparr>) = bs"
  by (auto simp: has_stream_def unread_def comp_def)

lemma feed_sock [simp]: "m_sock m = Some sk \<Longrightarrow> feed cs m = m\<lparr>m_sock := Some (sk\<lparr>sk_in := map Recv cs\<rparr>)\<rparr>"
  by (simp add: feed_def)

lemma flat_command_sock:
  "flat_command (m\<lparr>m_sock := s\<rparr>) bs =
   (case flat_command m bs of (rc, m', r) \<Rightarrow> (rc, m'\<lparr>m_sock := s\<rparr>, r))"
  by (cases bs) (simp_all add: flat_command_def Let_def)

lemma flat_recv_sock:
  "flat_recv now (m\<lparr>m_sock := s\<rparr>) bs =
   (case flat_recv now m bs of (rc, m', r) \<Rightarrow> (rc, m'\<lparr>m_sock := s\<rparr>, r))"
proof -
  obtain rc1 m1 b1 where c: "flat_command m bs = (rc1, m1, b1)" by (metis prod_cases3)
  obtain rc2 p2 b2 where h: "flat_header (m_in_packet m1) b1 = (rc2, p2, b2)" by (metis prod_cases3)
  obtain rc3 p3 b3 where f: "flat_payload p2 b2 = (rc3, p3, b3)" by (metis prod_cases3)
  show ?thesis
    by (cases rc1; cases rc2; cases rc3) (simp_all add: flat_recv_def flat_command_sock c h f)
qed

lemma packet_recv_feed:
  assumes "m_sock m = Some sk" "[] \<notin> set cs" "in_ok (m_in_packet m)" "m_state m \<noteq> mosq_cs_connect_pending"
    "flat_recv now m (concat cs) = (rc, m', rest)"
  shows "\<exists>sk'. mosquitto_packet_recv now (feed cs m) = (rc, m'\<lparr>m_sock := Some sk'\<rparr>) \<and>
    has_stream sk' rest \<and> sk'\<lparr>sk_in := []\<rparr> = sk\<lparr>sk_in := []\<rparr>"
proof -
  let ?sk = "sk\<lparr>sk_in := map Recv cs\<rparr>"
  have "flat_recv now (m\<lparr>m_sock := Some ?sk\<rparr>) (concat cs) = (rc, m'\<lparr>m_sock := Some ?sk\<rparr>, rest)"
    using assms(5) by (simp add: flat_recv_sock)
  then obtain sk' where s: "mosquitto_packet_recv now (m\<lparr>m_sock := Some ?sk\<rparr>) = (rc, m'\<lparr>m_sock := Some sk'\<rparr>)"
    "has_stream sk' rest" "in_frame ?sk sk'"
    using packet_recv_flat [of "m\<lparr>m_sock := Some ?sk\<rparr>" ?sk "concat cs" now] assms has_stream_feed by fastforce
  have "sk'\<lparr>sk_in := []\<rparr> = sk\<lparr>sk_in := []\<rparr>"
    using s(3) unfolding in_frame_def by (metis sock.update_convs(2) sock.surjective)
  then show ?thesis using s assms(1) by auto
qed


definition strip :: "mosquitto \<Rightarrow> mosquitto" where
  "strip m = m\<lparr>m_last_msg_in := 0\<rparr>"

lemma observe_strip:
  "observe (m\<lparr>m_sock := Some s\<rparr>) =
   ((strip m)\<lparr>m_sock := Some (s\<lparr>sk_in := []\<rparr>)\<rparr>, unread (m\<lparr>m_sock := Some s\<rparr>))"
  by (cases m) (simp add: observe_def strip_def feed_def unread_def)

lemma flat_command_cases:
  assumes ok: "in_ok (m_in_packet m)" and cmd: "pk_command (m_in_packet m) = 0 \<Longrightarrow> b1 \<noteq> [] \<Longrightarrow> hd b1 \<noteq> 0"
    and ne: "\<not> (pk_command (m_in_packet m) = 0 \<and> b1 = [])"
    and r1: "flat_recv now m b1 = (Some MOSQ_ERR_SUCCESS, m1, r1)"
  shows "\<exists>m0 b0. flat_command m b1 = (None, m0, b0) \<and> pk_command (m_in_packet m0) \<noteq> 0 \<and>
    in_ok (m_in_packet m0) \<and> m_state m0 = m_state m \<and> m_sock m0 = m_sock m"
proof (cases "pk_command (m_in_packet m) = 0")
  case False
  then show ?thesis using ok by (simp add: flat_command_def)
next
  case True
  then obtain x xs where b1: "b1 = x # xs" "x \<noteq> 0" using ne cmd by (cases b1) auto
  let ?m = "m\<lparr>m_in_packet := (m_in_packet m)\<lparr>pk_command := x\<rparr>\<rparr>"
  have f: "flat_command m b1 = (if m_state m = mosq_cs_new \<and> x AND 0xF0 \<noteq> CONNECT
      then (Some MOSQ_ERR_PROTOCOL, ?m, xs) else (None, ?m, xs))"
    using True b1 by (simp add: flat_command_def Let_def)
  have "\<not> (m_state m = mosq_cs_new \<and> x AND 0xF0 \<noteq> CONNECT)"
  proof
    assume "m_state m = mosq_cs_new \<and> x AND 0xF0 \<noteq> CONNECT"
    then have "flat_recv now m b1 = (Some MOSQ_ERR_PROTOCOL, ?m, xs)" using f by (simp add: flat_recv_def)
    then show False using r1 by (simp add: mosq_err_defs)
  qed
  then have "flat_command m b1 = (None, ?m, xs)" unfolding f by argo
  then show ?thesis using b1 ok by (simp add: in_ok_def)
qed

lemma flat_recv_resume:
  assumes ok: "in_ok (m_in_packet m)" and cmd: "pk_command (m_in_packet m) = 0 \<Longrightarrow> b1 \<noteq> [] \<Longrightarrow> hd b1 \<noteq> 0"
    and r1: "flat_recv now m b1 = (Some MOSQ_ERR_SUCCESS, m1, r1)"
    and a: "flat_recv now' m (b1 @ b2) = (rc, m2, r)" and b: "flat_recv now' m1 b2 = (rc', m2', r')"
  shows "r1 = [] \<and> in_ok (m_in_packet m1) \<and> rc = rc' \<and> r = r' \<and> strip m2 = strip m2' \<and> m_sock m1 = m_sock m \<and>
    m_state m1 = m_state m"
proof (cases "pk_command (m_in_packet m) = 0 \<and> b1 = []")
  case True
  then have "m1 = m" "r1 = []" using r1 by (auto simp: flat_recv_def flat_command_def)
  then show ?thesis using True a b ok by simp
next
  case False
  obtain m0 b0 where c: "flat_command m b1 = (None, m0, b0)" "pk_command (m_in_packet m0) \<noteq> 0"
    "in_ok (m_in_packet m0)" "m_state m0 = m_state m" "m_sock m0 = m_sock m"
    using flat_command_cases [OF ok cmd False r1] by blast
  have ca: "flat_command m (b1 @ b2) = (None, m0, b0 @ b2)"
    using False c(1) by (cases b1) (auto simp: flat_command_def Let_def split: if_splits)
  obtain rc2 p2 b3 where h: "flat_header (m_in_packet m0) b0 = (rc2, p2, b3)" by (metis prod_cases3)
  note ok2 = flat_header_ok [OF c(3) h]
  show ?thesis
  proof (cases rc2)
    case (Some e)
    then have e: "e = MOSQ_ERR_SUCCESS" "m1 = m0\<lparr>m_in_packet := p2\<rparr>" "r1 = b3" using r1 c h by (auto simp: flat_recv_def)
    have "pk_remaining_count (m_in_packet m0) \<le> 0" using h Some by (auto simp: flat_header_def split: if_splits)
    then have ha: "flat_header (m_in_packet m0) (b0 @ b2) = flat_header p2 b2"
      using flat_header_append [OF h, of b2] Some e by simp
    have "flat_command m1 b2 = (None, m1, b2)" using c ok2 e by (simp add: flat_command_def)
    then have "flat_recv now' m1 b2 = flat_recv now' m (b1 @ b2)"
      unfolding flat_recv_def using ca ha e
      by (cases "flat_header p2 b2") (auto split: option.splits prod.splits)
    then show ?thesis using a b e c ok2 Some by simp
  next
    case None
    obtain rc3 p3 b4 where f: "flat_payload p2 b3 = (rc3, p3, b4)" by (metis prod_cases3)
    obtain e where e: "rc3 = Some e" using r1 c h None f by (cases rc3) (auto simp: flat_recv_def)
    then have e': "e = EAGAIN" "b4 = []" using f by (auto simp: flat_payload_def Let_def split: if_splits)
    obtain t where m1: "m1 = m0\<lparr>m_in_packet := p3, m_last_msg_in := t\<rparr>" "r1 = b4"
      using r1 c h None f e by (auto simp: flat_recv_def)
    have ok2': "pk_pos p2 + pk_to_process p2 = length (pk_payload p2)" "pk_remaining_count p2 > 0"
      using ok2 None by (auto simp: in_ok_def)
    have ok3: "in_ok p3" "pk_remaining_count p3 > 0" "pk_command p3 = pk_command p2"
      using f ok2 ok2' None by (auto simp: flat_payload_def in_ok_def Let_def)
    have fa: "flat_payload p2 (b3 @ b2) = flat_payload p3 b2"
      using flat_payload_append [OF f ok2'(1), of b2] e by simp
    have ha: "flat_header (m_in_packet m0) (b0 @ b2) = (None, p2, b3 @ b2)"
      using flat_header_append [OF h, of b2] None by simp
    have "flat_command m1 b2 = (None, m1, b2)" "flat_header (m_in_packet m1) b2 = (None, p3, b2)"
      using c ok2 ok3 m1 by (simp_all add: flat_command_def flat_header_def)
    then have "rc = rc' \<and> r = r' \<and> strip m2 = strip m2'"
      using a b ca ha fa m1 by (cases "flat_payload p3 b2"; cases "fst (flat_payload p3 b2)")
        (auto simp: flat_recv_def strip_def)
    then show ?thesis using m1 e' ok3 c by simp
  qed
qed


lemma flat_recv_complete:
  assumes "m_in_packet m = mosquitto_packet_cleanup p" "cmd \<noteq> 0"
    "m_state m = mosq_cs_new \<Longrightarrow> cmd AND 0xF0 = CONNECT" "length payload < 2 ^ 28"
  shows "\<exists>m'. flat_recv now m (cmd # alloc_loop 0 (length payload) @ payload @ rest) = (None, m', rest) \<and>
    pk_command (m_in_packet m') = cmd \<and> pk_payload (m_in_packet m') = payload \<and>
    pk_remaining_length (m_in_packet m') = length payload \<and> pk_pos (m_in_packet m') = 0 \<and>
    m' = m\<lparr>m_in_packet := m_in_packet m'\<rparr>"
proof -
  define q where "q = (m_in_packet m)\<lparr>pk_command := cmd\<rparr>"
  have q: "pk_remaining_count q = 0" "pk_remaining_length q = 0" "pk_remaining_mult q = 1" "pk_payload q = []"
    "pk_pos q = 0" "pk_to_process q = 0" "pk_command q = cmd"
    using assms(1) by (simp_all add: q_def mosquitto_packet_cleanup_def)
  have c: "flat_command m (cmd # xs) = (None, m\<lparr>m_in_packet := q\<rparr>, xs)" for xs
    using assms(1,3) by (simp add: flat_command_def mosquitto_packet_cleanup_def Let_def q_def)
  obtain mult where l: "flat_length q (alloc_loop 0 (length payload) @ payload @ rest) =
     (None, q\<lparr>pk_remaining_count := - int (length (alloc_loop 0 (length payload))),
              pk_remaining_length := length payload, pk_remaining_mult := mult\<rparr>, payload @ rest)"
    using flat_length_alloc [of "length payload" 0 q "payload @ rest"] q assms(4) by auto
  have n0: "0 < length (alloc_loop 0 (length payload))" by (rule alloc_loop_length_pos)
  show ?thesis
  proof (cases "payload = []")
    case True
    then show ?thesis using q n0 l by (simp add: flat_recv_def c flat_header_def Let_def flat_payload_def)
  next
    case False
    then show ?thesis using q n0 l by (simp add: flat_recv_def c flat_header_def Let_def flat_payload_def)
  qed
qed

lemma packet_recv_feed_complete:
  assumes "m_sock m = Some sk" "m_state m \<noteq> mosq_cs_connect_pending"
    "m_in_packet m = mosquitto_packet_cleanup p" "cmd \<noteq> 0"
    "m_state m = mosq_cs_new \<longrightarrow> cmd AND 0xF0 = CONNECT" "length payload < 2 ^ 28"
    "[] \<notin> set cs" "concat cs = cmd # alloc_loop 0 (length payload) @ payload @ rest"
  shows "\<exists>m'. mosquitto_packet_recv now (feed cs m) = (None, m') \<and>
    pk_command (m_in_packet m') = cmd \<and> pk_payload (m_in_packet m') = payload \<and>
    pk_remaining_length (m_in_packet m') = length payload \<and> pk_pos (m_in_packet m') = 0 \<and>
    unread m' = rest"
proof -
  obtain m' where m': "flat_recv now m (concat cs) = (None, m', rest)"
    "pk_command (m_in_packet m') = cmd" "pk_payload (m_in_packet m') = payload"
    "pk_remaining_length (m_in_packet m') = length payload" "pk_pos (m_in_packet m') = 0"
    using flat_recv_complete [OF assms(3,4) _ assms(6), of now rest] assms(5,8) by metis
  have "in_ok (m_in_packet m)" using assms(3) by (simp add: mosquitto_packet_cleanup_def in_ok_def)
  then obtain sk' where "mosquitto_packet_recv now (feed cs m) = (None, m'\<lparr>m_sock := Some sk'\<rparr>)" "has_stream sk' rest"
    using packet_recv_feed [OF assms(1,7) _ assms(2) m'(1)] by blast
  then show ?thesis using m' unread_stream by auto
qed

text \<open>C11. The reader of the broker does not depend on how the network cut the stream: a well-formed
  packet (at most 268435455 bytes, any command but 0, \<open>CONNECT\<close> on a new connection) that arrives in
  pieces of any size is complete with exactly its bytes, and the bytes behind it are left unread.\<close>

theorem packet_recv_complete:
  assumes "m_sock m = Some sk" "m_state m \<noteq> mosq_cs_connect_pending"
    "m_in_packet m = mosquitto_packet_cleanup p" "cmd \<noteq> 0"
    "m_state m = mosq_cs_new \<longrightarrow> cmd AND 0xF0 = CONNECT" "length payload < 2 ^ 28"
    "[] \<notin> set cs" "concat cs = cmd # alloc_loop 0 (length payload) @ payload @ rest"
  shows "\<exists>m'. mosquitto_packet_recv now (feed cs m) = (None, m') \<and>
    pk_command (m_in_packet m') = cmd \<and> pk_payload (m_in_packet m') = payload \<and>
    pk_remaining_length (m_in_packet m') = length payload \<and> pk_pos (m_in_packet m') = 0 \<and>
    unread m' = rest"
  using assms by (rule packet_recv_feed_complete)

definition demo_client :: mosquitto where
  "demo_client = mosquitto_zero\<lparr>m_sock := Some \<lparr>sk_fd = 3, sk_in = [], sk_out = [], sk_wire = []\<rparr>,
     m_state := mosq_cs_connected, m_in_packet := mosquitto_packet_cleanup packet_zero\<rparr>"

theorem packet_recv_complete_witness:
  "\<exists>m'. mosquitto_packet_recv 0 (feed [[0xC0], [0], [0xD0]] demo_client) = (None, m') \<and>
     pk_command (m_in_packet m') = 0xC0 \<and> unread m' = [0xD0]"
proof -
  have "\<exists>m'. mosquitto_packet_recv 0 (feed [[0xC0], [0], [0xD0]] demo_client) = (None, m') \<and>
    pk_command (m_in_packet m') = 0xC0 \<and> pk_payload (m_in_packet m') = [] \<and>
    pk_remaining_length (m_in_packet m') = length ([] :: byte list) \<and> pk_pos (m_in_packet m') = 0 \<and>
    unread m' = [0xD0]"
    by (rule packet_recv_complete [where p = packet_zero and sk = "\<lparr>sk_fd = 3, sk_in = [], sk_out = [], sk_wire = []\<rparr>"])
      (simp_all add: demo_client_def alloc_loop_small)
  then show ?thesis by blast
qed

text \<open>C12. A read that found too few bytes can be resumed: if the pieces \<open>cs1\<close> leave the packet
  incomplete, then reading \<open>cs2\<close> later has the result, the state and the unread bytes of one read
  of the same bytes cut in any other way. (The command byte must not be 0: the reader takes a
  command of 0 for none.)\<close>

theorem packet_recv_resume:
  assumes "m_sock m = Some sk" "m_state m \<noteq> mosq_cs_connect_pending" "in_ok (m_in_packet m)"
    "pk_command (m_in_packet m) = 0 \<and> concat cs1 \<noteq> [] \<longrightarrow> hd (concat cs1) \<noteq> 0"
    "[] \<notin> set cs1" "[] \<notin> set cs2" "[] \<notin> set cs" "concat cs = concat cs1 @ concat cs2"
    "mosquitto_packet_recv now (feed cs1 m) = (Some MOSQ_ERR_SUCCESS, m1)"
  shows "fst (mosquitto_packet_recv now' (feed cs m)) = fst (mosquitto_packet_recv now' (feed cs2 m1)) \<and>
    observe (snd (mosquitto_packet_recv now' (feed cs m))) = observe (snd (mosquitto_packet_recv now' (feed cs2 m1)))"
proof -
  obtain rc0 n1 r1 where f1: "flat_recv now m (concat cs1) = (rc0, n1, r1)" by (metis prod_cases3)
  obtain s1 where s1: "mosquitto_packet_recv now (feed cs1 m) = (rc0, n1\<lparr>m_sock := Some s1\<rparr>)"
      "sk_in s1 = map Recv [] \<or> r1 \<noteq> []" "s1\<lparr>sk_in := []\<rparr> = sk\<lparr>sk_in := []\<rparr>"
    using packet_recv_feed [OF assms(1,5,3,2) f1] by (metis has_stream_Nil list.simps(8))
  have rc0: "rc0 = Some MOSQ_ERR_SUCCESS" "m1 = n1\<lparr>m_sock := Some s1\<rparr>" using s1(1) assms(9) by auto
  obtain rc m2 r where fa: "flat_recv now' m (concat cs) = (rc, m2, r)" by (metis prod_cases3)
  obtain rc' m2' r' where fb: "flat_recv now' n1 (concat cs2) = (rc', m2', r')" by (metis prod_cases3)
  have R: "in_ok (m_in_packet n1)" "rc = rc'" "r = r'" "strip m2 = strip m2'" "m_state n1 = m_state m"
    using flat_recv_resume [OF assms(3) _ f1 [unfolded rc0(1)] fa [unfolded assms(8)] fb] assms(4) by auto
  obtain sa where sa: "mosquitto_packet_recv now' (feed cs m) = (rc, m2\<lparr>m_sock := Some sa\<rparr>)"
      "has_stream sa r" "sa\<lparr>sk_in := []\<rparr> = sk\<lparr>sk_in := []\<rparr>"
    using packet_recv_feed [OF assms(1,7,3,2) fa] by blast
  have "flat_recv now' m1 (concat cs2) = (rc', m2'\<lparr>m_sock := Some s1\<rparr>, r')"
    using fb unfolding rc0(2) flat_recv_sock by simp
  then obtain sb where sb: "mosquitto_packet_recv now' (feed cs2 m1) = (rc', m2'\<lparr>m_sock := Some s1, m_sock := Some sb\<rparr>)"
      "has_stream sb r'" "sb\<lparr>sk_in := []\<rparr> = s1\<lparr>sk_in := []\<rparr>"
    using packet_recv_feed [of m1 s1 cs2 now'] R assms rc0 by auto
  have "observe (m2\<lparr>m_sock := Some sa\<rparr>) = observe (m2'\<lparr>m_sock := Some sb\<rparr>)"
    unfolding observe_strip using sa sb s1(3) R(3,4) unread_stream by simp
  then show ?thesis using sa sb R by simp
qed

theorem packet_recv_resume_witness:
  "fst (mosquitto_packet_recv 9 (feed [[0xC0, 0]] demo_client)) =
   fst (mosquitto_packet_recv 9 (feed [[0]] (snd (mosquitto_packet_recv 8 (feed [[0xC0]] demo_client)))))"
proof -
  have "mosquitto_packet_recv 8 (feed [[0xC0]] demo_client) =
    (Some MOSQ_ERR_SUCCESS, snd (mosquitto_packet_recv 8 (feed [[0xC0]] demo_client)))"
    by (simp add: demo_client_def mosquitto_packet_recv_def read_command_def mosquitto_net_read_def
        read_header_def read_length.simps net_errno_def mosquitto_packet_cleanup_def)
  from packet_recv_resume [OF _ _ _ _ _ _ _ _ this, of "\<lparr>sk_fd = 3, sk_in = [], sk_out = [], sk_wire = []\<rparr>" "[[0]]" "[[0xC0, 0]]" 9]
  show ?thesis by (simp add: demo_client_def in_ok_def mosquitto_packet_cleanup_def)
qed

end
