(* ===== verification/Mqtt_Send_Laws.thy ===== *)
theory Mqtt_Send_Laws
  imports Mqtt_Packet_Laws
begin

text \<open>
  The laws of sending: the output queue of a context is one stream of bytes, of which the socket has
  taken a prefix; what each send function appends to the stream; and the round trip of a
  published message from the sender's fields to the receiver's.
\<close>

section \<open>The output queue as a stream\<close>

definition pk_rest :: "packet \<Rightarrow> byte list" where
  "pk_rest p = drop (pk_pos p) (pk_payload p)"

definition pk_ok :: "packet \<Rightarrow> bool" where
  "pk_ok p \<longleftrightarrow> pk_pos p + pk_to_process p = length (pk_payload p)"

definition pending :: "mosquitto \<Rightarrow> byte list" where
  "pending m = (case m_current_out_packet m of None \<Rightarrow> [] | Some p \<Rightarrow> pk_rest p) @
     concat (map pk_rest (m_out_packet m))"

definition out_ok :: "mosquitto \<Rightarrow> bool" where
  "out_ok m \<longleftrightarrow> (\<forall>p \<in> set_option (m_current_out_packet m) \<union> set (m_out_packet m). pk_ok p)"

definition wire :: "mosquitto \<Rightarrow> byte list" where
  "wire m = (case m_sock m of None \<Rightarrow> [] | Some sk \<Rightarrow> sk_wire sk)"

text \<open>Everything sent to the client of a context, taken by the kernel or not.\<close>

definition out_stream :: "mosquitto \<Rightarrow> byte list" where
  "out_stream m = wire m @ pending m"

lemma write_packet_stream:
  "pk_ok p \<Longrightarrow> write_packet sk p = (rc, p', sk') \<Longrightarrow>
   pk_ok p' \<and> sk_wire sk' @ pk_rest p' = sk_wire sk @ pk_rest p \<and> (rc = None \<longrightarrow> pk_rest p' = []) \<and>
   sk_fd sk' = sk_fd sk \<and> sk_in sk' = sk_in sk"
proof (induction sk p rule: write_packet.induct)
  case (1 sk p)
  show ?case
  proof (cases "pk_to_process p > 0")
    case False
    then show ?thesis using "1.prems" by (subst (asm) write_packet.simps) (auto simp: pk_ok_def pk_rest_def)
  next
    case True
    have len: "take (pk_to_process p) (drop (pk_pos p) (pk_payload p)) = pk_rest p" "length (pk_rest p) = pk_to_process p"
      using "1.prems"(1) by (auto simp: pk_ok_def pk_rest_def)
    obtain r s where w: "mosquitto_net_write sk (pk_rest p) = (r, s)" by fastforce
    show ?thesis
    proof (cases r)
      case (Inl e)
      have "sk_wire s = sk_wire sk" "sk_fd s = sk_fd sk" "sk_in s = sk_in sk"
        using w Inl by (auto simp: mosquitto_net_write_def split: list.splits net_out.splits)
      then show ?thesis using "1.prems" True w Inl len by (subst (asm) write_packet.simps) auto
    next
      case (Inr n)
      have n: "n \<le> pk_to_process p" "sk_wire s = sk_wire sk @ take n (pk_rest p)" "sk_fd s = sk_fd sk" "sk_in s = sk_in sk"
        using w Inr len(2) by (auto simp: mosquitto_net_write_def min_def split: list.splits net_out.splits)
      show ?thesis
      proof (cases "n > 0")
        case False
        then show ?thesis using "1.prems" True w Inr len n by (subst (asm) write_packet.simps) auto
      next
        case pos: True
        let ?q = "p\<lparr>pk_to_process := pk_to_process p - n, pk_pos := pk_pos p + n\<rparr>"
        have q: "pk_ok ?q" "take n (pk_rest p) @ pk_rest ?q = pk_rest p"
          using n(1) "1.prems"(1) by (auto simp: pk_ok_def pk_rest_def) (metis append_take_drop_id drop_drop add.commute)
        have "write_packet s ?q = (rc, p', sk')"
          using "1.prems"(2) True w Inr pos len by (subst (asm) write_packet.simps) simp
        then show ?thesis
          using "1.IH" [OF True _ Inr pos q(1)] w len n q(2) by (metis append.assoc)
      qed
    qed
  qed
qed

lemma write_loop_stream:
  "pk_ok p \<Longrightarrow> \<forall>p \<in> set q. pk_ok p \<Longrightarrow> write_loop now m sk p q = (rc, m') \<Longrightarrow>
   out_ok m' \<and> out_stream m' = sk_wire sk @ pk_rest p @ concat (map pk_rest q) \<and>
   (\<exists>sk'. m_sock m' = Some sk' \<and> sk_in sk' = sk_in sk \<and> sk_fd sk' = sk_fd sk)"
proof (induction now m sk p q rule: write_loop.induct)
  case (1 now m sk p q)
  obtain rc1 p1 sk1 where w: "write_packet sk p = (rc1, p1, sk1)" by (metis prod_cases3)
  note s = write_packet_stream [OF "1.prems"(1) w]
  show ?case
  proof (cases rc1)
    case (Some r)
    then have "m' = m\<lparr>m_sock := Some sk1, m_current_out_packet := Some p1, m_out_packet := q\<rparr>"
      using "1.prems"(3) w by (subst (asm) write_loop.simps) simp
    then show ?thesis using s "1.prems"(2) by (simp add: out_ok_def out_stream_def wire_def pending_def)
  next
    case None
    then have r0: "sk_wire sk1 = sk_wire sk @ pk_rest p" using s by auto
    show ?thesis
    proof (cases q)
      case Nil
      then have "m' = m\<lparr>m_sock := Some sk1, m_last_msg_out := now, m_current_out_packet := None, m_out_packet := []\<rparr>"
        using "1.prems"(3) w None by (subst (asm) write_loop.simps) simp
      then show ?thesis using s r0 Nil by (simp add: out_ok_def out_stream_def wire_def pending_def)
    next
      case (Cons p2 q2)
      then have "write_loop now (m\<lparr>m_last_msg_out := now\<rparr>) sk1 p2 q2 = (rc, m')"
        using "1.prems"(3) w None by (subst (asm) write_loop.simps) simp
      from "1.IH" [OF w [symmetric] None refl Cons _ _ this] show ?thesis using "1.prems"(2) Cons r0 s by simp
    qed
  qed
qed

lemma packet_write_stream:
  assumes "out_ok m" "mosquitto_packet_write now m = (rc, m')"
  shows "out_ok m' \<and> out_stream m' = out_stream m \<and> map_option sk_in (m_sock m') = map_option sk_in (m_sock m) \<and>
    map_option sk_fd (m_sock m') = map_option sk_fd (m_sock m)"
proof (cases "m_sock m")
  case None
  then show ?thesis using assms by (simp add: mosquitto_packet_write_def)
next
  case (Some sk)
  define n where "n = (case (m_current_out_packet m, m_out_packet m) of
      (None, p # q) \<Rightarrow> m\<lparr>m_current_out_packet := Some p, m_out_packet := q\<rparr> | _ \<Rightarrow> m)"
  have n: "out_ok n" "out_stream n = out_stream m" "m_sock n = m_sock m" "m_state n = m_state m"
    using assms(1) by (auto simp: n_def out_ok_def out_stream_def wire_def pending_def split: option.splits list.splits)
  have w: "mosquitto_packet_write now m = (if m_state n = mosq_cs_connect_pending then (MOSQ_ERR_SUCCESS, n)
      else case m_current_out_packet n of None \<Rightarrow> (MOSQ_ERR_SUCCESS, n)
         | Some p \<Rightarrow> write_loop now n sk p (m_out_packet n))"
    unfolding mosquitto_packet_write_def n_def [symmetric] Let_def Some by simp
  show ?thesis
  proof (cases "m_state n = mosq_cs_connect_pending \<or> m_current_out_packet n = None")
    case True
    then have "m' = n" using assms(2) unfolding w by (auto split: if_splits)
    then show ?thesis using n by simp
  next
    case False
    then obtain p where p: "m_current_out_packet n = Some p" by auto
    then have l: "write_loop now n sk p (m_out_packet n) = (rc, m')" using w assms(2) False by simp
    have "pk_ok p" "\<forall>p \<in> set (m_out_packet n). pk_ok p" using n(1) p by (auto simp: out_ok_def)
    from write_loop_stream [OF this l] show ?thesis
      using n Some p by (auto simp: out_stream_def wire_def pending_def)
  qed
qed

lemma packet_queue_stream:
  assumes "out_ok m" "pk_packet_length p = length (pk_payload p)" "mosquitto_packet_queue now m p = (rc, m')"
  shows "out_ok m' \<and> out_stream m' = out_stream m @ pk_payload p \<and>
    map_option sk_in (m_sock m') = map_option sk_in (m_sock m) \<and>
    map_option sk_fd (m_sock m') = map_option sk_fd (m_sock m)"
proof -
  let ?m = "m\<lparr>m_out_packet := m_out_packet m @ [p\<lparr>pk_pos := 0, pk_to_process := pk_packet_length p\<rparr>]\<rparr>"
  have "out_ok ?m" "out_stream ?m = out_stream m @ pk_payload p"
    using assms(1,2) by (auto simp: out_ok_def pk_ok_def out_stream_def wire_def pending_def pk_rest_def)
  then show ?thesis using packet_write_stream [of ?m now rc m'] assms(3) by (auto simp: mosquitto_packet_queue_def)
qed

text \<open>What writing and queueing leave alone: all but the socket, the output queue, a time stamp and \<open>m_ub\<close>.\<close>

definition same_client :: "mosquitto \<Rightarrow> mosquitto \<Rightarrow> bool" where
  "same_client m m' \<longleftrightarrow> (\<exists>s c q t u. m' = m\<lparr>m_sock := s, m_current_out_packet := c, m_out_packet := q,
     m_last_msg_out := t, m_ub := u\<rparr> \<and> (s = None \<longleftrightarrow> m_sock m = None))"

lemma same_clientI:
  "m' = m\<lparr>m_sock := s, m_current_out_packet := c, m_out_packet := q, m_last_msg_out := t, m_ub := u\<rparr> \<Longrightarrow>
   (s = None \<longleftrightarrow> m_sock m = None) \<Longrightarrow> same_client m m'"
  unfolding same_client_def by (intro exI conjI)

lemma same_clientE:
  assumes "same_client m m'"
  obtains s c q t u where
    "m' = m\<lparr>m_sock := s, m_current_out_packet := c, m_out_packet := q, m_last_msg_out := t, m_ub := u\<rparr>" "s = None \<longleftrightarrow> m_sock m = None"
  using assms unfolding same_client_def by (elim exE conjE)

lemma same_client_refl [simp]: "same_client m m"
  by (rule same_clientI [where s = "m_sock m" and c = "m_current_out_packet m" and q = "m_out_packet m"
        and t = "m_last_msg_out m" and u = "m_ub m"]) (cases m, simp_all)

lemma same_client_upd:
  "same_client m (m\<lparr>m_ub := u\<rparr>)" "same_client m (m\<lparr>m_last_msg_out := t\<rparr>)" "same_client m (m\<lparr>m_out_packet := q\<rparr>)"
  "same_client m (m\<lparr>m_current_out_packet := c, m_out_packet := q\<rparr>)"
  "m_sock m \<noteq> None \<Longrightarrow> same_client m (m\<lparr>m_sock := Some sk, m_current_out_packet := c, m_out_packet := q\<rparr>)"
  "m_sock m \<noteq> None \<Longrightarrow>
   same_client m (m\<lparr>m_sock := Some sk, m_last_msg_out := t, m_current_out_packet := c, m_out_packet := q\<rparr>)"
  by (cases m, auto simp: same_client_def)+

lemma same_client_sel:
  assumes "same_client m m'"
  shows "m_live m' = m_live m" "m_id m' = m_id m" "m_state m' = m_state m" "m_msgs m' = m_msgs m"
    "m_last_msg m' = m_last_msg m" "m_msg_count m' = m_msg_count m" "m_msg_count12 m' = m_msg_count12 m"
    "m_subs m' = m_subs m" "m_clean_session m' = m_clean_session m" "m_in_packet m' = m_in_packet m"
    "m_username m' = m_username m" "m_acl_list m' = m_acl_list m" "m_will m' = m_will m"
    "m_protocol m' = m_protocol m" "m_is_bridge m' = m_is_bridge m" "m_listener m' = m_listener m"
    "m_last_mid m' = m_last_mid m"
    "(m_sock m' = None) = (m_sock m = None)"
  using assms by (auto simp: same_client_def)

lemma same_client_trans: "same_client a b \<Longrightarrow> same_client b c \<Longrightarrow> same_client a c"
proof -
  assume ab: "same_client a b" and bc: "same_client b c"
  obtain s k q t u where
    b: "b = a\<lparr>m_sock := s, m_current_out_packet := k, m_out_packet := q, m_last_msg_out := t, m_ub := u\<rparr>" "s = None \<longleftrightarrow> m_sock a = None"
    using ab by (rule same_clientE)
  obtain s' k' q' t' u' where
    "c = b\<lparr>m_sock := s', m_current_out_packet := k', m_out_packet := q', m_last_msg_out := t', m_ub := u'\<rparr>" "s' = None \<longleftrightarrow> m_sock b = None"
    using bc by (rule same_clientE)
  then show ?thesis using b by (intro same_clientI [where s = s' and c = k' and q = q' and t = t' and u = u']) simp_all
qed

lemma write_loop_same: "same_client m (snd (write_loop now m sk p q)) \<or> m_sock m = None"
proof (induction now m sk p q rule: write_loop.induct)
  case (1 now m sk p q)
  obtain rc1 p1 sk1 where w: "write_packet sk p = (rc1, p1, sk1)" by (metis prod_cases3)
  show ?case
  proof (cases "m_sock m = None")
    case False
    show ?thesis
    proof (cases rc1)
      case (Some r)
      then show ?thesis using w False by (subst write_loop.simps) (simp add: same_client_upd)
    next
      case None
      show ?thesis
      proof (cases q)
        case Nil
        then show ?thesis using w None False by (subst write_loop.simps) (simp add: same_client_upd)
      next
        case (Cons p2 q2)
        have "same_client (m\<lparr>m_last_msg_out := now\<rparr>) (snd (write_loop now (m\<lparr>m_last_msg_out := now\<rparr>) sk1 p2 q2))"
          using "1.IH" [OF w [symmetric] None refl Cons] False by simp
        moreover have "same_client m (m\<lparr>m_last_msg_out := now\<rparr>)" by (rule same_client_upd)
        ultimately show ?thesis
          using w None Cons same_client_trans by (subst write_loop.simps) auto
      qed
    qed
  qed simp
qed

lemma packet_write_same: "same_client m (snd (mosquitto_packet_write now m))"
proof (cases "m_sock m")
  case None
  then show ?thesis by (simp add: mosquitto_packet_write_def)
next
  case (Some sk)
  define n where "n = (case (m_current_out_packet m, m_out_packet m) of
      (None, p # q) \<Rightarrow> m\<lparr>m_current_out_packet := Some p, m_out_packet := q\<rparr> | _ \<Rightarrow> m)"
  have n: "same_client m n" "m_sock n = Some sk"
    using Some by (auto simp: n_def same_client_upd split: option.splits list.splits)
  have w: "mosquitto_packet_write now m = (if m_state n = mosq_cs_connect_pending then (MOSQ_ERR_SUCCESS, n)
      else case m_current_out_packet n of None \<Rightarrow> (MOSQ_ERR_SUCCESS, n)
         | Some p \<Rightarrow> write_loop now n sk p (m_out_packet n))"
    unfolding mosquitto_packet_write_def n_def [symmetric] Let_def Some by simp
  show ?thesis
    using w n write_loop_same [of n now sk] same_client_trans [OF n(1)]
    by (cases "m_current_out_packet n") auto
qed

lemma write_loop_ub: "m_ub (snd (write_loop now m sk p q)) = m_ub m"
  by (induction now m sk p q rule: write_loop.induct)
    (subst write_loop.simps, auto split: prod.splits option.splits list.splits)

lemma packet_write_ub: "m_ub (snd (mosquitto_packet_write now m)) = m_ub m"
  by (auto simp: mosquitto_packet_write_def write_loop_ub Let_def split: option.splits list.splits)

lemma packet_queue_ub: "m_ub (snd (mosquitto_packet_queue now m p)) = m_ub m"
  by (simp add: mosquitto_packet_queue_def packet_write_ub)

lemma packet_queue_same: "same_client m (snd (mosquitto_packet_queue now m p))"
proof -
  have "same_client m (m\<lparr>m_out_packet := m_out_packet m @ [p\<lparr>pk_pos := 0, pk_to_process := pk_packet_length p\<rparr>]\<rparr>)"
    by (rule same_client_upd)
  then show ?thesis unfolding mosquitto_packet_queue_def using packet_write_same same_client_trans by blast
qed


lemma send_packet_same: "same_client m (snd (send_packet now m p fill))"
proof -
  obtain rc q where a: "mosquitto_packet_alloc p = (rc, q)" by fastforce
  show ?thesis
    by (cases "fill q") (simp_all add: send_packet_def a same_client_upd packet_queue_same)
qed

lemma send_same [simp]:
  "same_client m (snd (mosquitto_send_command_with_mid now m command mid dup))"
  "same_client m (snd (mosquitto_send_simple_command now m command))"
  "same_client m (snd (mosquitto_send_pingresp now m))"
  "same_client m (snd (mosquitto_send_puback now m mid))"
  "same_client m (snd (mosquitto_send_pubrec now m mid))"
  "same_client m (snd (mosquitto_send_pubrel now m mid))"
  "same_client m (snd (mosquitto_send_pubcomp now m mid))"
  "same_client m (snd (mosquitto_send_real_publish now m mid topic payload qos retain dup))"
  "same_client m (snd (mosquitto_send_connack now m ack result))"
  "same_client m (snd (mosquitto_send_suback now m mid payload))"
  by (simp_all add: mosquitto_send_command_with_mid_def mosquitto_send_simple_command_def
      mosquitto_send_pingresp_def mosquitto_send_puback_def mosquitto_send_pubrec_def mosquitto_send_pubrel_def
      mosquitto_send_pubcomp_def mosquitto_send_real_publish_def mosquitto_send_connack_def
      mosquitto_send_suback_def send_packet_same Let_def)

lemma send_publish_same [simp]:
  "same_client m (snd (mosquitto_send_publish now mount m mid topic payload qos retain dup))"
  by (cases mount) (simp_all add: mosquitto_send_publish_def)

section \<open>What each send function appends to the stream\<close>

definition filling :: "packet \<Rightarrow> byte list \<Rightarrow> nat \<Rightarrow> bool" where
  "filling p pre k \<longleftrightarrow> pk_payload p = pre @ replicate k 0 \<and> pk_pos p = length pre \<and>
     pk_packet_length p = length pre + k"

definition frame :: "byte \<Rightarrow> byte list \<Rightarrow> byte list" where
  "frame command body = command # alloc_loop 0 (length body) @ body"

lemma packet_alloc_ok:
  assumes "pk_remaining_length p < 2 ^ 28"
  shows "\<exists>q. mosquitto_packet_alloc p = (MOSQ_ERR_SUCCESS, q) \<and>
    filling q (pk_command p # alloc_loop 0 (pk_remaining_length p)) (pk_remaining_length p)"
proof -
  have n: "length (alloc_loop 0 (pk_remaining_length p)) < 5"
    using alloc_loop_iff [of "pk_remaining_length p"] alloc_loop_max [of 0 "pk_remaining_length p"] assms by simp
  then have "(pk_remaining_length p + 1 + length (alloc_loop 0 (pk_remaining_length p))) mod 2 ^ 32 =
      pk_remaining_length p + 1 + length (alloc_loop 0 (pk_remaining_length p))"
    using assms by simp
  then show ?thesis using n by (simp add: mosquitto_packet_alloc_def Let_def filling_def)
qed

lemma packet_alloc_too_long:
  "2 ^ 28 \<le> pk_remaining_length p \<Longrightarrow> fst (mosquitto_packet_alloc p) = MOSQ_ERR_PAYLOAD_SIZE"
  using alloc_loop_iff [of "pk_remaining_length p"] by (simp add: mosquitto_packet_alloc_def)

lemma write_byte_filling:
  "filling p pre k \<Longrightarrow> 1 \<le> k \<Longrightarrow> \<exists>q. mosquitto_write_byte b p = Some q \<and> filling q (pre @ [b]) (k - 1)"
  by (cases k) (auto simp: mosquitto_write_byte_def filling_def)

lemma write_bytes_filling:
  "filling p pre k \<Longrightarrow> length bs \<le> k \<Longrightarrow>
   \<exists>q. mosquitto_write_bytes bs p = Some q \<and> filling q (pre @ bs) (k - length bs)"
  by (auto simp: mosquitto_write_bytes_def filling_def)

lemma write_uint16_filling:
  assumes "filling p pre k" "2 \<le> k"
  shows "\<exists>q. mosquitto_write_uint16 w p = Some q \<and> filling q (pre @ [MOSQ_MSB w, MOSQ_LSB w]) (k - 2)"
proof -
  obtain q where q: "mosquitto_write_byte (MOSQ_MSB w) p = Some q" "filling q (pre @ [MOSQ_MSB w]) (k - 1)"
    using write_byte_filling [OF assms(1), of "MOSQ_MSB w"] assms(2) by auto
  have k: "1 \<le> k - 1" using assms(2) by simp
  obtain r where "mosquitto_write_byte (MOSQ_LSB w) q = Some r" "filling r ((pre @ [MOSQ_MSB w]) @ [MOSQ_LSB w]) (k - 1 - 1)"
    using write_byte_filling [OF q(2) k, of "MOSQ_LSB w"] by blast
  then show ?thesis using q(1) by (auto simp: mosquitto_write_uint16_def numeral_2_eq_2)
qed

lemma length_bytes [simp]: "length (bytes s) = length s"
  by (simp add: bytes_def)

lemma write_string_filling:
  assumes "filling p pre k" "length s \<le> 65535" "2 + length s \<le> k"
  shows "\<exists>q. mosquitto_write_string s (word_of_nat (length s)) p = Some q \<and>
    filling q (pre @ [MOSQ_MSB (word_of_nat (length s)), MOSQ_LSB (word_of_nat (length s))] @ bytes s) (k - 2 - length s)"
proof -
  let ?w = "word_of_nat (length s) :: u16"
  have u: "unat ?w = length s" using assms(2) by (simp add: unat_of_nat)
  obtain q where q: "mosquitto_write_uint16 ?w p = Some q" "filling q (pre @ [MOSQ_MSB ?w, MOSQ_LSB ?w]) (k - 2)"
    using write_uint16_filling [OF assms(1), of ?w] assms(3) by auto
  have k: "length (bytes s) \<le> k - 2" using assms(3) by simp
  obtain r where "mosquitto_write_bytes (bytes s) q = Some r"
    "filling r ((pre @ [MOSQ_MSB ?w, MOSQ_LSB ?w]) @ bytes s) (k - 2 - length (bytes s))"
    using write_bytes_filling [OF q(2) k] by blast
  then show ?thesis using q(1) u by (auto simp: mosquitto_write_string_def)
qed

lemma send_packet_stream:
  assumes "out_ok m" "send_packet now m p fill = (rc, m')" "pk_command p = command"
    "pk_remaining_length p = length body" "length body < 2 ^ 28"
    "\<And>q. filling q (command # alloc_loop 0 (length body)) (length body) \<Longrightarrow>
       \<exists>r. fill q = Some r \<and> pk_payload r = frame command body \<and> pk_packet_length r = length (pk_payload r)"
  shows "out_ok m' \<and> out_stream m' = out_stream m @ frame command body \<and> m_ub m' = m_ub m"
proof -
  obtain q where q: "mosquitto_packet_alloc p = (MOSQ_ERR_SUCCESS, q)"
    "filling q (command # alloc_loop 0 (length body)) (length body)"
    using packet_alloc_ok [of p] assms(3-5) by auto
  obtain r where r: "fill q = Some r" "pk_payload r = frame command body" "pk_packet_length r = length (pk_payload r)"
    using assms(6) [OF q(2)] by blast
  have s: "mosquitto_packet_queue now m r = (rc, m')" using assms(2) q r by (simp add: send_packet_def)
  show ?thesis using packet_queue_stream [OF assms(1) r(3) s] r(2) packet_queue_ub [of now m r] s by simp
qed

lemma send_two_stream:
  assumes "out_ok m" "pk_command p = command" "pk_remaining_length p = 2"
    "send_packet now m p (\<lambda>p. Some (p\<lparr>pk_payload := (pk_payload p)[pk_pos p := x, pk_pos p + 1 := y]\<rparr>)) = (rc, m')"
  shows "out_ok m' \<and> out_stream m' = out_stream m @ frame command [x, y] \<and> m_ub m' = m_ub m"
  by (rule send_packet_stream [OF assms(1,4,2)])
    (use assms(3) in \<open>auto simp: filling_def frame_def list_update_append\<close>)

lemma send_mid_stream:
  assumes "out_ok m" "mosquitto_send_command_with_mid now m command mid False = (rc, m')"
  shows "out_ok m' \<and> out_stream m' = out_stream m @ frame command [MOSQ_MSB mid, MOSQ_LSB mid] \<and> m_ub m' = m_ub m"
  by (rule send_two_stream [OF assms(1) _ _ assms(2) [unfolded mosquitto_send_command_with_mid_def]]) simp_all

lemma send_connack_stream:
  assumes "out_ok m" "mosquitto_send_connack now m ack result = (rc, m')"
  shows "out_ok m' \<and> out_stream m' = out_stream m @ frame CONNACK [ack, result] \<and> m_ub m' = m_ub m"
  by (rule send_two_stream [OF assms(1) _ _ assms(2) [unfolded mosquitto_send_connack_def]]) simp_all

lemma send_simple_stream:
  assumes "out_ok m" "mosquitto_send_simple_command now m command = (rc, m')"
  shows "out_ok m' \<and> out_stream m' = out_stream m @ frame command [] \<and> m_ub m' = m_ub m"
  by (rule send_packet_stream [OF assms(1) assms(2) [unfolded mosquitto_send_simple_command_def]])
    (auto simp: filling_def frame_def)

lemma filling_done: "filling r pre 0 \<Longrightarrow> pk_payload r = pre \<and> pk_packet_length r = length (pk_payload r)"
  by (simp add: filling_def)

lemma write_rest_filling:
  assumes "filling p pre (length bs)"
  shows "\<exists>r. (if bs \<noteq> [] then mosquitto_write_bytes bs p else Some p) = Some r \<and> pk_payload r = pre @ bs \<and>
    pk_packet_length r = length (pk_payload r)"
  using write_bytes_filling [OF assms order_refl] filling_done assms by (cases "bs = []") auto

lemma send_suback_stream:
  assumes "out_ok m" "mosquitto_send_suback now m mid payload = (rc, m')" "length payload + 2 < 2 ^ 28"
  shows "out_ok m' \<and> out_stream m' = out_stream m @ frame SUBACK ([MOSQ_MSB mid, MOSQ_LSB mid] @ payload) \<and> m_ub m' = m_ub m"
proof (rule send_packet_stream [OF assms(1) assms(2) [unfolded mosquitto_send_suback_def]])
  fix q
  let ?body = "[MOSQ_MSB mid, MOSQ_LSB mid] @ payload"
  assume "filling q (SUBACK # alloc_loop 0 (length ?body)) (length ?body)"
  then obtain p where "mosquitto_write_uint16 mid q = Some p"
    "filling p ((SUBACK # alloc_loop 0 (length ?body)) @ [MOSQ_MSB mid, MOSQ_LSB mid]) (length payload)"
    using write_uint16_filling [of q _ "length ?body" mid] by fastforce
  then show "\<exists>r. Option.bind (mosquitto_write_uint16 mid q)
        (\<lambda>p. if payload \<noteq> [] then mosquitto_write_bytes payload p else Some p) = Some r \<and>
      pk_payload r = frame SUBACK ?body \<and> pk_packet_length r = length (pk_payload r)"
    using write_rest_filling [of p _ payload] by (fastforce simp: frame_def)
qed (use assms(3) in simp_all)

text \<open>The body of a \<open>PUBLISH\<close> packet.\<close>

definition publish_body :: "u16 \<Rightarrow> cstring \<Rightarrow> byte list \<Rightarrow> nat \<Rightarrow> byte list" where
  "publish_body mid topic payload qos =
     [MOSQ_MSB (word_of_nat (length topic)), MOSQ_LSB (word_of_nat (length topic))] @ bytes topic @
     (if qos > 0 then [MOSQ_MSB mid, MOSQ_LSB mid] else []) @ payload"

lemma send_real_publish_stream:
  assumes "out_ok m" "mosquitto_send_real_publish now m mid topic payload qos retain dup = (rc, m')"
    "length topic \<le> 65535" "length (publish_body mid topic payload qos) < 2 ^ 28"
  shows "out_ok m' \<and>
    out_stream m' = out_stream m @ frame (publish_command qos retain dup) (publish_body mid topic payload qos) \<and>
    m_ub m' = m_ub m"
proof (rule send_packet_stream [OF assms(1) assms(2) [unfolded mosquitto_send_real_publish_def Let_def]])
  fix q
  let ?body = "publish_body mid topic payload qos"
  let ?c = "publish_command qos retain dup"
  let ?t = "[MOSQ_MSB (word_of_nat (length topic)), MOSQ_LSB (word_of_nat (length topic))] @ bytes topic"
  let ?m = "if qos > 0 then [MOSQ_MSB mid, MOSQ_LSB mid] else []"
  let ?h = "?c # alloc_loop 0 (length ?body)"
  assume "filling q ?h (length ?body)"
  moreover have b: "length ?body = 2 + length topic + length ?m + length payload" by (simp add: publish_body_def)
  ultimately obtain p where p: "mosquitto_write_string topic (word_of_nat (length topic)) q = Some p"
    "filling p (?h @ ?t) (length ?m + length payload)"
    using write_string_filling [of q ?h "length ?body" topic] assms(3) by fastforce
  have "\<exists>r. (if qos > 0 then mosquitto_write_uint16 mid p else Some p) = Some r \<and>
      filling r ((?h @ ?t) @ ?m) (length payload)"
    using write_uint16_filling [OF p(2), of mid] p(2) by (cases "qos > 0") auto
  then obtain r where r: "(if qos > 0 then mosquitto_write_uint16 mid p else Some p) = Some r"
    "filling r ((?h @ ?t) @ ?m) (length payload)" by blast
  obtain s where "(if payload \<noteq> [] then mosquitto_write_bytes payload r else Some r) = Some s"
    "pk_payload s = ((?h @ ?t) @ ?m) @ payload" "pk_packet_length s = length (pk_payload s)"
    using write_rest_filling [OF r(2)] by blast
  then show "\<exists>r. Option.bind (mosquitto_write_string topic (word_of_nat (length topic)) q)
           (\<lambda>p. Option.bind (if 0 < qos then mosquitto_write_uint16 mid p else Some p)
              (\<lambda>p. if payload \<noteq> [] then mosquitto_write_bytes payload p else Some p)) = Some r \<and>
      pk_payload r = frame ?c ?body \<and> pk_packet_length r = length (pk_payload r)"
    using p(1) r(1) by (simp add: frame_def publish_body_def)
qed (use assms(4) in \<open>auto simp: publish_body_def\<close>)

section \<open>Reading back\<close>

lemma chars_bytes [simp]: "chars (bytes s) = s"
proof -
  have "char_of (unat (word_of_nat (of_char c) :: byte)) = c" for c
    by (simp add: unat_of_nat)
  then show ?thesis by (induction s) (simp_all add: chars_def bytes_def)
qed

text \<open>The unread part of a packet.\<close>

definition at :: "packet \<Rightarrow> byte list \<Rightarrow> bool" where
  "at p bs \<longleftrightarrow> pk_remaining_length p = length (pk_payload p) \<and> length (pk_payload p) < 2 ^ 28 \<and>
     pk_pos p \<le> length (pk_payload p) \<and> drop (pk_pos p) (pk_payload p) = bs"

lemma at_length: "at p bs \<Longrightarrow> pk_remaining_length p = pk_pos p + length bs \<and> pk_pos p + length bs < 2 ^ 28"
  by (auto simp: at_def)

lemma at_advance:
  assumes "at p (xs @ ys)"
  shows "at (p\<lparr>pk_pos := pk_pos p + length xs\<rparr>) ys"
proof -
  have d: "drop (pk_pos p) (pk_payload p) = xs @ ys" using assms by (simp add: at_def)
  have "drop (length xs) (drop (pk_pos p) (pk_payload p)) = ys" unfolding d by simp
  moreover have "pk_pos p + length xs \<le> length (pk_payload p)"
    using at_length [OF assms] assms by (simp add: at_def)
  ultimately show ?thesis using assms by (simp add: at_def add.commute)
qed

lemma read_bytes_at:
  "at p (xs @ ys) \<Longrightarrow> \<exists>q. mosquitto_read_bytes p (length xs) = Some (xs, q) \<and> at q ys"
  using at_advance [of p xs ys] at_length [of p "xs @ ys"]
  by (auto simp: mosquitto_read_bytes_def at_def)

lemma read_byte_at: "at p (x # ys) \<Longrightarrow> \<exists>q. mosquitto_read_byte p = Some (x, q) \<and> at q ys"
proof -
  assume a: "at p (x # ys)"
  have "pk_payload p ! pk_pos p = x"
    using a by (metis at_def nth_via_drop)
  then show ?thesis using at_advance [of p "[x]" ys] at_length [OF a] a by (simp add: mosquitto_read_byte_def)
qed

lemma read_uint16_at:
  "at p (MOSQ_MSB w # MOSQ_LSB w # ys) \<Longrightarrow> \<exists>q. mosquitto_read_uint16 p = Some (w, q) \<and> at q ys"
proof -
  assume a: "at p (MOSQ_MSB w # MOSQ_LSB w # ys)"
  have d: "drop (pk_pos p) (pk_payload p) = MOSQ_MSB w # MOSQ_LSB w # ys" using a by (simp add: at_def)
  have "pk_payload p ! pk_pos p = MOSQ_MSB w" "pk_payload p ! (pk_pos p + 1) = MOSQ_LSB w"
    using d by (metis nth_via_drop) (metis d drop_Suc nth_via_drop drop_drop tl_drop list.sel(3) add.commute plus_1_eq_Suc)
  then show ?thesis
    using at_advance [of p "[MOSQ_MSB w, MOSQ_LSB w]" ys] at_length [OF a] a MSB_LSB [of w]
    by (simp add: mosquitto_read_uint16_def Let_def)
qed

lemma read_string_at:
  assumes "at p ([MOSQ_MSB (word_of_nat (length s)), MOSQ_LSB (word_of_nat (length s))] @ bytes s @ ys)"
    "length s \<le> 65535" "NUL \<notin> set s"
  shows "\<exists>q. mosquitto_read_string p = Some (s, q) \<and> at q ys"
proof -
  obtain q where q: "mosquitto_read_uint16 p = Some (word_of_nat (length s), q)" "at q (bytes s @ ys)"
    using read_uint16_at assms(1) by fastforce
  have u: "unat (word_of_nat (length s) :: u16) = length s" using assms(2) by (simp add: unat_of_nat)
  have t: "take (length s) (drop (pk_pos q) (pk_payload q)) = bytes s" using q(2) by (simp add: at_def)
  show ?thesis
    using q u t at_length [OF q(2)] at_advance [OF q(2)] assms(3)
    by (simp add: mosquitto_read_string_def)
qed

lemma publish_command_bits:
  assumes "qos \<le> 2"
  shows "publish_command qos retain dup AND 0xF0 = PUBLISH" "publish_command qos retain dup \<noteq> 0"
    "unat (drop_bit 1 (publish_command qos retain dup AND 0x06)) = qos"
    "(publish_command qos retain dup AND 0x01 \<noteq> 0) = retain" "(publish_command qos retain dup AND 0x08 \<noteq> 0) = dup"
proof -
  consider "qos = 0" | "qos = 1" | "qos = 2" using assms by linarith
  then have "publish_command qos retain dup AND 0xF0 = PUBLISH \<and> publish_command qos retain dup \<noteq> 0 \<and>
    unat (drop_bit 1 (publish_command qos retain dup AND 0x06)) = qos \<and>
    (publish_command qos retain dup AND 0x01 \<noteq> 0) = retain \<and> (publish_command qos retain dup AND 0x08 \<noteq> 0) = dup"
    by cases (cases retain; cases dup; simp add: publish_command_def PUBLISH_def)+
  then show "publish_command qos retain dup AND 0xF0 = PUBLISH" "publish_command qos retain dup \<noteq> 0"
    "unat (drop_bit 1 (publish_command qos retain dup AND 0x06)) = qos"
    "(publish_command qos retain dup AND 0x01 \<noteq> 0) = retain" "(publish_command qos retain dup AND 0x08 \<noteq> 0) = dup"
    by blast+
qed


text \<open>C13. What \<open>_mosquitto_send_real_publish\<close> sends is what a receiver of the broker reads back: whatever
  the socket takes at once and however the network cuts the bytes, the receiver gets one packet with the
  QoS, retain and duplicate bits of the sender, and reading its topic, message id and payload yields
  the sender's. (The topic has no NUL and at most 65535 bytes, and the packet is below the MQTT limit.)\<close>

theorem publish_roundtrip:
  assumes "out_ok m" "NUL \<notin> set topic" "length topic \<le> 65535" "qos \<le> 2"
    "length (publish_body mid topic payload qos) < 2 ^ 28"
    "mosquitto_send_real_publish now m mid topic payload qos retain dup = (rc, m')"
    "m_sock r = Some sk" "m_state r = mosq_cs_connected" "m_in_packet r = mosquitto_packet_cleanup pz"
    "[] \<notin> set cs" "out_stream m @ concat cs = out_stream m' @ rest"
  shows "\<exists>r' p1 p2 p3. mosquitto_packet_recv now' (feed cs r) = (None, r') \<and> unread r' = rest \<and>
    pk_command (m_in_packet r') AND 0xF0 = PUBLISH \<and>
    unat (drop_bit 1 (pk_command (m_in_packet r') AND 0x06)) = qos \<and>
    (pk_command (m_in_packet r') AND 0x01 \<noteq> 0) = retain \<and> (pk_command (m_in_packet r') AND 0x08 \<noteq> 0) = dup \<and>
    mosquitto_read_string (m_in_packet r') = Some (topic, p1) \<and>
    (if qos > 0 then mosquitto_read_uint16 p1 = Some (mid, p2) else p2 = p1) \<and>
    mosquitto_read_bytes p2 (pk_remaining_length p2 - pk_pos p2) = Some (payload, p3)"
proof -
  let ?c = "publish_command qos retain dup"
  let ?body = "publish_body mid topic payload qos"
  note bits = publish_command_bits [OF assms(4), of retain dup]
  have "out_stream m' = out_stream m @ frame ?c ?body"
    using send_real_publish_stream [OF assms(1,6,3,5)] by simp
  then have cs: "concat cs = ?c # alloc_loop 0 (length ?body) @ ?body @ rest"
    using assms(11) by (simp add: frame_def)
  obtain r' where r': "mosquitto_packet_recv now' (feed cs r) = (None, r')"
      "pk_command (m_in_packet r') = ?c" "pk_payload (m_in_packet r') = ?body"
      "pk_remaining_length (m_in_packet r') = length ?body" "pk_pos (m_in_packet r') = 0" "unread r' = rest"
    using packet_recv_feed_complete [OF assms(7) _ assms(9) bits(2) _ assms(5,10) cs, of now'] assms(8) by auto
  let ?t = "[MOSQ_MSB (word_of_nat (length topic)), MOSQ_LSB (word_of_nat (length topic))] @ bytes topic"
  let ?m = "if qos > 0 then [MOSQ_MSB mid, MOSQ_LSB mid] else []"
  have "at (m_in_packet r') (?t @ ?m @ payload)"
    using r' assms(5) by (simp add: at_def publish_body_def)
  then obtain p1 where p1: "mosquitto_read_string (m_in_packet r') = Some (topic, p1)" "at p1 (?m @ payload)"
    using read_string_at [of "m_in_packet r'" topic "?m @ payload"] assms(2,3) by auto
  obtain p2 where p2: "if qos > 0 then mosquitto_read_uint16 p1 = Some (mid, p2) else p2 = p1" "at p2 payload"
    using read_uint16_at [of p1 mid payload] p1(2) by (cases "qos > 0") auto
  have "\<exists>p3. mosquitto_read_bytes p2 (pk_remaining_length p2 - pk_pos p2) = Some (payload, p3)"
    using read_bytes_at [of p2 payload "[]"] p2(2) at_length [OF p2(2)] by auto
  then show ?thesis using r' bits p1 p2 by metis
qed

theorem publish_roundtrip_witness:
  "\<exists>r' p1 p2 p3. mosquitto_packet_recv 5
      (feed (map (\<lambda>b. [b]) (pending (snd (mosquitto_send_real_publish 4 demo_client 7 ''a'' [0xFF] 1 True False)))) demo_client) = (None, r') \<and>
    unread r' = [] \<and> pk_command (m_in_packet r') AND 0xF0 = PUBLISH \<and>
    unat (drop_bit 1 (pk_command (m_in_packet r') AND 0x06)) = 1 \<and>
    (pk_command (m_in_packet r') AND 0x01 \<noteq> 0) = True \<and> (pk_command (m_in_packet r') AND 0x08 \<noteq> 0) = False \<and>
    mosquitto_read_string (m_in_packet r') = Some (''a'', p1) \<and>
    (if (1 :: nat) > 0 then mosquitto_read_uint16 p1 = Some (7, p2) else p2 = p1) \<and>
    mosquitto_read_bytes p2 (pk_remaining_length p2 - pk_pos p2) = Some ([0xFF], p3)"
proof (rule publish_roundtrip [where m = demo_client and rest = "[]" and pz = packet_zero
      and sk = "\<lparr>sk_fd = 3, sk_in = [], sk_out = [], sk_wire = []\<rparr>"])
  let ?s = "mosquitto_send_real_publish 4 demo_client 7 ''a'' [0xFF] 1 True False"
  show "mosquitto_send_real_publish 4 demo_client 7 ''a'' [0xFF] 1 True False = (fst ?s, snd ?s)" by simp
  have "wire (snd ?s) = []"
    by (simp add: mosquitto_send_real_publish_def send_packet_def mosquitto_packet_alloc_def alloc_loop_small Let_def
        mosquitto_write_string_def mosquitto_write_uint16_def mosquitto_write_byte_def mosquitto_write_bytes_def
        packet_zero_def demo_client_def bytes_def mosq_err_defs
        mosquitto_packet_queue_def mosquitto_packet_write_def write_loop.simps write_packet.simps
        mosquitto_net_write_def wire_def mosquitto_zero_def)
  then show "out_stream demo_client @ concat (map (\<lambda>b. [b]) (pending (snd ?s))) = out_stream (snd ?s) @ []"
    by (simp add: out_stream_def) (simp add: demo_client_def wire_def pending_def mosquitto_zero_def)
  show "out_ok demo_client" by (simp add: demo_client_def out_ok_def mosquitto_zero_def)
  show "length (publish_body 7 ''a'' [0xFF] 1) < 2 ^ 28" by (simp add: publish_body_def)
  show "[] \<notin> set (map (\<lambda>b. [b]) (pending (snd ?s)))" by auto
qed (simp_all add: demo_client_def)

text \<open>C14. The output queue is a lossless first-in first-out byte stream: queueing a packet appends
  exactly its bytes to what was sent before, writing moves bytes from the queue to the socket without
  losing, duplicating or reordering any, whatever the socket accepts and wherever it fails, and
  neither touches the rest of the client.\<close>

theorem packet_queue_fifo:
  assumes "out_ok m" "pk_packet_length p = length (pk_payload p)"
  shows "out_stream (snd (mosquitto_packet_write now m)) = out_stream m \<and>
    out_stream (snd (mosquitto_packet_queue now m p)) = out_stream m @ pk_payload p \<and>
    out_ok (snd (mosquitto_packet_write now m)) \<and> out_ok (snd (mosquitto_packet_queue now m p)) \<and>
    same_client m (snd (mosquitto_packet_queue now m p))"
  using packet_write_stream [OF assms(1), of now "fst (mosquitto_packet_write now m)" "snd (mosquitto_packet_write now m)"]
    packet_queue_stream [OF assms, of now "fst (mosquitto_packet_queue now m p)" "snd (mosquitto_packet_queue now m p)"]
    packet_queue_same by simp

theorem packet_queue_fifo_witness:
  "out_stream (snd (mosquitto_packet_queue 0 demo_client (packet_zero\<lparr>pk_payload := [0xC0, 0], pk_packet_length := 2\<rparr>))) = [0xC0, 0]"
  using packet_queue_fifo [of demo_client "packet_zero\<lparr>pk_payload := [0xC0, 0], pk_packet_length := 2\<rparr>" 0]
  by (simp add: demo_client_def out_ok_def out_stream_def wire_def pending_def mosquitto_zero_def)

section \<open>Progress\<close>

lemma write_packet_flush:
  "pk_ok p \<Longrightarrow> sk_out sk = map Sent ns \<Longrightarrow> \<forall>n \<in> set ns. 0 < n \<Longrightarrow> length (pk_rest p) \<le> length ns \<Longrightarrow>
   \<exists>p' sk' k. write_packet sk p = (None, p', sk') \<and> k \<le> length (pk_rest p) \<and> sk_out sk' = map Sent (drop k ns)"
proof (induction sk p arbitrary: ns rule: write_packet.induct)
  case (1 sk p)
  show ?case
  proof (cases "pk_to_process p > 0")
    case False
    then show ?thesis using "1.prems" by (subst write_packet.simps) (auto intro!: exI [of _ 0])
  next
    case True
    have len: "take (pk_to_process p) (drop (pk_pos p) (pk_payload p)) = pk_rest p" "length (pk_rest p) = pk_to_process p"
      using "1.prems"(1) by (auto simp: pk_ok_def pk_rest_def)
    then obtain n ns' where ns: "ns = n # ns'" "0 < n" using "1.prems"(3,4) True by (cases ns) auto
    let ?s = "sk\<lparr>sk_out := map Sent ns', sk_wire := sk_wire sk @ take n (pk_rest p)\<rparr>"
    let ?n = "min n (length (pk_rest p))"
    have w: "mosquitto_net_write sk (pk_rest p) = (Inr ?n, ?s)"
      using "1.prems"(2) ns by (simp add: mosquitto_net_write_def)
    then have w': "(Inr ?n, ?s) = mosquitto_net_write sk (take (pk_to_process p) (drop (pk_pos p) (pk_payload p)))"
      using len by simp
    let ?q = "p\<lparr>pk_to_process := pk_to_process p - ?n, pk_pos := pk_pos p + ?n\<rparr>"
    have n: "?n > 0" using ns True len by simp
    have q: "pk_ok ?q" "length (pk_rest ?q) = length (pk_rest p) - ?n"
      using "1.prems"(1) len by (auto simp: pk_ok_def pk_rest_def)
    have le: "length (pk_rest ?q) \<le> length ns'"
      unfolding q(2) using "1.prems"(4) ns(1) n len(2) True by simp
    obtain p' sk' k where IH: "write_packet ?s ?q = (None, p', sk')" "k \<le> length (pk_rest ?q)" "sk_out sk' = map Sent (drop k ns')"
      using "1.IH" [OF True w' refl n q(1), of ns'] le "1.prems"(3) ns by auto
    have "write_packet sk p = (None, p', sk')"
      using True w len n IH(1) by (subst write_packet.simps) simp
    moreover have "Suc k \<le> length (pk_rest p)" using IH(2) q(2) n len True by linarith
    ultimately show ?thesis using IH(3) ns by (intro exI [of _ p'] exI [of _ sk'] exI [of _ "Suc k"]) simp
  qed
qed

lemma write_loop_flush:
  "pk_ok p \<Longrightarrow> \<forall>p \<in> set q. pk_ok p \<Longrightarrow> sk_out sk = map Sent ns \<Longrightarrow> \<forall>n \<in> set ns. 0 < n \<Longrightarrow>
   length (pk_rest p @ concat (map pk_rest q)) \<le> length ns \<Longrightarrow>
   fst (write_loop now m sk p q) = MOSQ_ERR_SUCCESS \<and> pending (snd (write_loop now m sk p q)) = []"
proof (induction now m sk p q arbitrary: ns rule: write_loop.induct)
  case (1 now m sk p q)
  obtain p' sk' k where w: "write_packet sk p = (None, p', sk')" "k \<le> length (pk_rest p)" "sk_out sk' = map Sent (drop k ns)"
    using write_packet_flush [OF "1.prems"(1,3,4)] "1.prems"(5) by auto
  show ?case
  proof (cases q)
    case Nil
    then show ?thesis using w by (subst (1 2) write_loop.simps) (simp add: pending_def)
  next
    case (Cons p2 q2)
    have "\<forall>n \<in> set (drop k ns). 0 < n" using "1.prems"(4) in_set_dropD by fast
    then have "fst (write_loop now (m\<lparr>m_last_msg_out := now\<rparr>) sk' p2 q2) = MOSQ_ERR_SUCCESS \<and>
        pending (snd (write_loop now (m\<lparr>m_last_msg_out := now\<rparr>) sk' p2 q2)) = []"
      using "1.IH" [OF w(1) [symmetric] refl refl Cons _ _ w(3)] "1.prems"(2,5) Cons w(2) by simp
    then show ?thesis using w Cons by (subst (1 2) write_loop.simps) simp
  qed
qed

text \<open>C15. The queue empties: a socket that takes at least one byte at each of as many writes as there are
  bytes waiting leaves nothing queued, and the call succeeds.\<close>

theorem packet_write_flush:
  assumes "out_ok m" "m_sock m = Some sk" "m_state m \<noteq> mosq_cs_connect_pending"
    "sk_out sk = map Sent ns" "\<forall>n \<in> set ns. 0 < n" "length (pending m) \<le> length ns"
  shows "fst (mosquitto_packet_write now m) = MOSQ_ERR_SUCCESS \<and>
    wire (snd (mosquitto_packet_write now m)) = out_stream m \<and> pending (snd (mosquitto_packet_write now m)) = []"
proof -
  define n where "n = (case (m_current_out_packet m, m_out_packet m) of
      (None, p # q) \<Rightarrow> m\<lparr>m_current_out_packet := Some p, m_out_packet := q\<rparr> | _ \<Rightarrow> m)"
  have n: "out_ok n" "pending n = pending m" "m_sock n = m_sock m" "m_state n = m_state m"
      "m_current_out_packet n = None \<longrightarrow> m_out_packet n = []"
    using assms(1) by (auto simp: n_def out_ok_def pending_def split: option.splits list.splits)
  have w: "mosquitto_packet_write now m = (case m_current_out_packet n of None \<Rightarrow> (MOSQ_ERR_SUCCESS, n)
         | Some p \<Rightarrow> write_loop now n sk p (m_out_packet n))"
    using assms(2,3) n(4) unfolding mosquitto_packet_write_def n_def [symmetric] Let_def by simp
  have "fst (mosquitto_packet_write now m) = MOSQ_ERR_SUCCESS \<and> pending (snd (mosquitto_packet_write now m)) = []"
  proof (cases "m_current_out_packet n")
    case None
    then show ?thesis using w n(5) by (simp add: pending_def)
  next
    case (Some p)
    have "pk_ok p" "\<forall>p \<in> set (m_out_packet n). pk_ok p" using n(1) Some by (auto simp: out_ok_def)
    moreover have "length (pk_rest p @ concat (map pk_rest (m_out_packet n))) \<le> length ns"
      using assms(6) Some unfolding n(2) [symmetric] by (simp add: pending_def)
    ultimately show ?thesis using w Some write_loop_flush [OF _ _ assms(4,5), of p "m_out_packet n" now n] by simp
  qed
  then show ?thesis
    using packet_write_stream [OF assms(1) prod.collapse [symmetric], of now] by (simp add: out_stream_def)
qed

theorem packet_write_flush_witness:
  "pending (snd (mosquitto_packet_write 0 (demo_client\<lparr>m_sock := Some \<lparr>sk_fd = 3, sk_in = [], sk_out = [Sent 1, Sent 5], sk_wire = []\<rparr>,
     m_out_packet := [packet_zero\<lparr>pk_payload := [0xC0, 0], pk_to_process := 2, pk_packet_length := 2\<rparr>]\<rparr>))) = []"
  using packet_write_flush [of "demo_client\<lparr>m_sock := Some \<lparr>sk_fd = 3, sk_in = [], sk_out = [Sent 1, Sent 5], sk_wire = []\<rparr>,
     m_out_packet := [packet_zero\<lparr>pk_payload := [0xC0, 0], pk_to_process := 2, pk_packet_length := 2\<rparr>]\<rparr>" _ "[1, 5]" 0]
  by (simp add: demo_client_def out_ok_def pk_ok_def packet_zero_def pending_def mosquitto_zero_def pk_rest_def)

section \<open>Message identifiers\<close>

definition mid_after :: "nat \<Rightarrow> mosquitto \<Rightarrow> mosquitto" where
  "mid_after n m = ((\<lambda>m. snd (mosquitto_mid_generate m)) ^^ n) m"

lemma mid_step:
  "unat (m_last_mid (snd (mosquitto_mid_generate m))) =
     (if unat (m_last_mid m) = 65535 then 1 else unat (m_last_mid m) + 1)"
proof -
  have l: "unat (m_last_mid m) < 65536" using unsigned_less [of "m_last_mid m", where ?'a = nat] by simp
  have u: "unat (m_last_mid m + 1) = (unat (m_last_mid m) + 1) mod 65536"
    unfolding word_arith_nat_add [of "m_last_mid m" 1] unat_of_nat by simp
  show ?thesis
  proof (cases "unat (m_last_mid m) = 65535")
    case True
    then have "m_last_mid m + 1 = 0" using u by (simp add: unat_eq_zero [symmetric] del: unat_eq_zero)
    then show ?thesis using True by (simp add: mosquitto_mid_generate_def Let_def)
  next
    case False
    then have u': "unat (m_last_mid m + 1) = unat (m_last_mid m) + 1" using u l by simp
    then have "m_last_mid m + 1 \<noteq> 0" by (metis One_nat_def add_is_0 nat.simps(3) unsigned_0)
    then show ?thesis using False u' by (simp add: mosquitto_mid_generate_def Let_def)
  qed
qed

lemma mid_after_Suc: "mid_after (Suc n) m = snd (mosquitto_mid_generate (mid_after n m))"
  by (simp add: mid_after_def)

lemma mid_after_unat:
  "m_last_mid m \<noteq> 0 \<Longrightarrow> unat (m_last_mid (mid_after n m)) = (unat (m_last_mid m) - 1 + n) mod 65535 + 1"
proof (induction n)
  case 0
  have "unat (m_last_mid m) < 65536" using unsigned_less [of "m_last_mid m", where ?'a = nat] by simp
  moreover have "unat (m_last_mid m) \<noteq> 0" using 0 by (simp add: unat_eq_zero)
  ultimately show ?case by (simp add: mid_after_def)
next
  case (Suc n)
  then show ?case by (auto simp: mid_after_Suc mid_step mod_Suc)
qed

text \<open>C34. Message identifiers are never 0, and 65535 consecutive ones of a client are distinct.\<close>

theorem mid_generate_cycle:
  "fst (mosquitto_mid_generate m) \<noteq> 0 \<and>
   (m_last_mid m \<noteq> 0 \<and> i < j \<and> j < i + 65535 \<longrightarrow> m_last_mid (mid_after i m) \<noteq> m_last_mid (mid_after j m))"
proof -
  have "fst (mosquitto_mid_generate m) \<noteq> 0" by (simp add: mosquitto_mid_generate_def Let_def)
  moreover have "m_last_mid (mid_after i m) \<noteq> m_last_mid (mid_after j m)"
    if a: "m_last_mid m \<noteq> 0" "i < j" "j < i + 65535"
  proof
    assume "m_last_mid (mid_after i m) = m_last_mid (mid_after j m)"
    then have "(unat (m_last_mid m) - 1 + i) mod 65535 = (unat (m_last_mid m) - 1 + j) mod 65535"
      using mid_after_unat [OF a(1)] by (metis add_right_cancel)
    then have "65535 dvd (unat (m_last_mid m) - 1 + j) - (unat (m_last_mid m) - 1 + i)"
      using mod_eq_dvd_iff_nat [of "unat (m_last_mid m) - 1 + i" "unat (m_last_mid m) - 1 + j" 65535] a(2) by simp
    then have "65535 dvd j - i" by simp
    then show False using a(2,3) by (auto dest: dvd_imp_le)
  qed
  ultimately show ?thesis by blast
qed

theorem mid_generate_cycle_witness:
  "m_last_mid (mid_after 3 (demo_client\<lparr>m_last_mid := 65534\<rparr>)) \<noteq> m_last_mid (mid_after 9 (demo_client\<lparr>m_last_mid := 65534\<rparr>))"
  using mid_generate_cycle [of "demo_client\<lparr>m_last_mid := 65534\<rparr>" 3 9] by simp

end
