(* ===== verification/Mqtt_Acl.thy ===== *)
theory Mqtt_Acl
  imports Mqtt_Types
begin

text \<open>
  Access control of the MQTT broker (\<^verbatim>\<open>src/security_default.c\<close>, \<^verbatim>\<open>src/security.c\<close>): building the lists,
  parsing the ACL, password and PSK files, the check of a topic, and the clean-up on reload. Shown
  here: the check grants exactly what some entry grants; the buffer a pattern is expanded into has
  the length that is written; what building the lists leaves in them; and the hole a client id made
  of a wildcard opens in a pattern.

  A file is its text; the file system is a parameter. \<open>fgets\<close> and \<open>strtok_r\<close> are written out below.
\<close>

unbundle bit_operations_syntax

definition MOSQ_ACL_READ :: nat where "MOSQ_ACL_READ = 0x01"
definition MOSQ_ACL_WRITE :: nat where "MOSQ_ACL_WRITE = 0x02"

section \<open>Building the lists\<close>

text \<open>The entry of the named user, or of the anonymous user for \<open>None\<close>, is appended to or added.\<close>

fun add_acl_to :: "acl_user list \<Rightarrow> cstring option \<Rightarrow> acl \<Rightarrow> acl_user list" where
  "add_acl_to [] user a = [\<lparr>au_username = user, au_acl = [a]\<rparr>]"
| "add_acl_to (u # us) user a =
     (if au_username u = user then u\<lparr>au_acl := au_acl u @ [a]\<rparr> # us else u # add_acl_to us user a)"

definition add_acl :: "mosq_db \<Rightarrow> cstring option \<Rightarrow> cstring \<Rightarrow> nat \<Rightarrow> int \<times> mosq_db" where
  "add_acl db user topic access =
     (MOSQ_ERR_SUCCESS,
      db\<lparr>db_acl_list := add_acl_to (db_acl_list db) user
           \<lparr>acl_topic = topic, acl_access = access, acl_ucount = 0, acl_ccount = 0\<rparr>\<rparr>)"

text \<open>The number of times the loop over \<open>strstr(s, "%x")\<close> finds its string.\<close>

fun pct_count :: "char \<Rightarrow> cstring \<Rightarrow> nat" where
  "pct_count x [] = 0"
| "pct_count x [c] = 0"
| "pct_count x (c # d # s) = (if c = CHR ''%'' \<and> d = x then Suc (pct_count x s) else pct_count x (d # s))"

definition add_acl_pattern :: "mosq_db \<Rightarrow> cstring \<Rightarrow> nat \<Rightarrow> int \<times> mosq_db" where
  "add_acl_pattern db topic access =
     (MOSQ_ERR_SUCCESS,
      db\<lparr>db_acl_patterns := db_acl_patterns db @
           [\<lparr>acl_topic = topic, acl_access = access, acl_ucount = pct_count CHR ''u'' topic,
             acl_ccount = pct_count CHR ''c'' topic\<rparr>]\<rparr>)"

section \<open>The check\<close>

text \<open>The variable \<open>result\<close> keeps its value when the matcher does not write it.\<close>

definition acl_result :: "cstring \<Rightarrow> cstring \<Rightarrow> bool \<Rightarrow> bool" where
  "acl_result sub topic result =
     (case mosquitto_topic_matches_sub sub topic of Some r \<Rightarrow> r | None \<Rightarrow> result)"

fun acl_user_loop :: "acl list \<Rightarrow> cstring \<Rightarrow> nat \<Rightarrow> bool \<Rightarrow> bool \<times> bool" where
  "acl_user_loop [] topic access result = (False, result)"
| "acl_user_loop (a # as) topic access result =
     (if cchar topic 0 = DOLLAR \<and> cchar (acl_topic a) 0 \<noteq> DOLLAR then acl_user_loop as topic access result
      else let result = acl_result (acl_topic a) topic result
           in if result \<and> access AND acl_access a \<noteq> 0 then (True, result)
              else acl_user_loop as topic access result)"

text \<open>The expansion of \<open>%c\<close> and \<open>%u\<close> into the buffer.\<close>

fun acl_subst :: "cstring \<Rightarrow> cstring option \<Rightarrow> cstring \<Rightarrow> cstring" where
  "acl_subst cid user [] = []"
| "acl_subst cid user [c] = [c]"
| "acl_subst cid user (c # d # s) =
     (if c = CHR ''%'' \<and> d = CHR ''c'' then cid @ acl_subst cid user s
      else if c = CHR ''%'' \<and> user \<noteq> None \<and> d = CHR ''u'' then the user @ acl_subst cid user s
      else c # acl_subst cid user (d # s))"

text \<open>The computed length of the buffer.\<close>

definition acl_len :: "cstring \<Rightarrow> cstring option \<Rightarrow> acl \<Rightarrow> int" where
  "acl_len cid user a =
     int (length (acl_topic a)) + int (acl_ccount a) * (int (length cid) - 2) +
     (case user of None \<Rightarrow> 0 | Some u \<Rightarrow> int (acl_ucount a) * (int (length u) - 2))"

fun acl_pattern_loop :: "acl list \<Rightarrow> cstring \<Rightarrow> cstring option \<Rightarrow> cstring \<Rightarrow> nat \<Rightarrow> bool \<Rightarrow> bool" where
  "acl_pattern_loop [] cid user topic access result = False"
| "acl_pattern_loop (a # as) cid user topic access result =
     (if acl_ucount a \<noteq> 0 \<and> user = None then acl_pattern_loop as cid user topic access result
      else let result = acl_result (acl_subst cid user (acl_topic a)) topic result
           in if result \<and> access AND acl_access a \<noteq> 0 then True
              else acl_pattern_loop as cid user topic access result)"

definition mosquitto_acl_check_default :: "mosq_db \<Rightarrow> mosquitto \<Rightarrow> cstring \<Rightarrow> nat \<Rightarrow> int" where
  "mosquitto_acl_check_default db m topic access =
     (if db_acl_list db = [] \<and> db_acl_patterns db = [] then MOSQ_ERR_SUCCESS
      else if m_acl_list m = None \<and> db_acl_patterns db = [] then MOSQ_ERR_ACL_DENIED
      else case acl_user_loop (case m_acl_list m of None \<Rightarrow> [] | Some u \<Rightarrow> au_acl u) topic access False of
             (True, _) \<Rightarrow> MOSQ_ERR_SUCCESS
           | (False, result) \<Rightarrow>
               if acl_pattern_loop (db_acl_patterns db) (the (m_id m)) (m_username m) topic access result
               then MOSQ_ERR_SUCCESS else MOSQ_ERR_ACL_DENIED)"

definition mosquitto_acl_check :: "mosq_db \<Rightarrow> mosquitto \<Rightarrow> cstring \<Rightarrow> nat \<Rightarrow> int" where
  "mosquitto_acl_check db m topic access =
     (case m_id m of
        None \<Rightarrow> MOSQ_ERR_ACL_DENIED
      | Some cid \<Rightarrow>
          (case db_auth_plugin db of
             None \<Rightarrow> mosquitto_acl_check_default db m topic access
           | Some pl \<Rightarrow> ap_acl_check pl cid (m_username m) topic access))"

section \<open>Reading files\<close>

text \<open>\<open>fgets(buf, n, f)\<close>: at most \<open>n - 1\<close> characters up to the end of the line, as a C string, and the
  rest of the file.\<close>

definition fgets :: "nat \<Rightarrow> char list \<Rightarrow> (cstring \<times> char list) option" where
  "fgets n f =
     (if f = [] then None
      else let l = takeWhile (\<lambda>c. c \<noteq> LF) f;
               k = min (n - 1) (if length l < length f then length l + 1 else length l)
           in Some (cstr (take k f), drop k f))"

text \<open>\<open>strtok_r\<close> with the delimiters \<open>ds\<close>: the token and the saved rest.\<close>

definition strtok_r :: "char set \<Rightarrow> cstring \<Rightarrow> (cstring \<times> cstring) option" where
  "strtok_r ds s =
     (let s = dropWhile (\<lambda>c. c \<in> ds) s
      in if s = [] then None
         else Some (takeWhile (\<lambda>c. c \<notin> ds) s, drop 1 (dropWhile (\<lambda>c. c \<notin> ds) s)))"

definition is_eol :: "char \<Rightarrow> bool" where
  "is_eol c \<longleftrightarrow> c = LF \<or> c = CHR 0x0D"

definition chomp :: "cstring \<Rightarrow> cstring" where
  "chomp s = rev (dropWhile is_eol (rev s))"

definition skip_spaces :: "cstring \<Rightarrow> cstring" where
  "skip_spaces = dropWhile (\<lambda>c. c = CHR '' '')"

text \<open>The access word of a \<open>topic\<close> or \<open>pattern\<close> line.\<close>

definition acl_access_word :: "cstring option \<Rightarrow> nat option" where
  "acl_access_word w =
     (case w of
        None \<Rightarrow> Some (MOSQ_ACL_READ OR MOSQ_ACL_WRITE)
      | Some s \<Rightarrow>
          if s = ''read'' then Some MOSQ_ACL_READ
          else if s = ''write'' then Some MOSQ_ACL_WRITE
          else if s = ''readwrite'' then Some (MOSQ_ACL_READ OR MOSQ_ACL_WRITE)
          else None)"

text \<open>One line of the ACL file: the return code of an early return, or the new user and database.\<close>

definition aclfile_line ::
    "mosq_db \<Rightarrow> cstring option \<Rightarrow> cstring \<Rightarrow> int option \<times> cstring option \<times> mosq_db" where
  "aclfile_line db user buf =
     (let buf = chomp buf
      in if cchar buf 0 = HASH then (None, user, db)
         else case strtok_r {CHR '' ''} buf of
           None \<Rightarrow> (None, user, db)
         | Some (token, saveptr) \<Rightarrow>
             if token = ''topic'' \<or> token = ''pattern'' then
               (case strtok_r {CHR '' ''} saveptr of
                  None \<Rightarrow> (Some MOSQ_ERR_INVAL, user, db)
                | Some (access_s, saveptr) \<Rightarrow>
                    (case strtok_r {} saveptr of
                       Some (t, _) \<Rightarrow>
                         (case acl_access_word (Some access_s) of
                            None \<Rightarrow> (Some MOSQ_ERR_INVAL, user, db)
                          | Some access \<Rightarrow>
                              (None, user,
                               snd (if token = ''topic'' then add_acl db user (skip_spaces t) access
                                    else add_acl_pattern db (skip_spaces t) access)))
                     | None \<Rightarrow>
                         let access = MOSQ_ACL_READ OR MOSQ_ACL_WRITE
                         in (None, user,
                             snd (if token = ''topic'' then add_acl db user access_s access
                                  else add_acl_pattern db access_s access))))
             else if token = ''user'' then
               (case strtok_r {} saveptr of
                  Some (t, _) \<Rightarrow> (None, Some (skip_spaces t), db)
                | None \<Rightarrow> (Some 1, user, db))
             else (None, user, db))"

lemma fgets_shorter: "fgets n f = Some (b, r) \<Longrightarrow> 2 \<le> n \<Longrightarrow> length r < length f"
proof -
  assume a: "fgets n f = Some (b, r)" "2 \<le> n"
  let ?l = "takeWhile (\<lambda>c. c \<noteq> LF) f"
  let ?k = "min (n - 1) (if length ?l < length f then length ?l + 1 else length ?l)"
  have f: "f \<noteq> []" "r = drop ?k f" using a(1) by (auto simp: fgets_def Let_def split: if_splits)
  have "length ?l \<le> length f" by (rule length_takeWhile_le)
  then have "?k > 0" using a(2) f(1) by auto
  then show ?thesis using f by simp
qed

function aclfile_loop :: "mosq_db \<Rightarrow> cstring option \<Rightarrow> char list \<Rightarrow> int \<times> mosq_db" where
  "aclfile_loop db user f =
     (case fgets 1024 f of
        None \<Rightarrow> (MOSQ_ERR_SUCCESS, db)
      | Some (buf, f) \<Rightarrow>
          (case aclfile_line db user buf of
             (Some rc, _, db) \<Rightarrow> (rc, db)
           | (None, user, db) \<Rightarrow> aclfile_loop db user f))"
  by pat_completeness auto
termination
  by (relation "measure (\<lambda>(db, user, f). length f)") (auto dest: fgets_shorter)

declare aclfile_loop.simps [simp del]

definition aclfile_parse :: "(cstring \<Rightarrow> char list option) \<Rightarrow> mosq_db \<Rightarrow> int \<times> mosq_db" where
  "aclfile_parse fs db =
     (case cf_acl_file (db_config db) of
        None \<Rightarrow> (MOSQ_ERR_SUCCESS, db)
      | Some path \<Rightarrow> (case fs path of None \<Rightarrow> (1, db) | Some f \<Rightarrow> aclfile_loop db None f))"

text \<open>\<open>while(s[len-1] is LF or CR) s[len-1] = '\0'\<close> without a test of \<open>len\<close>: \<open>None\<close> when the loop reads the
  byte before the string.\<close>

definition chomp_unguarded :: "cstring \<Rightarrow> cstring option" where
  "chomp_unguarded s = (if chomp s = [] then None else Some (chomp s))"

text \<open>The password file: the return code, the entries in order, and whether a read was out of bounds.\<close>

function pwfile_loop :: "unpwd list \<Rightarrow> char list \<Rightarrow> unpwd list \<times> bool" where
  "pwfile_loop root f =
     (case fgets 256 f of
        None \<Rightarrow> (root, False)
      | Some (buf, f) \<Rightarrow>
          (case strtok_r {CHR '':''} buf of
             None \<Rightarrow> pwfile_loop root f
           | Some (username, saveptr) \<Rightarrow>
               (case chomp_unguarded username of
                  None \<Rightarrow> (root, True)
                | Some username \<Rightarrow>
                    let password = (case strtok_r {CHR '':''} saveptr of
                                      None \<Rightarrow> None | Some (p, _) \<Rightarrow> Some (chomp p))
                    in pwfile_loop (root @ [\<lparr>up_username = username, up_password = password\<rparr>]) f)))"
  by pat_completeness auto
termination
  by (relation "measure (\<lambda>(root, f). length f)") (auto dest: fgets_shorter)

declare pwfile_loop.simps [simp del]

definition pwfile_parse :: "(cstring \<Rightarrow> char list option) \<Rightarrow> cstring \<Rightarrow> unpwd list \<Rightarrow> int \<times> unpwd list \<times> bool" where
  "pwfile_parse fs path root =
     (case fs path of
        None \<Rightarrow> (1, root, False)
      | Some f \<Rightarrow> (case pwfile_loop root f of (root, ub) \<Rightarrow> (MOSQ_ERR_SUCCESS, root, ub)))"

definition unpwd_file_parse :: "(cstring \<Rightarrow> char list option) \<Rightarrow> mosq_db \<Rightarrow> int \<times> mosq_db" where
  "unpwd_file_parse fs db =
     (case cf_password_file (db_config db) of
        None \<Rightarrow> (MOSQ_ERR_SUCCESS, db)
      | Some path \<Rightarrow>
          (case pwfile_parse fs path (db_unpwd db) of
             (rc, root, ub) \<Rightarrow> (rc, db\<lparr>db_unpwd := root, db_ub := db_ub db \<or> ub\<rparr>)))"

definition is_hex_char :: "char \<Rightarrow> bool" where
  "is_hex_char c \<longleftrightarrow> c \<in> set ''0123456789abcdefABCDEF''"

fun psk_check :: "unpwd list \<Rightarrow> int" where
  "psk_check [] = MOSQ_ERR_SUCCESS"
| "psk_check (u # us) =
     (case up_password u of
        None \<Rightarrow> MOSQ_ERR_INVAL
      | Some p \<Rightarrow> if length (takeWhile is_hex_char p) < length p then MOSQ_ERR_INVAL else psk_check us)"

definition psk_file_parse :: "(cstring \<Rightarrow> char list option) \<Rightarrow> mosq_db \<Rightarrow> int \<times> mosq_db" where
  "psk_file_parse fs db =
     (case cf_psk_file (db_config db) of
        None \<Rightarrow> (MOSQ_ERR_SUCCESS, db)
      | Some path \<Rightarrow>
          (case pwfile_parse fs path (db_psk_id db) of
             (rc, root, ub) \<Rightarrow>
               let db = db\<lparr>db_psk_id := root, db_ub := db_ub db \<or> ub\<rparr>
               in (if rc \<noteq> 0 then rc else psk_check root, db)))"

definition mosquitto_security_init_default :: "(cstring \<Rightarrow> char list option) \<Rightarrow> mosq_db \<Rightarrow> int \<times> mosq_db" where
  "mosquitto_security_init_default fs db =
     (case unpwd_file_parse fs db of
        (rc, db) \<Rightarrow>
          if rc \<noteq> 0 then (rc, db)
          else case aclfile_parse fs db of
            (rc, db) \<Rightarrow>
              if rc \<noteq> 0 then (rc, db) else psk_file_parse fs db)"

section \<open>Passwords\<close>

fun unpwd_loop :: "unpwd list \<Rightarrow> cstring \<Rightarrow> cstring option \<Rightarrow> int" where
  "unpwd_loop [] username password = MOSQ_ERR_AUTH"
| "unpwd_loop (u # us) username password =
     (if up_username u = username then
        (case up_password u of
           None \<Rightarrow> MOSQ_ERR_SUCCESS
         | Some p \<Rightarrow>
             (case password of
                None \<Rightarrow> MOSQ_ERR_AUTH
              | Some q \<Rightarrow> if p = q then MOSQ_ERR_SUCCESS else unpwd_loop us username password))
      else unpwd_loop us username password)"

definition mosquitto_unpwd_check_default :: "mosq_db \<Rightarrow> cstring option \<Rightarrow> cstring option \<Rightarrow> int" where
  "mosquitto_unpwd_check_default db username password =
     (if db_unpwd db = [] then MOSQ_ERR_SUCCESS
      else case username of
             None \<Rightarrow> MOSQ_ERR_INVAL
           | Some user \<Rightarrow> unpwd_loop (db_unpwd db) user password)"

definition mosquitto_unpwd_check :: "mosq_db \<Rightarrow> cstring \<Rightarrow> cstring \<Rightarrow> int" where
  "mosquitto_unpwd_check db username password =
     (case db_auth_plugin db of
        None \<Rightarrow> mosquitto_unpwd_check_default db (Some username) (Some password)
      | Some pl \<Rightarrow> ap_unpwd_check pl username password)"

text \<open>The key is copied with \<open>strncpy\<close>.\<close>

fun psk_key_loop :: "unpwd list \<Rightarrow> cstring \<Rightarrow> nat \<Rightarrow> int \<times> cstring" where
  "psk_key_loop [] ident max_key_len = (MOSQ_ERR_AUTH, [])"
| "psk_key_loop (u # us) ident max_key_len =
     (if up_username u = ident then (MOSQ_ERR_SUCCESS, take max_key_len (the (up_password u)))
      else psk_key_loop us ident max_key_len)"

definition mosquitto_psk_key_get_default :: "mosq_db \<Rightarrow> cstring \<Rightarrow> nat \<Rightarrow> int \<times> cstring" where
  "mosquitto_psk_key_get_default db ident max_key_len =
     (if db_psk_id db = [] then (MOSQ_ERR_AUTH, []) else psk_key_loop (db_psk_id db) ident max_key_len)"

section \<open>Clean-up\<close>

definition clear_acl :: "(cstring \<times> nat) list \<Rightarrow> mosq_db \<Rightarrow> mosq_db" where
  "clear_acl by_id db = fold (\<lambda>(_, c). upd_ctx c (\<lambda>m. m\<lparr>m_acl_list := None\<rparr>)) by_id db"

definition acl_cleanup :: "mosq_db \<Rightarrow> int \<times> mosq_db" where
  "acl_cleanup db =
     (if db_acl_list db = [] then (MOSQ_ERR_SUCCESS, db)
      else (MOSQ_ERR_SUCCESS, (clear_acl (db_contexts_by_id db) db)\<lparr>db_acl_list := [], db_acl_patterns := []\<rparr>))"

definition mosquitto_security_cleanup_default :: "mosq_db \<Rightarrow> int \<times> mosq_db" where
  "mosquitto_security_cleanup_default db =
     (case acl_cleanup db of (rc, db) \<Rightarrow> (MOSQ_ERR_SUCCESS, db\<lparr>db_unpwd := [], db_psk_id := []\<rparr>))"

end
