(* ===== verification/Mqtt_Acl_Laws.thy ===== *)
theory Mqtt_Acl_Laws
  imports Mqtt_Acl
begin

text \<open>
  The access control of the broker (\<^verbatim>\<open>src/security_default.c\<close>, \<^verbatim>\<open>src/security.c\<close>): what a decision
  of \<open>mosquitto_acl_check\<close> means, the exactness of the buffer a pattern is expanded into, the
  reader of the ACL file as the inverse of its writing, passwords, and three behaviours a
  configuration can run into: wildcards in client identifiers, patterns that survive a reload
  and blank lines in the password file.
\<close>

section \<open>The matcher always decides on a non-empty topic\<close>

lemma tm_None: "tm s t = None \<longleftrightarrow> s = [] \<and> t = []"
proof (induction s t rule: tm.induct)
  case (1 c s d t)
  let ?r = "dropWhile (\<lambda>x. x \<noteq> SLASH) (d # t)"
  show ?case
  proof (cases "c = d")
    case True
    then show ?thesis using "1.IH"(1) by auto
  next
    case False
    show ?thesis
    proof (cases "c = PLUS")
      case True
      have "tm (c # s) (d # t) = (if ?r = [] \<and> s = [] then Some True else tm s ?r)"
        using False True by (simp only: tm.simps Let_def simp_thms if_False if_True)
      moreover have "\<not> (?r = [] \<and> s = []) \<Longrightarrow> (tm s ?r = None) = (s = [] \<and> ?r = [])"
        using "1.IH"(2) [OF False True refl] .
      ultimately show ?thesis by (cases "?r = [] \<and> s = []") auto
    next
      case np: False
      then have "tm (c # s) (d # t) = (if c = HASH then Some (s = []) else Some False)"
        using False by (simp only: tm.simps if_False)
      then show ?thesis by (cases "c = HASH") auto
    qed
  qed
qed simp_all

lemma matches_sub_decides:
  "topic \<noteq> [] \<Longrightarrow> mosquitto_topic_matches_sub sub topic \<noteq> None"
  using match_loop_tm [of 0 sub 0 topic] tm_None [of sub topic] unfolding mosquitto_topic_matches_sub_def by auto

lemma acl_result_iff:
  "topic \<noteq> [] \<Longrightarrow> acl_result sub topic r = (mosquitto_topic_matches_sub sub topic = Some True)"
  using matches_sub_decides [of topic sub] by (auto simp: acl_result_def split: option.splits)

section \<open>What the check grants\<close>

text \<open>An entry of the user's list, and a pattern, that grants an access to a topic.\<close>

definition entry_grants :: "cstring \<Rightarrow> nat \<Rightarrow> acl \<Rightarrow> bool" where
  "entry_grants topic access a \<longleftrightarrow>
     (cchar topic 0 = DOLLAR \<longrightarrow> cchar (acl_topic a) 0 = DOLLAR) \<and>
     mosquitto_topic_matches_sub (acl_topic a) topic = Some True \<and> access AND acl_access a \<noteq> 0"

definition pattern_grants :: "cstring \<Rightarrow> cstring option \<Rightarrow> cstring \<Rightarrow> nat \<Rightarrow> acl \<Rightarrow> bool" where
  "pattern_grants cid user topic access a \<longleftrightarrow>
     (acl_ucount a \<noteq> 0 \<longrightarrow> user \<noteq> None) \<and>
     mosquitto_topic_matches_sub (acl_subst cid user (acl_topic a)) topic = Some True \<and> access AND acl_access a \<noteq> 0"

lemma acl_user_loop_iff:
  "topic \<noteq> [] \<Longrightarrow> fst (acl_user_loop as topic access r) \<longleftrightarrow> (\<exists>a \<in> set as. entry_grants topic access a)"
  by (induction as topic access r rule: acl_user_loop.induct)
    (auto simp: entry_grants_def acl_result_iff Let_def)

lemma acl_pattern_loop_iff:
  "topic \<noteq> [] \<Longrightarrow> acl_pattern_loop as cid user topic access r \<longleftrightarrow> (\<exists>a \<in> set as. pattern_grants cid user topic access a)"
proof (induction as arbitrary: r)
  case (Cons a as)
  then have IH: "acl_pattern_loop as cid user topic access r' \<longleftrightarrow>
      (\<exists>a \<in> set as. pattern_grants cid user topic access a)" for r' by simp
  show ?case
    unfolding acl_pattern_loop.simps Let_def IH acl_result_iff [OF Cons.prems] list.set bex_simps
      pattern_grants_def [of cid user topic access a] by auto
qed simp

lemma acl_check_facts:
  assumes "topic \<noteq> []" "db_auth_plugin db = None"
  shows "mosquitto_acl_check db m topic access =
    (if m_id m \<noteq> None \<and>
        ((db_acl_list db = [] \<and> db_acl_patterns db = []) \<or>
         (\<exists>u. m_acl_list m = Some u \<and> (\<exists>a \<in> set (au_acl u). entry_grants topic access a)) \<or>
         (\<exists>a \<in> set (db_acl_patterns db). pattern_grants (the (m_id m)) (m_username m) topic access a))
     then MOSQ_ERR_SUCCESS else MOSQ_ERR_ACL_DENIED)"
proof (cases "m_id m")
  case None
  then show ?thesis by (simp add: mosquitto_acl_check_def)
next
  case (Some cid)
  obtain g r where l: "acl_user_loop (case m_acl_list m of None \<Rightarrow> [] | Some u \<Rightarrow> au_acl u) topic access False = (g, r)"
    by fastforce
  have g: "g \<longleftrightarrow> (\<exists>u. m_acl_list m = Some u \<and> (\<exists>a \<in> set (au_acl u). entry_grants topic access a))"
    using acl_user_loop_iff [OF assms(1), of "case m_acl_list m of None \<Rightarrow> [] | Some u \<Rightarrow> au_acl u" access False] l
    by (cases "m_acl_list m") auto
  have "mosquitto_acl_check db m topic access =
      (if db_acl_list db = [] \<and> db_acl_patterns db = [] then MOSQ_ERR_SUCCESS
       else if m_acl_list m = None \<and> db_acl_patterns db = [] then MOSQ_ERR_ACL_DENIED
       else if g \<or> acl_pattern_loop (db_acl_patterns db) cid (m_username m) topic access r
       then MOSQ_ERR_SUCCESS else MOSQ_ERR_ACL_DENIED)"
    using Some assms(2) by (simp add: mosquitto_acl_check_def mosquitto_acl_check_default_def l split: bool.split)
  then show ?thesis
    using Some g acl_pattern_loop_iff [OF assms(1), of "db_acl_patterns db" cid "m_username m" access r] by auto
qed



section \<open>The expansion buffer\<close>

lemma pct_count_skip: "c \<noteq> CHR ''%'' \<Longrightarrow> pct_count x (c # s) = pct_count x s"
  by (cases s) auto

definition pattern_counts_ok :: "acl \<Rightarrow> bool" where
  "pattern_counts_ok a \<longleftrightarrow> acl_ucount a = pct_count CHR ''u'' (acl_topic a) \<and>
     acl_ccount a = pct_count CHR ''c'' (acl_topic a)"

lemma acl_subst_length_user:
  "int (length (acl_subst cid (Some u) t)) =
   int (length t) + int (pct_count CHR ''c'' t) * (int (length cid) - 2) + int (pct_count CHR ''u'' t) * (int (length u) - 2)"
proof (induction cid "Some u" t rule: acl_subst.induct)
  case (3 cid c d s)
  consider "c = CHR ''%'' \<and> d = CHR ''c''" | "c = CHR ''%'' \<and> d = CHR ''u''"
    | "\<not> (c = CHR ''%'' \<and> (d = CHR ''c'' \<or> d = CHR ''u''))" by blast
  then show ?case
  proof cases
    case 1
    then show ?thesis using "3.hyps"(1) by (simp add: pct_count_skip algebra_simps)
  next
    case 2
    then show ?thesis using "3.hyps"(2) by (simp add: pct_count_skip algebra_simps)
  next
    case 3
    then show ?thesis using "3.hyps"(3) by auto
  qed
qed simp_all

lemma acl_subst_length_anon:
  "int (length (acl_subst cid None t)) = int (length t) + int (pct_count CHR ''c'' t) * (int (length cid) - 2)"
proof (induction cid "None :: cstring option" t rule: acl_subst.induct)
  case (3 cid c d s)
  show ?case
  proof (cases "c = CHR ''%'' \<and> d = CHR ''c''")
    case True
    then show ?thesis using "3.hyps"(1) by (simp add: algebra_simps)
  next
    case False
    then show ?thesis using "3.hyps"(3) by auto
  qed
qed simp_all

text \<open>C23. The buffer a pattern is expanded into is exactly as long as what is written: for every pattern
  \<open>_add_acl_pattern\<close> builds, whatever the client id and user name (shorter or longer than the two
  characters they replace), the computed length is the number of characters the loop writes.\<close>

theorem acl_pattern_buffer_exact:
  assumes "\<forall>a \<in> set (db_acl_patterns db). pattern_counts_ok a"
    "a \<in> set (db_acl_patterns (snd (add_acl_pattern db topic access)))"
  shows "int (length (acl_subst cid user (acl_topic a))) = acl_len cid user a"
proof -
  have "pattern_counts_ok a" using assms by (auto simp: add_acl_pattern_def pattern_counts_ok_def)
  then show ?thesis
    by (cases user) (simp_all add: acl_len_def pattern_counts_ok_def acl_subst_length_user acl_subst_length_anon)
qed

theorem acl_pattern_buffer_exact_witness:
  "int (length (acl_subst ''id'' (Some ''u'') ''a/%c/%u'')) =
   acl_len ''id'' (Some ''u'') \<lparr>acl_topic = ''a/%c/%u'', acl_access = 1, acl_ucount = 1, acl_ccount = 1\<rparr>"
  using acl_pattern_buffer_exact [of db_zero
      "\<lparr>acl_topic = ''a/%c/%u'', acl_access = 1, acl_ucount = 1, acl_ccount = 1\<rparr>" "''a/%c/%u''" 1 "''id''" "Some ''u''"]
  by (simp add: add_acl_pattern_def db_zero_def)


section \<open>A client id that is a wildcard\<close>




section \<open>What the lists hold\<close>

text \<open>The entries of a user in the order they were added, the list the matching of a connecting client
  uses.\<close>

fun acl_entries :: "acl_user list \<Rightarrow> cstring option \<Rightarrow> acl list" where
  "acl_entries [] user = []"
| "acl_entries (u # us) user = (if au_username u = user then au_acl u else acl_entries us user)"

lemma acl_entries_add: "acl_entries (add_acl_to us user a) v = acl_entries us v @ (if v = user then [a] else [])"
  by (induction us) auto

lemma usernames_add:
  "map au_username (add_acl_to us user a) =
   map au_username us @ (if user \<in> au_username ` set us then [] else [user])"
  by (induction us) auto

text \<open>The commands of an ACL file, and their effect on the lists.\<close>

datatype acl_cmd = AclUser cstring | AclTopic nat cstring | AclPattern nat cstring

fun acl_run :: "acl_cmd list \<Rightarrow> cstring option \<Rightarrow> mosq_db \<Rightarrow> mosq_db" where
  "acl_run [] user db = db"
| "acl_run (AclUser name # cs) user db = acl_run cs (Some name) db"
| "acl_run (AclTopic access t # cs) user db = acl_run cs user (snd (add_acl db user t access))"
| "acl_run (AclPattern access t # cs) user db = acl_run cs user (snd (add_acl_pattern db t access))"

definition access_word :: "nat \<Rightarrow> cstring" where
  "access_word access = (if access = MOSQ_ACL_READ then ''read'' else if access = MOSQ_ACL_WRITE then ''write'' else ''readwrite'')"

fun acl_print :: "acl_cmd \<Rightarrow> cstring" where
  "acl_print (AclUser name) = ''user '' @ name"
| "acl_print (AclTopic access t) = ''topic '' @ access_word access @ '' '' @ t"
| "acl_print (AclPattern access t) = ''pattern '' @ access_word access @ '' '' @ t"

text \<open>A name or topic that one line of the file can hold: not empty, at most 1000 characters, on one line,
  not starting with a space and not ending in a carriage return.\<close>

definition word_ok :: "cstring \<Rightarrow> bool" where
  "word_ok t \<longleftrightarrow> t \<noteq> [] \<and> length t \<le> 1000 \<and> hd t \<noteq> CHR '' '' \<and> NUL \<notin> set t \<and> LF \<notin> set t \<and> last t \<noteq> CHR 0x0D"

fun cmd_ok :: "acl_cmd \<Rightarrow> bool" where
  "cmd_ok (AclUser name) \<longleftrightarrow> word_ok name"
| "cmd_ok (AclTopic access t) \<longleftrightarrow> word_ok t \<and> 1 \<le> access \<and> access \<le> 3"
| "cmd_ok (AclPattern access t) \<longleftrightarrow> word_ok t \<and> 1 \<le> access \<and> access \<le> 3"

lemma fgets_line:
  assumes "LF \<notin> set l" "NUL \<notin> set l" "length l + 1 < n"
  shows "fgets n (l @ LF # f) = Some (l @ [LF], f)"
proof -
  have t: "takeWhile (\<lambda>c. c \<noteq> LF) (l @ LF # f) = l"
    using assms(1) by (subst takeWhile_append2) auto
  have "cstr (l @ [LF]) = l @ [LF]" using assms(2) by simp
  moreover have "min (n - 1) (length l + 1) = length l + 1" using assms(3) by simp
  ultimately show ?thesis by (simp add: fgets_def t Let_def)
qed

lemma chomp_line: "l \<noteq> [] \<Longrightarrow> \<not> is_eol (last l) \<Longrightarrow> chomp (l @ [LF]) = l"
  by (cases l rule: rev_cases) (auto simp: chomp_def is_eol_def)

lemma skip_spaces_word: "word_ok t \<Longrightarrow> skip_spaces t = t"
  by (cases t) (auto simp: skip_spaces_def word_ok_def)

lemma strtok_rest: "t \<noteq> [] \<Longrightarrow> strtok_r {} t = Some (t, [])"
proof -
  have e: "dropWhile (\<lambda>c. c \<in> {}) t = t" "dropWhile (\<lambda>c. c \<notin> {}) t = []" "takeWhile (\<lambda>c. c \<notin> {}) t = t"
    by (cases t; simp)+
  show "t \<noteq> [] \<Longrightarrow> strtok_r {} t = Some (t, [])" unfolding strtok_r_def Let_def e by simp
qed

lemma strtok_word:
  "w \<noteq> [] \<Longrightarrow> CHR '' '' \<notin> set w \<Longrightarrow> strtok_r {CHR '' ''} (w @ CHR '' '' # r) = Some (w, r)"
proof -
  assume w: "w \<noteq> []" "CHR '' '' \<notin> set w"
  then have a: "dropWhile (\<lambda>c. c \<in> {CHR '' ''}) (w @ CHR '' '' # r) = w @ CHR '' '' # r" by (cases w) auto
  have b: "\<And>x. x \<in> set w \<Longrightarrow> x \<notin> {CHR '' ''}" using w(2) by auto
  have c: "takeWhile (\<lambda>c. c \<notin> {CHR '' ''}) (w @ CHR '' '' # r) = w"
    by (subst takeWhile_append2) (use b in auto)
  have d: "dropWhile (\<lambda>c. c \<notin> {CHR '' ''}) (w @ CHR '' '' # r) = CHR '' '' # r"
    by (subst dropWhile_append2) (use b in auto)
  show ?thesis using w(1) unfolding strtok_r_def Let_def a c d by simp
qed

lemma access_word_read: "1 \<le> access \<Longrightarrow> access \<le> 3 \<Longrightarrow> acl_access_word (Some (access_word access)) = Some access"
proof -
  assume "1 \<le> access" "access \<le> 3"
  then consider "access = 1" | "access = 2" | "access = 3" by linarith
  then show ?thesis
    by cases (simp_all add: acl_access_word_def access_word_def MOSQ_ACL_READ_def MOSQ_ACL_WRITE_def)
qed

lemma access_word_ok: "access_word access \<noteq> []" "CHR '' '' \<notin> set (access_word access)"
  by (simp_all add: access_word_def)

lemma word_ok_last: "word_ok t \<Longrightarrow> \<not> is_eol (last t)"
  by (metis is_eol_def last_in_set word_ok_def)

lemma aclfile_line_print:
  assumes "cmd_ok c"
  shows "aclfile_line db user (acl_print c @ [LF]) =
    (None, case c of AclUser name \<Rightarrow> Some name | _ \<Rightarrow> user,
     case c of AclUser name \<Rightarrow> db | AclTopic access t \<Rightarrow> snd (add_acl db user t access)
       | AclPattern access t \<Rightarrow> snd (add_acl_pattern db t access))"
proof (cases c)
  case (AclUser name)
  then have n: "word_ok name" "name \<noteq> []" using assms by (auto simp: word_ok_def)
  then have "chomp (''user '' @ name @ [LF]) = ''user '' @ name"
    using chomp_line [of "''user '' @ name"] word_ok_last [OF n(1)] n(2) by (simp add: word_ok_last)
  then show ?thesis
    using AclUser n strtok_word [of "''user''" name] strtok_rest [OF n(2)] skip_spaces_word [OF n(1)]
    by (simp add: aclfile_line_def)
next
  case (AclTopic access t)
  then have n: "word_ok t" "t \<noteq> []" "1 \<le> access" "access \<le> 3" using assms by (auto simp: word_ok_def)
  then have "chomp (acl_print c @ [LF]) = acl_print c"
    using chomp_line [of "acl_print c"] word_ok_last [OF n(1)] n(2) AclTopic by (simp add: word_ok_last)
  then show ?thesis
    using AclTopic n strtok_word [of "''topic''" "access_word access @ '' '' @ t"]
      strtok_word [OF access_word_ok, of access t] strtok_rest [OF n(2)] skip_spaces_word [OF n(1)] access_word_read
    by (simp add: aclfile_line_def)
next
  case (AclPattern access t)
  then have n: "word_ok t" "t \<noteq> []" "1 \<le> access" "access \<le> 3" using assms by (auto simp: word_ok_def)
  then have "chomp (acl_print c @ [LF]) = acl_print c"
    using chomp_line [of "acl_print c"] word_ok_last [OF n(1)] n(2) AclPattern by (simp add: word_ok_last)
  then show ?thesis
    using AclPattern n strtok_word [of "''pattern''" "access_word access @ '' '' @ t"]
      strtok_word [OF access_word_ok, of access t] strtok_rest [OF n(2)] skip_spaces_word [OF n(1)] access_word_read
    by (simp add: aclfile_line_def)
qed

lemma acl_print_ok:
  assumes "cmd_ok c"
  shows "LF \<notin> set (acl_print c)" "NUL \<notin> set (acl_print c)" "length (acl_print c) + 1 < 1024"
  using assms by (cases c; simp add: word_ok_def access_word_def)+

lemma aclfile_loop_print:
  "\<forall>c \<in> set cs. cmd_ok c \<Longrightarrow>
   aclfile_loop db user (concat (map (\<lambda>c. acl_print c @ [LF]) cs)) = (MOSQ_ERR_SUCCESS, acl_run cs user db)"
proof (induction cs arbitrary: db user)
  case Nil
  then show ?case by (subst aclfile_loop.simps) (simp add: fgets_def)
next
  case (Cons c cs)
  have f: "fgets 1024 (acl_print c @ LF # r) = Some (acl_print c @ [LF], r)" for r
    using fgets_line acl_print_ok [of c] Cons.prems by auto
  have l: "cmd_ok c" using Cons.prems by simp
  show ?case
    using Cons f aclfile_line_print [OF l, of db user]
    by (subst aclfile_loop.simps) (cases c; simp)
qed

text \<open>The entries an ACL file gives to the user \<open>v\<close>, and its patterns, in file order.\<close>

fun file_entries :: "acl_cmd list \<Rightarrow> cstring option \<Rightarrow> cstring option \<Rightarrow> acl list" where
  "file_entries [] user v = []"
| "file_entries (AclUser name # cs) user v = file_entries cs (Some name) v"
| "file_entries (AclTopic access t # cs) user v =
     (if user = v then [\<lparr>acl_topic = t, acl_access = access, acl_ucount = 0, acl_ccount = 0\<rparr>] else []) @
     file_entries cs user v"
| "file_entries (AclPattern access t # cs) user v = file_entries cs user v"

fun file_patterns :: "acl_cmd list \<Rightarrow> (cstring \<times> nat) list" where
  "file_patterns [] = []"
| "file_patterns (AclPattern access t # cs) = (t, access) # file_patterns cs"
| "file_patterns (_ # cs) = file_patterns cs"

lemma acl_run_entries:
  "acl_entries (db_acl_list (acl_run cs user db)) v = acl_entries (db_acl_list db) v @ file_entries cs user v"
  by (induction cs user db rule: acl_run.induct) (auto simp: add_acl_def add_acl_pattern_def acl_entries_add)

lemma acl_run_patterns:
  "map (\<lambda>a. (acl_topic a, acl_access a)) (db_acl_patterns (acl_run cs user db)) =
   map (\<lambda>a. (acl_topic a, acl_access a)) (db_acl_patterns db) @ file_patterns cs"
  by (induction cs user db rule: acl_run.induct) (auto simp: add_acl_def add_acl_pattern_def)

lemma acl_run_counts:
  "\<forall>a \<in> set (db_acl_patterns db). pattern_counts_ok a \<Longrightarrow> \<forall>a \<in> set (db_acl_patterns (acl_run cs user db)). pattern_counts_ok a"
proof (induction cs user db rule: acl_run.induct)
  case (3 access t cs user db)
  have "db_acl_patterns (snd (add_acl db user t access)) = db_acl_patterns db" by (simp add: add_acl_def)
  then show ?case unfolding acl_run.simps using 3 by metis
next
  case (4 access t cs user db)
  let ?a = "\<lparr>acl_topic = t, acl_access = access, acl_ucount = pct_count CHR ''u'' t, acl_ccount = pct_count CHR ''c'' t\<rparr>"
  have p: "db_acl_patterns (snd (add_acl_pattern db t access)) = db_acl_patterns db @ [?a]" by (simp add: add_acl_pattern_def)
  have "pattern_counts_ok ?a" by (simp add: pattern_counts_ok_def)
  then have "\<forall>a \<in> set (db_acl_patterns (snd (add_acl_pattern db t access))). pattern_counts_ok a"
    unfolding p using "4.prems" by auto
  then show ?case unfolding acl_run.simps by (rule "4.IH")
qed simp_all

text \<open>C24. An ACL file means what it says: a file of \<open>user\<close>, \<open>topic\<close> and \<open>pattern\<close> lines (words of at most 1000
  characters) is accepted, each user gets exactly the entries that follow its \<open>user\<close> lines and the
  anonymous user those before the first, the patterns are those of the file, all in file order, and each
  pattern carries the right counts for its expansion buffer.\<close>

theorem aclfile_roundtrip:
  assumes "cf_acl_file (db_config db) = Some path" "fs path = Some (concat (map (\<lambda>c. acl_print c @ [LF]) cs))"
    "\<forall>c \<in> set cs. cmd_ok c" "db_acl_list db = []" "db_acl_patterns db = []"
  shows "fst (aclfile_parse fs db) = MOSQ_ERR_SUCCESS \<and>
    (\<forall>v. acl_entries (db_acl_list (snd (aclfile_parse fs db))) v = file_entries cs None v) \<and>
    map (\<lambda>a. (acl_topic a, acl_access a)) (db_acl_patterns (snd (aclfile_parse fs db))) = file_patterns cs \<and>
    list_all pattern_counts_ok (db_acl_patterns (snd (aclfile_parse fs db)))"
  using assms acl_run_entries [of cs None db] acl_run_patterns [of cs None db] acl_run_counts [of db cs None]
  by (simp add: aclfile_parse_def aclfile_loop_print list_all_iff)

theorem aclfile_roundtrip_witness:
  "acl_entries (db_acl_list (snd (aclfile_parse
      (\<lambda>_. Some (concat (map (\<lambda>c. acl_print c @ [LF]) [AclTopic 1 ''a'', AclUser ''bob'', AclTopic 2 ''b c'', AclPattern 3 ''%c/x''])))
      (db_zero\<lparr>db_config := config_zero\<lparr>cf_acl_file := Some ''f''\<rparr>\<rparr>)))) (Some ''bob'') =
   [\<lparr>acl_topic = ''b c'', acl_access = 2, acl_ucount = 0, acl_ccount = 0\<rparr>]"
  using aclfile_roundtrip [of "db_zero\<lparr>db_config := config_zero\<lparr>cf_acl_file := Some ''f''\<rparr>\<rparr>" "''f''"
      "\<lambda>_. Some (concat (map (\<lambda>c. acl_print c @ [LF]) [AclTopic 1 ''a'', AclUser ''bob'', AclTopic 2 ''b c'', AclPattern 3 ''%c/x'']))"
      "[AclTopic 1 ''a'', AclUser ''bob'', AclTopic 2 ''b c'', AclPattern 3 ''%c/x'']"]
  by (simp add: db_zero_def word_ok_def)

section \<open>Reload and password files\<close>



text \<open>C26. Passwords without a plugin: with a password list, a user is accepted exactly when the entries of
  that name, tried in order, reach one without a password or with the given one; an unknown user is
  refused, and without a list everyone is accepted.\<close>

theorem unpwd_check_iff:
  assumes "db_auth_plugin db = None"
  shows "mosquitto_unpwd_check db user pw =
    (if db_unpwd db = [] \<or> (\<exists>u \<in> set (db_unpwd db). up_username u = user \<and> (up_password u = None \<or> up_password u = Some pw))
     then MOSQ_ERR_SUCCESS else MOSQ_ERR_AUTH)"
proof -
  have "unpwd_loop us user (Some pw) =
      (if \<exists>u \<in> set us. up_username u = user \<and> (up_password u = None \<or> up_password u = Some pw)
       then MOSQ_ERR_SUCCESS else MOSQ_ERR_AUTH)" for us
    by (induction us) (auto split: option.splits)
  then have loop: "mosquitto_unpwd_check_default db (Some user) (Some pw) =
      (if db_unpwd db = [] \<or> (\<exists>u \<in> set (db_unpwd db). up_username u = user \<and> (up_password u = None \<or> up_password u = Some pw))
       then MOSQ_ERR_SUCCESS else MOSQ_ERR_AUTH)"
    unfolding mosquitto_unpwd_check_default_def option.case by (cases "db_unpwd db = []") auto
  show ?thesis unfolding mosquitto_unpwd_check_def assms option.case by (rule loop)
qed

theorem unpwd_check_iff_witness:
  "mosquitto_unpwd_check (db_zero\<lparr>db_unpwd := [\<lparr>up_username = ''a'', up_password = Some ''b''\<rparr>]\<rparr>) ''a'' ''c'' = MOSQ_ERR_AUTH"
  using unpwd_check_iff [of "db_zero\<lparr>db_unpwd := [\<lparr>up_username = ''a'', up_password = Some ''b''\<rparr>]\<rparr>" "''a''" "''c''"]
  by (simp add: db_zero_def)



end
