(* ===== verification/Mqtt_Database.thy ===== *)
theory Mqtt_Database
  imports Mqtt_Send_Laws
begin

text \<open>
  The message database of the broker, \<^verbatim>\<open>src/database.c\<close>, up to what does not call the subscription
  tree: the reference-counted store of messages, the queue of every client, and the writing
  of a queue to the client.

  A queue is walked with \<open>pre\<close>, the messages behind the cursor, and the rest of the list; an
  assignment through the cursor replaces its message. A statement that uses a freed
  store, a freed queue element or fails an assertion sets \<open>db_ub\<close>. Sends act on the record of the client, \<open>on_ctx\<close>.
\<close>

section \<open>The message store\<close>

definition set_ub :: "mosq_db \<Rightarrow> mosq_db" where
  "set_ub db = db\<lparr>db_ub := True\<rparr>"

definition touch_store :: "nat \<Rightarrow> mosq_db \<Rightarrow> mosq_db" where
  "touch_store s db = (if st_live (db_store db s) then db else set_ub db)"

definition touch_ctx :: "nat \<Rightarrow> mosq_db \<Rightarrow> mosq_db" where
  "touch_ctx c db = (if m_live (db_ctx db c) then db else set_ub db)"

definition on_ctx :: "nat \<Rightarrow> (mosquitto \<Rightarrow> 'a \<times> mosquitto) \<Rightarrow> mosq_db \<Rightarrow> 'a \<times> mosq_db" where
  "on_ctx c f db = (case f (db_ctx db c) of (r, m) \<Rightarrow> (r, upd_ctx c (\<lambda>_. m) db))"

definition db_msg_store_add :: "mosq_db \<Rightarrow> nat \<Rightarrow> mosq_db" where
  "db_msg_store_add db s = db\<lparr>db_msg_store := s # db_msg_store db\<rparr>"

definition db_msg_store_remove :: "mosq_db \<Rightarrow> nat \<Rightarrow> mosq_db" where
  "db_msg_store_remove db s =
     (let db = touch_store s db;
          db = db\<lparr>db_msg_store := remove1 s (db_msg_store db), db_msg_store_count := db_msg_store_count db - 1\<rparr>
      in upd_store s (\<lambda>st. st\<lparr>st_live := False\<rparr>) db)"

definition db_msg_store_clean :: "mosq_db \<Rightarrow> mosq_db" where
  "db_msg_store_clean db = foldl db_msg_store_remove db (db_msg_store db)"

definition db_msg_store_ref :: "mosq_db \<Rightarrow> nat \<Rightarrow> mosq_db" where
  "db_msg_store_ref db s = upd_store s (\<lambda>st. st\<lparr>st_ref_count := st_ref_count st + 1\<rparr>) (touch_store s db)"

definition db_msg_store_deref :: "mosq_db \<Rightarrow> nat \<Rightarrow> mosq_db" where
  "db_msg_store_deref db s =
     (let db = upd_store s (\<lambda>st. st\<lparr>st_ref_count := st_ref_count st - 1\<rparr>) (touch_store s db)
      in if st_ref_count (db_store db s) = 0 then db_msg_store_remove db s else db)"

text \<open>\<open>mqtt3_db_message_store\<close>: the new message is number \<open>db_next_store\<close>.\<close>

definition mqtt3_db_message_store ::
    "mosq_db \<Rightarrow> cstring option \<Rightarrow> u16 \<Rightarrow> cstring option \<Rightarrow> nat \<Rightarrow> byte list \<Rightarrow> bool \<Rightarrow> u64 \<Rightarrow> nat \<times> mosq_db" where
  "mqtt3_db_message_store db source source_mid topic qos payload retain store_id =
     (let s = db_next_store db;
          temp = \<lparr>st_live = True, st_db_id = (if store_id = 0 then db_last_db_id db + 1 else store_id),
                  st_source_id = (case source of None \<Rightarrow> [] | Some i \<Rightarrow> i), st_dest_ids = [],
                  st_ref_count = 0, st_topic = topic, st_payload = payload, st_source_mid = source_mid,
                  st_mid = 0, st_qos = qos, st_retain = retain\<rparr>;
          db = db\<lparr>db_next_store := s + 1, db_msg_store_count := db_msg_store_count db + 1,
                  db_last_db_id := (if store_id = 0 then db_last_db_id db + 1 else db_last_db_id db)\<rparr>
      in (s, db_msg_store_add (upd_store s (\<lambda>_. temp) db) s))"

section \<open>Queues\<close>

definition set_msgs :: "nat \<Rightarrow> client_msg list \<Rightarrow> mosq_db \<Rightarrow> mosq_db" where
  "set_msgs c ms db = upd_ctx c (\<lambda>m. m\<lparr>m_msgs := ms\<rparr>) db"

text \<open>\<open>_message_remove(db, context, &x, last)\<close>: \<open>last\<close> is the last message of \<open>pre\<close>, if any.\<close>

definition message_remove :: "mosq_db \<Rightarrow> nat \<Rightarrow> client_msg list \<Rightarrow> client_msg \<Rightarrow> client_msg list \<Rightarrow> mosq_db" where
  "message_remove db c pre x rest =
     upd_ctx c (\<lambda>m. m\<lparr>m_msgs := pre @ rest,
         m_last_msg := (if rest = [] then if pre = [] then LNull else LTail else m_last_msg m),
         m_msg_count := m_msg_count m - 1,
         m_msg_count12 := (if cm_qos x > 0 then m_msg_count12 m - 1 else m_msg_count12 m)\<rparr>)
       (db_msg_store_deref db (cm_store x))"

text \<open>The state a message of quality \<open>qos\<close> is published from; \<open>d\<close> when the \<open>switch\<close> has no case.\<close>

definition publish_state :: "nat \<Rightarrow> msg_state \<Rightarrow> msg_state" where
  "publish_state qos d = (if qos = 0 then mosq_ms_publish_qos0 else if qos = 1 then mosq_ms_publish_qos1
     else if qos = 2 then mosq_ms_publish_qos2 else d)"

text \<open>What \<open>mqtt3_db_message_delete\<close> does to a queued message that has come under the inflight limit.\<close>

definition promote :: "mosq_db \<Rightarrow> int \<Rightarrow> client_msg \<Rightarrow> client_msg" where
  "promote db msg_index x =
     (if cm_state x = mosq_ms_queued \<and> msg_index \<le> db_max_inflight db
      then case cm_direction x of
             mosq_md_out \<Rightarrow> x\<lparr>cm_timestamp := db_now db, cm_state := publish_state (cm_qos x) (cm_state x)\<rparr>
           | mosq_md_in \<Rightarrow> x\<lparr>cm_timestamp := db_now db,
                             cm_state := (if cm_qos x = 2 then mosq_ms_wait_for_pubrel else cm_state x)\<rparr>
      else x)"

fun delete_loop :: "mosq_db \<Rightarrow> nat \<Rightarrow> u16 \<Rightarrow> msg_direction \<Rightarrow> int \<Rightarrow> bool \<Rightarrow> client_msg list \<Rightarrow> client_msg list \<Rightarrow> mosq_db" where
  "delete_loop db c mid dir msg_index deleted pre [] = set_msgs c pre db"
| "delete_loop db c mid dir msg_index deleted pre (x # rest) =
     (let msg_index = msg_index + 1; x = promote db msg_index x
      in if cm_mid x = mid \<and> cm_direction x = dir
         then let msg_index = msg_index - 1; db = message_remove db c pre x rest
              in if msg_index > db_max_inflight db then set_msgs c (pre @ rest) db
                 else delete_loop db c mid dir msg_index True pre rest
         else if msg_index > db_max_inflight db \<and> deleted then set_msgs c (pre @ x # rest) db
              else delete_loop db c mid dir msg_index deleted (pre @ [x]) rest)"

definition mqtt3_db_message_delete :: "mosq_db \<Rightarrow> nat \<Rightarrow> u16 \<Rightarrow> msg_direction \<Rightarrow> int \<times> mosq_db" where
  "mqtt3_db_message_delete db c mid dir =
     (MOSQ_ERR_SUCCESS, delete_loop db c mid dir 0 False [] (m_msgs (db_ctx db c)))"

text \<open>Where \<open>mqtt3_db_message_insert\<close> puts a message: refused with a return code, dropped because the queue is
  full, or inserted in a state, with a return code.\<close>

datatype insert_plan = Refuse int | Drop | Insert msg_state int

definition insert_plan :: "mosq_db \<Rightarrow> mosquitto \<Rightarrow> msg_direction \<Rightarrow> nat \<Rightarrow> insert_plan" where
  "insert_plan db m dir qos =
     (if m_sock m = None \<and> qos = 0 \<and> \<not> cf_queue_qos0_messages (db_config db) then Refuse 2
      else if m_sock m \<noteq> None
      then if qos = 0 \<or> db_max_inflight db = 0 \<or> m_msg_count12 m < db_max_inflight db
           then case dir of
                  mosq_md_out \<Rightarrow> Insert (publish_state qos mosq_ms_invalid) 0
                | mosq_md_in \<Rightarrow> if qos = 2 then Insert mosq_ms_wait_for_pubrel 0 else Refuse 1
           else if db_max_queued db = 0 \<or> m_msg_count12 m - db_max_inflight db < db_max_queued db
           then Insert mosq_ms_queued 2
           else Drop
      else if db_max_queued db > 0 \<and> m_msg_count12 m \<ge> db_max_queued db then Drop
      else Insert mosq_ms_queued 0)"

text \<open>Linking at the end through \<open>last_msg\<close>.\<close>

definition append_msg :: "nat \<Rightarrow> client_msg \<Rightarrow> mosq_db \<Rightarrow> mosq_db" where
  "append_msg c x db =
     (case m_last_msg (db_ctx db c) of
        LTail \<Rightarrow> upd_ctx c (\<lambda>m. m\<lparr>m_msgs := m_msgs m @ [x]\<rparr>) db
      | LNull \<Rightarrow> upd_ctx c (\<lambda>m. m\<lparr>m_msgs := [x], m_last_msg := LTail\<rparr>) db
      | LFreed \<Rightarrow> set_ub db)"

text \<open>The end of \<open>mqtt3_db_message_insert\<close>: the message is counted in its store, linked, and its client is recorded
  as served when duplicates are to be avoided.\<close>

definition insert_link :: "mosq_db \<Rightarrow> nat \<Rightarrow> cstring \<Rightarrow> bool \<Rightarrow> client_msg \<Rightarrow> mosq_db" where
  "insert_link db c cid dedup msg =
     (let db = (if cm_state msg = mosq_ms_queued
                then db\<lparr>db_persistence_changes := db_persistence_changes db + 1\<rparr> else db);
          db = append_msg c msg (db_msg_store_ref db (cm_store msg));
          db = upd_ctx c (\<lambda>m. m\<lparr>m_msg_count := m_msg_count m + 1,
                 m_msg_count12 := (if cm_qos msg > 0 then m_msg_count12 m + 1 else m_msg_count12 m)\<rparr>) db
      in if dedup then upd_store (cm_store msg) (\<lambda>st. st\<lparr>st_dest_ids := st_dest_ids st @ [cid]\<rparr>) db else db)"

definition mqtt3_db_message_insert ::
    "mosq_db \<Rightarrow> nat \<Rightarrow> u16 \<Rightarrow> msg_direction \<Rightarrow> nat \<Rightarrow> bool \<Rightarrow> nat \<Rightarrow> int \<times> mosq_db" where
  "mqtt3_db_message_insert db c mid dir qos retain stored =
     (let db = touch_ctx c db; m = db_ctx db c;
          dedup = (\<not> cf_allow_duplicate_messages (db_config db) \<and> dir = mosq_md_out \<and> \<not> retain)
      in case m_id m of
           None \<Rightarrow> (MOSQ_ERR_SUCCESS, db)
         | Some cid \<Rightarrow>
             let db = (if dedup then touch_store stored db else db)
             in if dedup \<and> cid \<in> set (st_dest_ids (db_store db stored)) then (MOSQ_ERR_SUCCESS, db)
                else case insert_plan db m dir qos of
                       Refuse rc \<Rightarrow> (rc, db)
                     | Drop \<Rightarrow> (2, upd_ctx c (\<lambda>m. m\<lparr>m_is_dropping := True\<rparr>) db)
                     | Insert state rc \<Rightarrow>
                         if state = mosq_ms_invalid then (rc, set_ub db)
                         else (rc, insert_link db c cid dedup
                                \<lparr>cm_store = stored, cm_timestamp = db_now db, cm_mid = mid, cm_qos = qos,
                                 cm_retain = retain, cm_direction = dir, cm_state = state, cm_dup = False\<rparr>))"

fun update_loop :: "client_msg list \<Rightarrow> u16 \<Rightarrow> msg_direction \<Rightarrow> msg_state \<Rightarrow> int \<Rightarrow> int \<times> client_msg list" where
  "update_loop [] mid dir state now = (1, [])"
| "update_loop (x # rest) mid dir state now =
     (if cm_mid x = mid \<and> cm_direction x = dir
      then (MOSQ_ERR_SUCCESS, x\<lparr>cm_timestamp := now, cm_state := state\<rparr> # rest)
      else case update_loop rest mid dir state now of (rc, rest) \<Rightarrow> (rc, x # rest))"

definition mqtt3_db_message_update :: "mosq_db \<Rightarrow> nat \<Rightarrow> u16 \<Rightarrow> msg_direction \<Rightarrow> msg_state \<Rightarrow> int \<times> mosq_db" where
  "mqtt3_db_message_update db c mid dir state =
     (case update_loop (m_msgs (db_ctx db c)) mid dir state (db_now db) of (rc, ms) \<Rightarrow> (rc, set_msgs c ms db))"

definition mqtt3_db_messages_delete :: "mosq_db \<Rightarrow> nat \<Rightarrow> int \<times> mosq_db" where
  "mqtt3_db_messages_delete db c =
     (let db = foldl db_msg_store_deref db (map cm_store (m_msgs (db_ctx db c)))
      in (MOSQ_ERR_SUCCESS,
          upd_ctx c (\<lambda>m. m\<lparr>m_msgs := [], m_last_msg := LNull, m_msg_count := 0, m_msg_count12 := 0\<rparr>) db))"

fun store_find_loop :: "mosq_db \<Rightarrow> client_msg list \<Rightarrow> u16 \<Rightarrow> nat option \<times> mosq_db" where
  "store_find_loop db [] mid = (None, db)"
| "store_find_loop db (x # rest) mid =
     (let db = touch_store (cm_store x) db
      in if st_source_mid (db_store db (cm_store x)) = mid \<and> cm_direction x = mosq_md_in
         then (Some (cm_store x), db) else store_find_loop db rest mid)"

definition mqtt3_db_message_store_find :: "mosq_db \<Rightarrow> nat \<Rightarrow> u16 \<Rightarrow> nat option \<times> mosq_db" where
  "mqtt3_db_message_store_find db c mid = store_find_loop db (m_msgs (db_ctx db c)) mid"

section \<open>Reconnection and retries\<close>

definition reset_out :: "client_msg \<Rightarrow> client_msg" where
  "reset_out x =
     (if cm_state x = mosq_ms_queued then x
      else if cm_qos x = 2 \<and> cm_state x = mosq_ms_wait_for_pubcomp then x\<lparr>cm_state := mosq_ms_resend_pubrel\<rparr>
      else x\<lparr>cm_state := publish_state (cm_qos x) (cm_state x)\<rparr>)"

text \<open>The first loop of \<open>mqtt3_db_message_reconnect_reset\<close>. After a removal \<open>msg\<close> is already the next message,
  and the end of the loop body steps over it: it is not looked at.\<close>

fun reset_loop :: "mosq_db \<Rightarrow> nat \<Rightarrow> client_msg list \<Rightarrow> client_msg list \<Rightarrow> mosq_db" where
  "reset_loop db c pre [] = set_msgs c pre db"
| "reset_loop db c pre (x # rest) =
     (let db = upd_ctx c (\<lambda>m. m\<lparr>m_last_msg := LTail, m_msg_count := m_msg_count m + 1,
                 m_msg_count12 := (if cm_qos x > 0 then m_msg_count12 m + 1 else m_msg_count12 m)\<rparr>) db
      in case cm_direction x of
           mosq_md_out \<Rightarrow> reset_loop db c (pre @ [reset_out x]) rest
         | mosq_md_in \<Rightarrow>
             if cm_qos x \<noteq> 2
             then let db = message_remove db c pre x rest
                  in case rest of
                       [] \<Rightarrow> set_msgs c pre db
                     | y # rest' \<Rightarrow>
                         reset_loop (upd_ctx c (\<lambda>m. m\<lparr>m_last_msg := LFreed\<rparr>) db) c (pre @ [y]) rest'
             else reset_loop db c (pre @ [x]) rest)"

text \<open>The second loop: it publishes the queued messages under the limit, whatever their direction.\<close>

fun unqueue_loop :: "int \<Rightarrow> int \<Rightarrow> client_msg list \<Rightarrow> client_msg list" where
  "unqueue_loop max_inflight count [] = []"
| "unqueue_loop max_inflight count (x # rest) =
     (if max_inflight = 0 \<or> count < max_inflight
      then (if cm_state x = mosq_ms_queued then x\<lparr>cm_state := publish_state (cm_qos x) (cm_state x)\<rparr> else x)
           # unqueue_loop max_inflight (count + 1) rest
      else x # rest)"

definition mqtt3_db_message_reconnect_reset :: "mosq_db \<Rightarrow> nat \<Rightarrow> int \<times> mosq_db" where
  "mqtt3_db_message_reconnect_reset db c =
     (let db = upd_ctx c (\<lambda>m. m\<lparr>m_msg_count := 0, m_msg_count12 := 0\<rparr>) db;
          db = reset_loop db c [] (m_msgs (db_ctx db c))
      in (MOSQ_ERR_SUCCESS, upd_ctx c (\<lambda>m. m\<lparr>m_msgs := unqueue_loop (db_max_inflight db) 0 (m_msgs m)\<rparr>) db))"

definition retry_state :: "msg_state \<Rightarrow> msg_state" where
  "retry_state s = (case s of
       mosq_ms_wait_for_puback \<Rightarrow> mosq_ms_publish_qos1
     | mosq_ms_wait_for_pubrec \<Rightarrow> mosq_ms_publish_qos2
     | mosq_ms_wait_for_pubrel \<Rightarrow> mosq_ms_send_pubrec
     | mosq_ms_wait_for_pubcomp \<Rightarrow> mosq_ms_resend_pubrel
     | _ \<Rightarrow> mosq_ms_invalid)"

definition timeout_msg :: "int \<Rightarrow> int \<Rightarrow> client_msg \<Rightarrow> client_msg" where
  "timeout_msg now threshold x =
     (if cm_timestamp x < threshold \<and> cm_state x \<noteq> mosq_ms_queued \<and> retry_state (cm_state x) \<noteq> mosq_ms_invalid
      then x\<lparr>cm_timestamp := now, cm_state := retry_state (cm_state x), cm_dup := True\<rparr> else x)"

definition mqtt3_db_message_timeout_check :: "mosq_db \<Rightarrow> int \<Rightarrow> int \<times> mosq_db" where
  "mqtt3_db_message_timeout_check db timeout =
     (MOSQ_ERR_SUCCESS,
      foldl (\<lambda>db c. upd_ctx c (\<lambda>m. m\<lparr>m_msgs := map (timeout_msg (db_now db) (db_now db - timeout)) (m_msgs m)\<rparr>)
                      (touch_ctx c db))
        db (db_contexts_by_sock db))"

section \<open>Writing a queue\<close>

text \<open>Sending the message under the cursor, for the states that send. The result is a return
  code, the new state of the message (\<open>None\<close>: it is removed), and whether \<open>timestamp\<close> and \<open>dup\<close> are set.\<close>

definition publish_msg :: "nat \<Rightarrow> client_msg \<Rightarrow> mosq_db \<Rightarrow> int \<times> mosq_db" where
  "publish_msg c x db =
     (let db = touch_store (cm_store x) db; st = db_store db (cm_store x)
      in case st_topic st of
           None \<Rightarrow> (MOSQ_ERR_SUCCESS, set_ub db)
         | Some topic \<Rightarrow>
             on_ctx c (\<lambda>m. mosquitto_send_publish (db_now db) (mount_point db m) m (cm_mid x) topic
                              (st_payload st) (cm_qos x) (cm_retain x) (cm_dup x)) db)"

definition send_msg :: "nat \<Rightarrow> client_msg \<Rightarrow> mosq_db \<Rightarrow> (int \<times> mosq_db) \<times> client_msg option" where
  "send_msg c x db =
     (let sent = x\<lparr>cm_timestamp := db_now db, cm_dup := True\<rparr>
      in case cm_state x of
           mosq_ms_publish_qos0 \<Rightarrow> (publish_msg c x db, None)
         | mosq_ms_publish_qos1 \<Rightarrow> (publish_msg c x db, Some (sent\<lparr>cm_state := mosq_ms_wait_for_puback\<rparr>))
         | mosq_ms_publish_qos2 \<Rightarrow> (publish_msg c x db, Some (sent\<lparr>cm_state := mosq_ms_wait_for_pubrec\<rparr>))
         | mosq_ms_send_pubrec \<Rightarrow>
             (on_ctx c (\<lambda>m. mosquitto_send_pubrec (db_now db) m (cm_mid x)) (touch_store (cm_store x) db),
              Some (x\<lparr>cm_state := mosq_ms_wait_for_pubrel\<rparr>))
         | mosq_ms_resend_pubrel \<Rightarrow>
             (on_ctx c (\<lambda>m. mosquitto_send_pubrel (db_now db) m (cm_mid x)) (touch_store (cm_store x) db),
              Some (x\<lparr>cm_state := mosq_ms_wait_for_pubcomp\<rparr>))
         | mosq_ms_resend_pubcomp \<Rightarrow>
             (on_ctx c (\<lambda>m. mosquitto_send_pubcomp (db_now db) m (cm_mid x)) (touch_store (cm_store x) db),
              Some (x\<lparr>cm_state := mosq_ms_wait_for_pubrel\<rparr>))
         | _ \<Rightarrow> ((MOSQ_ERR_SUCCESS, touch_store (cm_store x) db), Some x))"

text \<open>The loop. A queued incoming message of another quality than 2 is looked at again and again while it is
  under the limit, so the loop is partial.\<close>

partial_function (option) msgs_write_loop ::
    "mosq_db \<Rightarrow> nat \<Rightarrow> int \<Rightarrow> client_msg list \<Rightarrow> client_msg list \<Rightarrow> (int \<times> mosq_db) option" where
  "msgs_write_loop db c msg_count pre ms =
     (case ms of
        [] \<Rightarrow> Some (MOSQ_ERR_SUCCESS, set_msgs c pre db)
      | x # rest \<Rightarrow>
          let msg_count = (if cm_direction x = mosq_md_in then msg_count + 1 else msg_count)
          in if cm_state x \<noteq> mosq_ms_queued
             then case send_msg c x db of
                    ((rc, db), next) \<Rightarrow>
                      if rc \<noteq> MOSQ_ERR_SUCCESS then Some (rc, set_msgs c (pre @ x # rest) db)
                      else (case next of
                              None \<Rightarrow> msgs_write_loop (message_remove db c pre x rest) c msg_count pre rest
                            | Some x \<Rightarrow> msgs_write_loop db c msg_count (pre @ [x]) rest)
             else if cm_direction x = mosq_md_in \<and> (db_max_inflight db = 0 \<or> msg_count < db_max_inflight db)
             then msgs_write_loop db c msg_count pre
                    ((if cm_qos x = 2 then x\<lparr>cm_state := mosq_ms_send_pubrec\<rparr> else x) # rest)
             else msgs_write_loop db c msg_count (pre @ [x]) rest)"

definition mqtt3_db_message_write :: "mosq_db \<Rightarrow> nat \<Rightarrow> (int \<times> mosq_db) option" where
  "mqtt3_db_message_write db c =
     (let m = db_ctx db c
      in if m_sock m = None \<or> (m_state m = mosq_cs_connected \<and> m_id m = None) then Some (MOSQ_ERR_INVAL, db)
         else if m_state m \<noteq> mosq_cs_connected then Some (MOSQ_ERR_SUCCESS, db)
         else msgs_write_loop db c 0 [] (m_msgs m))"

definition mqtt3_db_limits_set :: "int \<Rightarrow> int \<Rightarrow> mosq_db \<Rightarrow> mosq_db" where
  "mqtt3_db_limits_set inflight queued db = db\<lparr>db_max_inflight := inflight, db_max_queued := queued\<rparr>"

section \<open>Opening and closing\<close>

text \<open>A broker without a persistence file.\<close>

definition mqtt3_db_open :: "mosq_db \<Rightarrow> int \<times> mosq_db" where
  "mqtt3_db_open db =
     (MOSQ_ERR_SUCCESS,
      db\<lparr>db_last_db_id := 0, db_contexts_by_id := [], db_contexts_by_sock := [],
         db_subs := [Subhier '''' [] None [], Subhier ''$SYS'' [] None []], db_unpwd := []\<rparr>)"

fun subhier_clean :: "mosq_db \<Rightarrow> subhier list \<Rightarrow> mosq_db" where
  "subhier_clean db [] = db"
| "subhier_clean db (Subhier topic subs retained children # hs) =
     (let db = (case retained of None \<Rightarrow> db | Some s \<Rightarrow> db_msg_store_deref db s)
      in subhier_clean (subhier_clean db children) hs)"

definition mqtt3_db_close :: "mosq_db \<Rightarrow> int \<times> mosq_db" where
  "mqtt3_db_close db = (MOSQ_ERR_SUCCESS, db_msg_store_clean (subhier_clean db (db_subs db)))"

end
