(* ===== verification/Mqtt_Db_Inv.thy ===== *)
theory Mqtt_Db_Inv
  imports Mqtt_Database
begin

text \<open>
  The invariant of the message database. A stored message is owned by the queues and the
  retained entries that point at it; \<open>store_ok db R\<close> says that its reference count is the number
  \<open>R\<close> of owners, that it is in the list of messages exactly while it is allocated, and that nothing undefined has
  happened. \<open>queue_of m ms\<close> says that the counters and \<open>last_msg\<close> of a client describe the queue
  \<open>ms\<close>. A walk over a queue keeps \<open>owns\<close>, both together.

  \<open>keep\<close> erases what the operations of the database change: a frame condition is an equation
  between erased states, which the simplifier composes.
\<close>

section \<open>Counting references\<close>

definition store_ok :: "mosq_db \<Rightarrow> (nat \<Rightarrow> nat) \<Rightarrow> bool" where
  "store_ok db R \<longleftrightarrow> \<not> db_ub db \<and> distinct (db_msg_store db) \<and> db_msg_store_count db = int (length (db_msg_store db))
     \<and> (\<forall>s. (s \<in> set (db_msg_store db) \<longleftrightarrow> st_live (db_store db s))
          \<and> (st_live (db_store db s) \<longrightarrow> st_ref_count (db_store db s) = int (R s) \<and> s < db_next_store db)
          \<and> (0 < R s \<longrightarrow> st_live (db_store db s)))"

lemma store_okD:
  assumes "store_ok db R"
  shows "\<not> db_ub db" "distinct (db_msg_store db)" "db_msg_store_count db = int (length (db_msg_store db))"
    "s \<in> set (db_msg_store db) \<longleftrightarrow> st_live (db_store db s)"
    "st_live (db_store db s) \<Longrightarrow> st_ref_count (db_store db s) = int (R s)"
    "st_live (db_store db s) \<Longrightarrow> s < db_next_store db"
    "0 < R s \<Longrightarrow> st_live (db_store db s)"
  using assms unfolding store_ok_def by blast+

lemma store_okI:
  assumes "\<not> db_ub db" "distinct (db_msg_store db)" "db_msg_store_count db = int (length (db_msg_store db))"
    "\<And>s. s \<in> set (db_msg_store db) \<longleftrightarrow> st_live (db_store db s)"
    "\<And>s. st_live (db_store db s) \<Longrightarrow> st_ref_count (db_store db s) = int (R s)"
    "\<And>s. st_live (db_store db s) \<Longrightarrow> s < db_next_store db"
    "\<And>s. 0 < R s \<Longrightarrow> st_live (db_store db s)"
  shows "store_ok db R"
  using assms unfolding store_ok_def by blast

lemma store_ok_upd [simp]:
  "store_ok (upd_ctx c f db) R = store_ok db R"
  "store_ok (set_msgs c ms db) R = store_ok db R"
  "store_ok (db\<lparr>db_persistence_changes := n\<rparr>) R = store_ok db R"
  "store_ok (db\<lparr>db_subs := hs\<rparr>) R = store_ok db R"
  "store_ok (db\<lparr>db_contexts_by_id := ids\<rparr>) R = store_ok db R"
  by (simp_all add: store_ok_def set_msgs_def)

lemma store_ok_dest_ids [simp]:
  "store_ok (upd_store s (\<lambda>st. st\<lparr>st_dest_ids := ds\<rparr>) db) R = store_ok db R"
  "store_ok (upd_store s (\<lambda>st. st\<lparr>st_dest_ids := st_dest_ids st @ ds\<rparr>) db) R = store_ok db R"
  by (auto simp: store_ok_def)

lemma touch_store_live [simp]: "st_live (db_store db s) \<Longrightarrow> touch_store s db = db"
  by (simp add: touch_store_def)

lemma touch_ctx_live [simp]: "m_live (db_ctx db c) \<Longrightarrow> touch_ctx c db = db"
  by (simp add: touch_ctx_def)

lemma store_ref_ok:
  assumes "store_ok db R" "st_live (db_store db s)"
  shows "store_ok (db_msg_store_ref db s) (R(s := R s + 1))"
  using assms unfolding db_msg_store_ref_def
  by (intro store_okI) (auto simp: store_okD split: if_splits)

lemma store_remove_ok:
  assumes "store_ok db R" "st_live (db_store db s)" "R s = 0"
  shows "store_ok (db_msg_store_remove db s) R"
proof -
  have "s \<in> set (db_msg_store db)" using assms(1,2) store_okD(4) by blast
  then have "int (length (remove1 s (db_msg_store db))) = int (length (db_msg_store db)) - 1"
    by (metis length_pos_if_in_set length_remove1 One_nat_def of_nat_1 of_nat_diff Suc_leI)
  then show ?thesis
    using assms unfolding db_msg_store_remove_def Let_def
    by (intro store_okI) (auto simp: store_okD upd_store_def split: if_splits)
qed

lemma store_deref_ok:
  assumes ok: "store_ok db R" and R: "0 < R s"
  shows "store_ok (db_msg_store_deref db s) (R(s := R s - 1))"
proof -
  let ?db = "upd_store s (\<lambda>st. st\<lparr>st_ref_count := st_ref_count st - 1\<rparr>) db"
  have l: "st_live (db_store db s)" by (rule store_okD(7) [OF ok R])
  have "store_ok ?db (R(s := R s - 1))"
    using ok R l by (intro store_okI) (auto simp: store_okD of_nat_diff split: if_splits)
  moreover have "st_ref_count (db_store ?db s) = int (R s - 1)"
    using R l store_okD(5) [OF ok] by (simp add: of_nat_diff)
  ultimately show ?thesis
    using l store_remove_ok [of ?db "R(s := R s - 1)" s] by (auto simp: db_msg_store_deref_def Let_def)
qed

text \<open>A store of counted objects, as its clients see it.\<close>

locale counted =
  fixes ok :: "'d \<Rightarrow> (nat \<Rightarrow> nat) \<Rightarrow> bool"
    and acquire :: "'d \<Rightarrow> nat \<Rightarrow> 'd"
    and release :: "'d \<Rightarrow> nat \<Rightarrow> 'd"
    and alive :: "'d \<Rightarrow> nat \<Rightarrow> bool"
  assumes acquire_ok: "ok d R \<Longrightarrow> alive d s \<Longrightarrow> ok (acquire d s) (R(s := R s + 1))"
    and release_ok: "ok d R \<Longrightarrow> 0 < R s \<Longrightarrow> ok (release d s) (R(s := R s - 1))"
    and alive_ok: "ok d R \<Longrightarrow> 0 < R s \<Longrightarrow> alive d s"
begin

lemma release_one: "ok d (\<lambda>t. R t + (if t = s then 1 else 0)) \<Longrightarrow> ok (release d s) R"
proof -
  assume "ok d (\<lambda>t. R t + (if t = s then 1 else 0))"
  from release_ok [OF this, of s]
  have "ok (release d s) ((\<lambda>t. R t + (if t = s then 1 else 0))(s := R s))" by simp
  moreover have "(\<lambda>t. R t + (if t = s then 1 else 0))(s := R s) = R" by auto
  ultimately show ?thesis by simp
qed

lemma acquire_one: "ok d R \<Longrightarrow> alive d s \<Longrightarrow> ok (acquire d s) (\<lambda>t. R t + (if t = s then 1 else 0))"
proof -
  assume "ok d R" "alive d s"
  then have "ok (acquire d s) (R(s := R s + 1))" by (rule acquire_ok)
  moreover have "R(s := R s + 1) = (\<lambda>t. R t + (if t = s then 1 else 0))" by auto
  ultimately show ?thesis by simp
qed

text \<open>Giving up a list of references, one after the other.\<close>

lemma release_list: "ok d (\<lambda>t. R t + count_list ss t) \<Longrightarrow> ok (foldl release d ss) R"
proof (induction ss arbitrary: d)
  case (Cons s ss)
  have "(\<lambda>t. R t + count_list (s # ss) t) = (\<lambda>t. (R t + count_list ss t) + (if t = s then 1 else 0))"
    by auto
  then have "ok (release d s) (\<lambda>t. R t + count_list ss t)" using Cons.prems release_one by simp
  then show ?case using Cons.IH by simp
qed simp

end

interpretation store: counted store_ok db_msg_store_ref db_msg_store_deref "\<lambda>db s. st_live (db_store db s)"
  by unfold_locales (fact store_ref_ok, fact store_deref_ok, erule (1) store_okD(7))

section \<open>Frames\<close>

definition sock_zero :: sock where
  "sock_zero = \<lparr>sk_fd = 0, sk_in = [], sk_out = [], sk_wire = []\<rparr>"

definition keep_ctx :: "mosquitto \<Rightarrow> mosquitto" where
  "keep_ctx m = m\<lparr>m_ub := False, m_sock := map_option (\<lambda>_. sock_zero) (m_sock m), m_last_mid := 0, m_last_msg_out := 0,
     m_current_out_packet := None, m_out_packet := [], m_is_dropping := False, m_msgs := [], m_last_msg := LNull,
     m_msg_count := 0, m_msg_count12 := 0\<rparr>"

definition keep_store :: "msg_store \<Rightarrow> msg_store" where
  "keep_store st = st\<lparr>st_live := False, st_dest_ids := [], st_ref_count := 0\<rparr>"

definition keep :: "mosq_db \<Rightarrow> mosq_db" where
  "keep db = db\<lparr>db_msg_store := [], db_msg_store_count := 0, db_persistence_changes := 0,
     db_ctx := (\<lambda>c. keep_ctx (db_ctx db c)), db_store := (\<lambda>s. keep_store (db_store db s)), db_ub := False\<rparr>"

lemma keep_ctx_same_client: "same_client m m' \<Longrightarrow> keep_ctx m' = keep_ctx m"
  by (erule same_clientE) (cases "m_sock m"; auto simp: keep_ctx_def)

lemma keep_ctx_sel:
  assumes "keep_ctx m' = keep_ctx m"
  shows "m_live m' = m_live m" "m_id m' = m_id m" "m_state m' = m_state m" "m_subs m' = m_subs m"
    "m_clean_session m' = m_clean_session m" "m_username m' = m_username m" "m_acl_list m' = m_acl_list m"
    "m_will m' = m_will m" "m_protocol m' = m_protocol m" "m_is_bridge m' = m_is_bridge m"
    "m_listener m' = m_listener m" "(m_sock m' = None) = (m_sock m = None)" "m_in_packet m' = m_in_packet m"
  using arg_cong [OF assms, of m_live] arg_cong [OF assms, of m_id] arg_cong [OF assms, of m_state]
    arg_cong [OF assms, of m_subs] arg_cong [OF assms, of m_clean_session] arg_cong [OF assms, of m_username]
    arg_cong [OF assms, of m_acl_list] arg_cong [OF assms, of m_will] arg_cong [OF assms, of m_protocol]
    arg_cong [OF assms, of m_is_bridge] arg_cong [OF assms, of m_listener] arg_cong [OF assms, of m_sock]
    arg_cong [OF assms, of m_in_packet]
  by (auto simp: keep_ctx_def)

lemma keep_sel:
  assumes "keep db' = keep db"
  shows "keep_ctx (db_ctx db' c) = keep_ctx (db_ctx db c)" "keep_store (db_store db' s) = keep_store (db_store db s)"
    "db_subs db' = db_subs db" "db_config db' = db_config db" "db_next_ctx db' = db_next_ctx db"
    "db_next_store db' = db_next_store db" "db_max_inflight db' = db_max_inflight db"
    "db_max_queued db' = db_max_queued db" "db_contexts_by_id db' = db_contexts_by_id db"
    "db_contexts_by_sock db' = db_contexts_by_sock db" "db_acl_list db' = db_acl_list db"
    "db_acl_patterns db' = db_acl_patterns db" "db_auth_plugin db' = db_auth_plugin db" "db_now db' = db_now db"
    "db_ll_for_free db' = db_ll_for_free db" "db_unpwd db' = db_unpwd db" "db_last_db_id db' = db_last_db_id db"
  using fun_cong [OF arg_cong [OF assms, of db_ctx], of c] fun_cong [OF arg_cong [OF assms, of db_store], of s]
    arg_cong [OF assms, of db_subs] arg_cong [OF assms, of db_config] arg_cong [OF assms, of db_next_ctx]
    arg_cong [OF assms, of db_next_store] arg_cong [OF assms, of db_max_inflight]
    arg_cong [OF assms, of db_max_queued] arg_cong [OF assms, of db_contexts_by_id]
    arg_cong [OF assms, of db_contexts_by_sock] arg_cong [OF assms, of db_acl_list]
    arg_cong [OF assms, of db_acl_patterns] arg_cong [OF assms, of db_auth_plugin] arg_cong [OF assms, of db_now]
    arg_cong [OF assms, of db_ll_for_free] arg_cong [OF assms, of db_unpwd] arg_cong [OF assms, of db_last_db_id]
  by (simp_all add: keep_def)

lemma keep_upd_ctx: "keep_ctx (f (db_ctx db c)) = keep_ctx (db_ctx db c) \<Longrightarrow> keep (upd_ctx c f db) = keep db"
  by (auto simp: keep_def upd_ctx_def intro!: mosq_db.equality)

lemma keep_upd_store:
  "keep_store (f (db_store db s)) = keep_store (db_store db s) \<Longrightarrow> keep (upd_store s f db) = keep db"
  by (auto simp: keep_def upd_store_def intro!: mosq_db.equality)

lemma keep_basic [simp]:
  "keep (set_ub db) = keep db"
  "keep (touch_store s db) = keep db"
  "keep (touch_ctx c db) = keep db"
  "keep (set_msgs c ms db) = keep db"
  "keep (db\<lparr>db_persistence_changes := n\<rparr>) = keep db"
  "keep (db\<lparr>db_msg_store := l, db_msg_store_count := k\<rparr>) = keep db"
      apply (simp add: keep_def set_ub_def)
     apply (simp add: keep_def set_ub_def touch_store_def)
    apply (simp add: keep_def set_ub_def touch_ctx_def)
   apply (simp add: set_msgs_def keep_upd_ctx keep_ctx_def)
  by (simp_all add: keep_def)

lemma keep_counted [simp]:
  "keep (db_msg_store_ref db s) = keep db" "keep (db_msg_store_remove db s) = keep db"
  "keep (db_msg_store_deref db s) = keep db"
proof -
  show ref: "keep (db_msg_store_ref db s) = keep db"
    by (simp add: db_msg_store_ref_def keep_upd_store keep_store_def)
  show rem: "keep (db_msg_store_remove db s) = keep db" for db
    by (simp add: db_msg_store_remove_def Let_def keep_upd_store keep_store_def)
  show "keep (db_msg_store_deref db s) = keep db"
    by (simp add: db_msg_store_deref_def Let_def rem keep_upd_store keep_store_def)
qed

lemma db_ctx_counted [simp]:
  "db_ctx (touch_store s db) = db_ctx db" "db_ctx (touch_ctx c db) = db_ctx db" "db_ctx (set_ub db) = db_ctx db"
  "db_ctx (db_msg_store_ref db s) = db_ctx db" "db_ctx (db_msg_store_remove db s) = db_ctx db"
  "db_ctx (db_msg_store_deref db s) = db_ctx db"
  by (simp_all add: touch_store_def touch_ctx_def set_ub_def db_msg_store_ref_def db_msg_store_remove_def
      db_msg_store_deref_def Let_def)

section \<open>Queues\<close>

text \<open>An incoming message in a queue always has quality 2. The counters and \<open>last_msg\<close> of a client without an
  identifier and with no message are left alone: a session that was taken over leaves them behind.\<close>

definition msg_ok :: "client_msg \<Rightarrow> bool" where
  "msg_ok x \<longleftrightarrow> cm_qos x \<le> 2 \<and> (cm_direction x = mosq_md_in \<longrightarrow> cm_qos x = 2)"

definition count12 :: "client_msg list \<Rightarrow> nat" where
  "count12 ms = length (filter (\<lambda>x. cm_qos x > 0) ms)"

definition uses :: "client_msg list \<Rightarrow> nat \<Rightarrow> nat" where
  "uses ms s = count_list (map cm_store ms) s"

definition queue_of :: "mosquitto \<Rightarrow> client_msg list \<Rightarrow> bool" where
  "queue_of m ms \<longleftrightarrow> (m_id m = None \<and> ms = [] \<or> m_last_msg m = (if ms = [] then LNull else LTail) \<and>
       m_msg_count m = int (length ms) \<and> m_msg_count12 m = int (count12 ms)) \<and> (\<forall>x \<in> set ms. msg_ok x)"

definition owns :: "mosq_db \<Rightarrow> nat \<Rightarrow> (nat \<Rightarrow> nat) \<Rightarrow> client_msg list \<Rightarrow> bool" where
  "owns db c R ms \<longleftrightarrow> store_ok db (\<lambda>s. R s + uses ms s) \<and> queue_of (db_ctx db c) ms"

definition owns_queue :: "mosq_db \<Rightarrow> nat \<Rightarrow> (nat \<Rightarrow> nat) \<Rightarrow> bool" where
  "owns_queue db c R \<longleftrightarrow> owns db c R (m_msgs (db_ctx db c))"

lemma uses_simps [simp]:
  "uses [] s = 0" "uses (x # ms) s = (if cm_store x = s then 1 else 0) + uses ms s"
  "uses (ms @ ns) s = uses ms s + uses ns s"
  by (simp_all add: uses_def)

lemma count12_simps [simp]:
  "count12 [] = 0" "count12 (x # ms) = (if cm_qos x > 0 then 1 else 0) + count12 ms"
  "count12 (ms @ ns) = count12 ms + count12 ns"
  by (simp_all add: count12_def)

lemma owns_live: "owns db c R ms \<Longrightarrow> x \<in> set ms \<Longrightarrow> st_live (db_store db (cm_store x))"
  unfolding owns_def by (auto simp: uses_def count_list_0_iff intro!: store_okD(7) elim!: conjE)

lemma owns_same:
  assumes "owns db c R (pre @ x # rest)" "cm_store y = cm_store x" "cm_qos y = cm_qos x" "cm_direction y = cm_direction x"
  shows "owns db c R (pre @ y # rest)"
  using assms by (auto simp: owns_def queue_of_def msg_ok_def)

lemma owns_set: "owns db c R ms \<Longrightarrow> owns_queue (set_msgs c ms db) c R"
  by (simp add: owns_queue_def owns_def set_msgs_def queue_of_def)

lemma owns_remove:
  assumes "owns db c R (pre @ x # rest)"
  shows "owns (message_remove db c pre x rest) c R (pre @ rest)"
proof -
  have "(\<lambda>s. R s + uses (pre @ x # rest) s) = (\<lambda>s. (R s + uses (pre @ rest) s) + (if s = cm_store x then 1 else 0))"
    by auto
  then have "store_ok (db_msg_store_deref db (cm_store x)) (\<lambda>s. R s + uses (pre @ rest) s)"
    using assms store.release_one unfolding owns_def by metis
  moreover have "queue_of (db_ctx (message_remove db c pre x rest) c) (pre @ rest)"
    using assms by (auto simp: owns_def queue_of_def message_remove_def)
  ultimately show ?thesis by (simp add: owns_def message_remove_def)
qed

lemma message_remove_keep [simp]:
  "keep (message_remove db c pre x rest) = keep db"
  "d \<noteq> c \<Longrightarrow> db_ctx (message_remove db c pre x rest) d = db_ctx db d"
  by (simp_all add: message_remove_def keep_upd_ctx keep_ctx_def)

lemma set_msgs_ctx [simp]:
  "d \<noteq> c \<Longrightarrow> db_ctx (set_msgs c ms db) d = db_ctx db d"
  "m_msgs (db_ctx (set_msgs c ms db) c) = ms"
  by (simp_all add: set_msgs_def)

lemma promote_same [simp]:
  "cm_store (promote db i x) = cm_store x" "cm_qos (promote db i x) = cm_qos x"
  "cm_direction (promote db i x) = cm_direction x" "cm_mid (promote db i x) = cm_mid x"
  by (simp_all add: promote_def split: msg_direction.splits)

lemma delete_loop_keep [simp]:
  "keep (delete_loop db c mid dir i del pre ms) = keep db \<and>
   (\<forall>d. d \<noteq> c \<longrightarrow> db_ctx (delete_loop db c mid dir i del pre ms) d = db_ctx db d)"
  by (induction db c mid dir i del pre ms rule: delete_loop.induct) (simp_all add: Let_def)

lemma delete_loop_owns:
  "owns db c R (pre @ ms) \<Longrightarrow> owns_queue (delete_loop db c mid dir i del pre ms) c R"
proof (induction db c mid dir i del pre ms rule: delete_loop.induct)
  case (1 db c mid dir i del pre)
  then show ?case by (simp add: owns_set)
next
  case (2 db c mid dir i del pre x rest)
  let ?x = "promote db (i + 1) x"
  have o: "owns db c R (pre @ ?x # rest)" by (rule owns_same [OF "2.prems"]) simp_all
  note r = owns_remove [OF o]
  show ?case
    using "2.IH"(1) [OF refl refl] "2.IH"(2) [OF refl refl] o r owns_set by (auto simp: Let_def)
qed

section \<open>Every operation on a queue keeps what it owns\<close>

text \<open>Only the state, the time stamp and the duplicate flag of a message change in place.\<close>

definition sig :: "client_msg \<Rightarrow> nat \<times> nat \<times> msg_direction" where
  "sig x = (cm_store x, cm_qos x, cm_direction x)"

lemma sig_upd [simp]:
  "sig (x\<lparr>cm_state := s\<rparr>) = sig x" "sig (x\<lparr>cm_timestamp := t\<rparr>) = sig x" "sig (x\<lparr>cm_dup := b\<rparr>) = sig x"
  by (simp_all add: sig_def)

lemma fst_sig: "map fst (map sig ms) = map cm_store ms"
  by (simp add: sig_def)

lemma sig_uses: "map sig ms' = map sig ms \<Longrightarrow> uses ms' = uses ms"
  unfolding uses_def fst_sig [symmetric] by (rule ext) (erule arg_cong)

lemma sig_counts:
  "map sig ns = map sig ms \<Longrightarrow>
   count12 ns = count12 ms \<and> length ns = length ms \<and> ((\<forall>z \<in> set ns. msg_ok z) \<longleftrightarrow> (\<forall>z \<in> set ms. msg_ok z))"
proof (induction ns ms rule: list_induct2')
  case (4 x xs y ys)
  then have "sig x = sig y" "map sig xs = map sig ys" by simp_all
  then have "cm_qos x = cm_qos y" "msg_ok x = msg_ok y" by (simp_all add: sig_def msg_ok_def)
  then show ?case using "4.IH" [OF \<open>map sig xs = map sig ys\<close>] by simp
qed simp_all

lemma sig_queue_of: "map sig ms' = map sig ms \<Longrightarrow> queue_of m ms \<Longrightarrow> queue_of m ms'"
  using sig_counts [of ms' ms] by (auto simp: queue_of_def)

lemma owns_sig: "owns db c R ms \<Longrightarrow> map sig ms' = map sig ms \<Longrightarrow> owns db c R ms'"
  unfolding owns_def by (metis sig_uses sig_queue_of)

lemma owns_ctx:
  assumes "owns db c R ms" "same_client (db_ctx db c) m"
  shows "owns (upd_ctx c (\<lambda>_. m) db) c R ms"
  using assms same_client_sel [OF assms(2)] by (simp add: owns_def queue_of_def)

lemma owns_queue_set: "owns_queue db c R \<Longrightarrow> map sig ms = map sig (m_msgs (db_ctx db c)) \<Longrightarrow> owns_queue (set_msgs c ms db) c R"
  unfolding owns_queue_def by (rule owns_set [unfolded owns_queue_def], rule owns_sig)

lemma delete_owns [inv_intros]: "owns_queue db c R \<Longrightarrow> owns_queue (snd (mqtt3_db_message_delete db c mid dir)) c R"
  unfolding mqtt3_db_message_delete_def snd_conv by (rule delete_loop_owns) (simp add: owns_queue_def)

lemma delete_keep [simp]:
  "keep (snd (mqtt3_db_message_delete db c mid dir)) = keep db"
  "d \<noteq> c \<Longrightarrow> db_ctx (snd (mqtt3_db_message_delete db c mid dir)) d = db_ctx db d"
  by (simp_all add: mqtt3_db_message_delete_def)

lemma update_loop_sig: "map sig (snd (update_loop ms mid dir st now)) = map sig ms"
  by (induction ms mid dir st now rule: update_loop.induct) (auto split: prod.splits)

lemma update_owns [inv_intros]: "owns_queue db c R \<Longrightarrow> owns_queue (snd (mqtt3_db_message_update db c mid dir st)) c R"
  using update_loop_sig [of "m_msgs (db_ctx db c)" mid dir st "db_now db"]
  by (auto simp: mqtt3_db_message_update_def intro: owns_queue_set split: prod.splits)

lemma update_keep [simp]:
  "keep (snd (mqtt3_db_message_update db c mid dir st)) = keep db"
  "d \<noteq> c \<Longrightarrow> db_ctx (snd (mqtt3_db_message_update db c mid dir st)) d = db_ctx db d"
  by (simp_all add: mqtt3_db_message_update_def split: prod.splits)

lemma foldl_deref_keep [simp]:
  "keep (foldl db_msg_store_deref db ss) = keep db" "db_ctx (foldl db_msg_store_deref db ss) = db_ctx db"
  by (induction ss arbitrary: db) simp_all

lemma messages_delete_owns [inv_intros]: "owns_queue db c R \<Longrightarrow> owns_queue (snd (mqtt3_db_messages_delete db c)) c R"
  using store.release_list [of db R "map cm_store (m_msgs (db_ctx db c))"]
  by (simp add: mqtt3_db_messages_delete_def owns_queue_def owns_def queue_of_def uses_def)

lemma messages_delete_keep [simp]:
  "keep (snd (mqtt3_db_messages_delete db c)) = keep db"
  "d \<noteq> c \<Longrightarrow> db_ctx (snd (mqtt3_db_messages_delete db c)) d = db_ctx db d"
  "m_msgs (db_ctx (snd (mqtt3_db_messages_delete db c)) c) = []"
  by (simp_all add: mqtt3_db_messages_delete_def keep_upd_ctx keep_ctx_def)

section \<open>Insertion\<close>

lemma upd_ctx_cong: "f (db_ctx db c) = g (db_ctx db c) \<Longrightarrow> upd_ctx c f db = upd_ctx c g db"
  by (simp add: upd_ctx_def)

lemma append_msg_owns:
  assumes "queue_of (db_ctx db c) (m_msgs (db_ctx db c))" "m_id (db_ctx db c) \<noteq> None"
  shows "append_msg c x db = upd_ctx c (\<lambda>m. m\<lparr>m_msgs := m_msgs m @ [x], m_last_msg := LTail\<rparr>) db"
proof (cases "m_msgs (db_ctx db c)")
  case Nil
  then have "m_last_msg (db_ctx db c) = LNull" using assms by (simp add: queue_of_def)
  then show ?thesis using Nil unfolding append_msg_def by (simp, intro upd_ctx_cong, simp)
next
  case (Cons y ms)
  then have l: "m_last_msg (db_ctx db c) = LTail" using assms by (simp add: queue_of_def)
  show ?thesis unfolding append_msg_def l last_ptr.case
    by (rule upd_ctx_cong) (use l in \<open>cases "db_ctx db c", simp\<close>)
qed

lemma insert_plan_valid:
  "insert_plan db m dir qos = Insert st rc \<Longrightarrow> qos \<le> 2 \<Longrightarrow> st \<noteq> mosq_ms_invalid"
  by (auto simp: insert_plan_def publish_state_def split: if_splits msg_direction.splits)

lemma insert_plan_persistence [simp]: "insert_plan (db\<lparr>db_persistence_changes := n\<rparr>) = insert_plan db"
  by (intro ext) (simp add: insert_plan_def)

lemma insert_link_owns:
  assumes o: "owns_queue db c R" and i: "m_id (db_ctx db c) \<noteq> None"
    and live: "st_live (db_store db (cm_store x))" and x: "msg_ok x"
  shows "owns_queue (insert_link db c cid dedup x) c R"
proof -
  define d0 where "d0 = (if cm_state x = mosq_ms_queued
      then db\<lparr>db_persistence_changes := db_persistence_changes db + 1\<rparr> else db)"
  define d1 where "d1 = db_msg_store_ref d0 (cm_store x)"
  have d0: "db_ctx d0 = db_ctx db" "db_store d0 = db_store db" "store_ok d0 Q = store_ok db Q" for Q
    by (simp_all add: d0_def)
  have q1: "queue_of (db_ctx d1 c) (m_msgs (db_ctx d1 c))"
    using o by (simp add: d1_def d0 owns_queue_def owns_def)
  have i1: "m_id (db_ctx d1 c) \<noteq> None" using i by (simp add: d1_def d0)
  have "store_ok d1 (\<lambda>t. (R t + uses (m_msgs (db_ctx db c)) t) + (if t = cm_store x then 1 else 0))"
    unfolding d1_def using o live
    by (intro store.acquire_one) (simp_all add: owns_queue_def owns_def d0)
  moreover have "(\<lambda>t. (R t + uses (m_msgs (db_ctx db c)) t) + (if t = cm_store x then 1 else 0))
      = (\<lambda>t. R t + uses (m_msgs (db_ctx db c) @ [x]) t)"
    by auto
  ultimately have s1: "store_ok d1 (\<lambda>t. R t + uses (m_msgs (db_ctx db c) @ [x]) t)" by simp
  define d2 where "d2 = upd_ctx c (\<lambda>m. m\<lparr>m_msg_count := m_msg_count m + 1,
                 m_msg_count12 := (if cm_qos x > 0 then m_msg_count12 m + 1 else m_msg_count12 m)\<rparr>) (append_msg c x d1)"
  have "owns_queue d2 c R"
    unfolding d2_def append_msg_owns [OF q1 i1]
    using s1 q1 i1 x by (simp add: owns_queue_def owns_def queue_of_def) (simp add: d1_def d0)
  moreover have "insert_link db c cid dedup x
      = (if dedup then upd_store (cm_store x) (\<lambda>st. st\<lparr>st_dest_ids := st_dest_ids st @ [cid]\<rparr>) d2 else d2)"
    unfolding insert_link_def Let_def d0_def [symmetric] d1_def [symmetric] d2_def [symmetric] by (rule refl)
  ultimately show ?thesis by (simp add: owns_queue_def owns_def)
qed

lemma insert_owns [inv_intros]:
  assumes o: "owns_queue db c R" and live: "m_live (db_ctx db c)" "st_live (db_store db s)"
    and q: "qos \<le> 2" "dir = mosq_md_in \<Longrightarrow> qos = 2"
  shows "owns_queue (snd (mqtt3_db_message_insert db c mid dir qos retain s)) c R"
proof -
  let ?dedup = "\<not> cf_allow_duplicate_messages (db_config db) \<and> dir = mosq_md_out \<and> \<not> retain"
  have t: "touch_ctx c db = db" "(if ?dedup then touch_store s db else db) = db" using live by simp_all
  have dr: "owns_queue (upd_ctx c (\<lambda>m. m\<lparr>m_is_dropping := True\<rparr>) db) c R"
    using o by (simp add: owns_queue_def owns_def queue_of_def)
  have ln: "owns_queue (insert_link db c cid d \<lparr>cm_store = s, cm_timestamp = t, cm_mid = mid, cm_qos = qos,
      cm_retain = retain, cm_direction = dir, cm_state = st, cm_dup = False\<rparr>) c R" if "m_id (db_ctx db c) = Some cid'" for cid cid' d t st
    using q that by (intro insert_link_owns o) (simp_all add: live msg_ok_def)
  show ?thesis
    unfolding mqtt3_db_message_insert_def t
    using o dr ln insert_plan_valid [OF _ q(1)] t(2)
    by (auto simp: Let_def split: option.split insert_plan.split)
qed

lemma append_msg_keep [simp]:
  "keep (append_msg c x e) = keep e" "d \<noteq> c \<Longrightarrow> db_ctx (append_msg c x e) d = db_ctx e d"
  by (simp_all add: append_msg_def keep_upd_ctx keep_ctx_def split: last_ptr.splits)

lemma insert_link_keep [simp]:
  "keep (insert_link db c cid dedup x) = keep db" "d \<noteq> c \<Longrightarrow> db_ctx (insert_link db c cid dedup x) d = db_ctx db d"
  by (simp_all add: insert_link_def Let_def keep_upd_ctx keep_ctx_def keep_upd_store keep_store_def)

lemma insert_keep [simp]:
  "keep (snd (mqtt3_db_message_insert db c mid dir qos retain s)) = keep db"
  "d \<noteq> c \<Longrightarrow> db_ctx (snd (mqtt3_db_message_insert db c mid dir qos retain s)) d = db_ctx db d"
  unfolding mqtt3_db_message_insert_def Let_def
  by (auto simp: keep_upd_ctx keep_ctx_def split: option.split insert_plan.split)

section \<open>Reconnection, retries and look-up\<close>

lemma reset_out_sig [simp]: "sig (reset_out x) = sig x"
  by (simp add: reset_out_def)

text \<open>With the invariant no incoming message is removed, and the loop is a map that counts.\<close>

definition reset_msg :: "client_msg \<Rightarrow> client_msg" where
  "reset_msg x = (case cm_direction x of mosq_md_out \<Rightarrow> reset_out x | mosq_md_in \<Rightarrow> x)"

lemma reset_msg_sig [simp]: "sig (reset_msg x) = sig x"
  by (simp add: reset_msg_def split: msg_direction.splits)

lemma upd_ctx_upd_ctx [simp]: "upd_ctx c f (upd_ctx c g db) = upd_ctx c (\<lambda>m. f (g m)) db"
  by (simp add: upd_ctx_def)

lemma reset_loop_eq:
  "\<forall>x \<in> set ms. msg_ok x \<Longrightarrow>
   reset_loop db c pre ms = upd_ctx c (\<lambda>m. m\<lparr>m_msgs := pre @ map reset_msg ms,
     m_last_msg := (if ms = [] then m_last_msg m else LTail), m_msg_count := m_msg_count m + int (length ms),
     m_msg_count12 := m_msg_count12 m + int (count12 ms)\<rparr>) db"
proof (induction ms arbitrary: db pre)
  case Nil
  show ?case unfolding reset_loop.simps set_msgs_def by (rule upd_ctx_cong) simp
next
  case (Cons x ms)
  have q: "cm_direction x = mosq_md_in \<Longrightarrow> cm_qos x = 2" using Cons.prems by (simp add: msg_ok_def)
  have "reset_loop db c pre (x # ms)
      = reset_loop (upd_ctx c (\<lambda>m. m\<lparr>m_last_msg := LTail, m_msg_count := m_msg_count m + 1,
           m_msg_count12 := (if cm_qos x > 0 then m_msg_count12 m + 1 else m_msg_count12 m)\<rparr>) db) c (pre @ [reset_msg x]) ms"
    using q by (cases "cm_direction x") (simp_all add: Let_def reset_msg_def)
  also have "\<dots> = upd_ctx c (\<lambda>m. m\<lparr>m_msgs := pre @ map reset_msg (x # ms), m_last_msg := LTail,
       m_msg_count := m_msg_count m + int (length (x # ms)), m_msg_count12 := m_msg_count12 m + int (count12 (x # ms))\<rparr>) db"
    using Cons by (subst Cons.IH) (auto intro!: upd_ctx_cong)
  finally show ?case by simp
qed

lemma unqueue_loop_sig [simp]: "map sig (unqueue_loop mi n ms) = map sig ms"
  by (induction mi n ms rule: unqueue_loop.induct) auto

lemma reset_loop_keep:
  "keep (reset_loop db c pre ms) = keep db" "d \<noteq> c \<Longrightarrow> db_ctx (reset_loop db c pre ms) d = db_ctx db d"
proof -
  have "keep (reset_loop db c pre ms) = keep db \<and> (d \<noteq> c \<longrightarrow> db_ctx (reset_loop db c pre ms) d = db_ctx db d)"
  proof (induction "length ms" arbitrary: db pre ms rule: less_induct)
    case less
    show ?case
    proof (cases ms)
      case (Cons x rest)
      then have ih: "keep (reset_loop e c p rest) = keep e \<and> (d \<noteq> c \<longrightarrow> db_ctx (reset_loop e c p rest) d = db_ctx e d)" for e p
        using less by simp
      have ih2: "rest = y # rest' \<Longrightarrow>
          keep (reset_loop e c p rest') = keep e \<and> (d \<noteq> c \<longrightarrow> db_ctx (reset_loop e c p rest') d = db_ctx e d)" for e p y rest'
        using less Cons by simp
      have k: "keep (upd_ctx c (\<lambda>m. m\<lparr>m_last_msg := l, m_msg_count := n m, m_msg_count12 := k m\<rparr>) e) = keep e"
        "keep (upd_ctx c (\<lambda>m. m\<lparr>m_last_msg := l\<rparr>) e) = keep e" for l n k e
        by (simp_all add: keep_upd_ctx keep_ctx_def)
      show ?thesis unfolding Cons reset_loop.simps(2) Let_def
        by (cases "cm_direction x"; cases "cm_qos x = 2")
          (simp_all del: reset_loop.simps upd_ctx_upd_ctx add: ih ih2 k split: list.split)
    qed simp
  qed
  then show "keep (reset_loop db c pre ms) = keep db" "d \<noteq> c \<Longrightarrow> db_ctx (reset_loop db c pre ms) d = db_ctx db d"
    by blast+
qed

lemma reconnect_reset_upd:
  assumes ok: "\<forall>x \<in> set (m_msgs (db_ctx db c)). msg_ok x"
  shows "snd (mqtt3_db_message_reconnect_reset db c) = upd_ctx c (\<lambda>m.
    m\<lparr>m_msgs := unqueue_loop (db_max_inflight db) 0 (map reset_msg (m_msgs m)),
      m_last_msg := (if m_msgs m = [] then m_last_msg m else LTail), m_msg_count := int (length (m_msgs m)),
      m_msg_count12 := int (count12 (m_msgs m))\<rparr>) db"
proof -
  let ?db = "upd_ctx c (\<lambda>m. m\<lparr>m_msg_count := 0, m_msg_count12 := 0\<rparr>) db"
  have e: "m_msgs (db_ctx ?db c) = m_msgs (db_ctx db c)" "db_max_inflight (reset_loop ?db c [] ms) = db_max_inflight db" for ms
    by (simp_all add: keep_sel(7) [OF reset_loop_keep(1)])
  show ?thesis
    unfolding mqtt3_db_message_reconnect_reset_def Let_def snd_conv e reset_loop_eq [OF ok] upd_ctx_upd_ctx
    by (intro upd_ctx_cong mosquitto.equality) simp_all
qed

lemma unqueue_reset_sig: "map sig (unqueue_loop n k (map reset_msg ms)) = map sig ms"
  by (simp add: comp_def)

lemma reconnect_reset_eq:
  assumes "queue_of (db_ctx db c) (m_msgs (db_ctx db c))" "m_msgs (db_ctx db c) \<noteq> []"
  shows "snd (mqtt3_db_message_reconnect_reset db c)
    = set_msgs c (unqueue_loop (db_max_inflight db) 0 (map reset_msg (m_msgs (db_ctx db c)))) db"
proof -
  have ok: "\<forall>x \<in> set (m_msgs (db_ctx db c)). msg_ok x" using assms by (simp add: queue_of_def)
  show ?thesis
    unfolding reconnect_reset_upd [OF ok] set_msgs_def
    using assms by (intro upd_ctx_cong mosquitto.equality) (simp_all add: queue_of_def)
qed

lemma reconnect_reset_owns [inv_intros]:
  assumes "owns_queue db c R"
  shows "owns_queue (snd (mqtt3_db_message_reconnect_reset db c)) c R"
proof -
  let ?ms = "m_msgs (db_ctx db c)" and ?ns = "unqueue_loop (db_max_inflight db) 0 (map reset_msg (m_msgs (db_ctx db c)))"
  have o: "owns db c R ?ms" using assms by (simp add: owns_queue_def)
  then have ok: "\<forall>x \<in> set ?ms. msg_ok x" by (simp add: owns_def queue_of_def)
  have s: "map sig ?ns = map sig ?ms" by (rule unqueue_reset_sig)
  have ns: "owns db c R ?ns" by (rule owns_sig [OF o s])
  have "count12 ?ns = count12 ?ms" "length ?ns = length ?ms" using sig_counts [OF s] by simp_all
  moreover have "?ns = [] \<longleftrightarrow> ?ms = []" using calculation(2) by (metis length_0_conv)
  ultimately show ?thesis
    unfolding reconnect_reset_upd [OF ok] owns_queue_def using ns
    by (auto simp: owns_def queue_of_def)
qed

lemma reconnect_reset_keep [simp]:
  "keep (snd (mqtt3_db_message_reconnect_reset db c)) = keep db"
  "d \<noteq> c \<Longrightarrow> db_ctx (snd (mqtt3_db_message_reconnect_reset db c)) d = db_ctx db d"
  by (simp_all add: mqtt3_db_message_reconnect_reset_def Let_def keep_upd_ctx keep_ctx_def reset_loop_keep)

lemma store_find_owns:
  assumes "owns_queue db c R"
  shows "snd (mqtt3_db_message_store_find db c mid) = db"
    "fst (mqtt3_db_message_store_find db c mid) = Some s \<Longrightarrow>
     \<exists>x \<in> set (m_msgs (db_ctx db c)). cm_store x = s \<and> cm_direction x = mosq_md_in \<and> st_source_mid (db_store db s) = mid"
proof -
  have live: "\<forall>x \<in> set (m_msgs (db_ctx db c)). st_live (db_store db (cm_store x))"
    using assms owns_live unfolding owns_queue_def by blast
  have "\<forall>x \<in> set ms. st_live (db_store db (cm_store x)) \<Longrightarrow>
      snd (store_find_loop db ms mid) = db \<and>
      (fst (store_find_loop db ms mid) = Some s \<longrightarrow>
       (\<exists>x \<in> set ms. cm_store x = s \<and> cm_direction x = mosq_md_in \<and> st_source_mid (db_store db s) = mid))" for ms
    by (induction ms) (auto simp: Let_def)
  from this [OF live] show "snd (mqtt3_db_message_store_find db c mid) = db"
    "fst (mqtt3_db_message_store_find db c mid) = Some s \<Longrightarrow>
     \<exists>x \<in> set (m_msgs (db_ctx db c)). cm_store x = s \<and> cm_direction x = mosq_md_in \<and> st_source_mid (db_store db s) = mid"
    by (auto simp: mqtt3_db_message_store_find_def)
qed

section \<open>Writing\<close>

lemma on_ctx_sel:
  assumes "\<And>m. same_client m (snd (f m))"
  shows "keep (snd (on_ctx c f db)) = keep db" "d \<noteq> c \<Longrightarrow> db_ctx (snd (on_ctx c f db)) d = db_ctx db d"
    "owns db c R ms \<Longrightarrow> owns (snd (on_ctx c f db)) c R ms" "fst (on_ctx c f db) = fst (f (db_ctx db c))"
    "db_store (snd (on_ctx c f db)) = db_store db"
proof -
  obtain r m where rm: "f (db_ctx db c) = (r, m)" by fastforce
  then have same: "same_client (db_ctx db c) m" using assms [of "db_ctx db c"] by simp
  show "keep (snd (on_ctx c f db)) = keep db" "d \<noteq> c \<Longrightarrow> db_ctx (snd (on_ctx c f db)) d = db_ctx db d"
    "owns db c R ms \<Longrightarrow> owns (snd (on_ctx c f db)) c R ms" "fst (on_ctx c f db) = fst (f (db_ctx db c))"
    "db_store (snd (on_ctx c f db)) = db_store db"
    by (simp_all add: on_ctx_def rm keep_upd_ctx keep_ctx_same_client [OF same] owns_ctx [OF _ same])
qed

lemma publish_msg_facts:
  "keep (snd (publish_msg c x db)) = keep db" "d \<noteq> c \<Longrightarrow> db_ctx (snd (publish_msg c x db)) d = db_ctx db d"
  by (auto simp: publish_msg_def Let_def on_ctx_sel split: option.split)

lemma send_msg_keep:
  "keep (snd (fst (send_msg c x db))) = keep db" "d \<noteq> c \<Longrightarrow> db_ctx (snd (fst (send_msg c x db))) d = db_ctx db d"
  by (auto simp: send_msg_def Let_def on_ctx_sel publish_msg_facts split: msg_state.split)

text \<open>The topic of an outgoing message is there: only refused incoming ones have none.\<close>

definition sendable :: "mosq_db \<Rightarrow> client_msg \<Rightarrow> bool" where
  "sendable db x \<longleftrightarrow> st_topic (db_store db (cm_store x)) \<noteq> None \<or>
     cm_state x \<notin> {mosq_ms_publish_qos0, mosq_ms_publish_qos1, mosq_ms_publish_qos2}"

lemma send_msg_owns:
  assumes o: "owns db c R (pre @ x # rest)" and s: "sendable db x"
  shows "owns (snd (fst (send_msg c x db))) c R (pre @ x # rest)"
proof -
  have l: "st_live (db_store db (cm_store x))" by (rule owns_live [OF o]) simp
  have p: "st_topic (db_store db (cm_store x)) \<noteq> None \<Longrightarrow> owns (snd (publish_msg c x db)) c R (pre @ x # rest)"
    using l o by (auto simp: publish_msg_def Let_def on_ctx_sel)
  show ?thesis
    using l o s p by (auto simp: send_msg_def sendable_def Let_def on_ctx_sel split: msg_state.splits)
qed

text \<open>What the loop that writes a queue guarantees: it returns, and it keeps what the queue owns.\<close>

definition writes_ok :: "nat \<Rightarrow> (nat \<Rightarrow> nat) \<Rightarrow> mosq_db \<Rightarrow> (int \<times> mosq_db) option \<Rightarrow> bool" where
  "writes_ok c R db r \<longleftrightarrow> (case r of None \<Rightarrow> False
     | Some (rc, db') \<Rightarrow> owns_queue db' c R \<and> keep db' = keep db \<and> (\<forall>d. d \<noteq> c \<longrightarrow> db_ctx db' d = db_ctx db d))"

lemma keep_store_sel:
  assumes "keep_store st' = keep_store st"
  shows "st_topic st' = st_topic st" "st_payload st' = st_payload st" "st_qos st' = st_qos st"
    "st_source_id st' = st_source_id st" "st_source_mid st' = st_source_mid st" "st_retain st' = st_retain st"
  using arg_cong [OF assms, of st_topic] arg_cong [OF assms, of st_payload] arg_cong [OF assms, of st_qos]
    arg_cong [OF assms, of st_source_id] arg_cong [OF assms, of st_source_mid] arg_cong [OF assms, of st_retain]
  by (simp_all add: keep_store_def)

lemma sendable_keep:
  assumes "keep db' = keep db"
  shows "sendable db' x = sendable db x"
  unfolding sendable_def keep_store_sel(1) [OF keep_sel(2) [OF assms]] by (rule refl)

lemma writes_ok_trans:
  assumes "writes_ok c R db1 r" "keep db1 = keep db" "\<And>d. d \<noteq> c \<Longrightarrow> db_ctx db1 d = db_ctx db d"
  shows "writes_ok c R db r"
  using assms by (auto simp: writes_ok_def split: option.splits prod.splits)

lemma send_msg_sig: "snd (send_msg c x db) = Some y \<Longrightarrow> sig y = sig x"
  by (auto simp: send_msg_def Let_def split: msg_state.splits)

lemma write_loop_step:
  assumes ih: "\<And>db n pre. owns db c R (pre @ rest) \<Longrightarrow> \<forall>x \<in> set rest. sendable db x \<Longrightarrow>
        writes_ok c R db (msgs_write_loop db c n pre rest)"
    and o: "owns db c R (pre @ x # rest)" and s: "\<forall>x \<in> set (x # rest). sendable db x"
    and nq: "cm_state x \<noteq> mosq_ms_queued"
  shows "writes_ok c R db (msgs_write_loop db c n pre (x # rest))"
proof -
  obtain rc db1 nxt where sm: "send_msg c x db = ((rc, db1), nxt)" by (metis prod.exhaust)
  have f: "keep db1 = keep db" "\<And>d. d \<noteq> c \<Longrightarrow> db_ctx db1 d = db_ctx db d"
    using send_msg_keep [where c = c and x = x and db = db] by (simp_all add: sm)
  have o1: "owns db1 c R (pre @ x # rest)"
    using send_msg_owns [OF o] s by (simp add: sm)
  have s1: "\<forall>x \<in> set rest. sendable db' x" if "keep db' = keep db" for db'
    using s sendable_keep [OF that] by simp
  let ?n = "if cm_direction x = mosq_md_in then n + 1 else n"
  show ?thesis
  proof (cases "rc = MOSQ_ERR_SUCCESS")
    case False
    then have "msgs_write_loop db c n pre (x # rest) = Some (rc, set_msgs c (pre @ x # rest) db1)"
      using nq by (subst msgs_write_loop.simps) (simp add: sm Let_def)
    then show ?thesis using owns_set [OF o1] f by (simp add: writes_ok_def)
  next
    case True
    show ?thesis
    proof (cases nxt)
      case None
      let ?db = "message_remove db1 c pre x rest"
      have "msgs_write_loop db c n pre (x # rest) = msgs_write_loop ?db c ?n pre rest"
        using nq True None by (subst msgs_write_loop.simps) (simp add: sm Let_def)
      moreover have "writes_ok c R ?db (msgs_write_loop ?db c ?n pre rest)"
        by (rule ih [OF owns_remove [OF o1]]) (simp add: s1 f)
      ultimately show ?thesis using writes_ok_trans [of c R ?db _ db] f by simp
    next
      case (Some y)
      have "msgs_write_loop db c n pre (x # rest) = msgs_write_loop db1 c ?n (pre @ [y]) rest"
        using nq True Some by (subst msgs_write_loop.simps) (simp add: sm Let_def)
      moreover have "owns db1 c R ((pre @ [y]) @ rest)"
        using owns_sig [OF o1, of "(pre @ [y]) @ rest"] send_msg_sig [of c x db y] Some by (simp add: sm)
      then have "writes_ok c R db1 (msgs_write_loop db1 c ?n (pre @ [y]) rest)"
        by (rule ih) (simp add: s1 f)
      ultimately show ?thesis using writes_ok_trans [of c R db1 _ db] f by simp
    qed
  qed
qed

lemma write_loop_ok:
  "owns db c R (pre @ ms) \<Longrightarrow> \<forall>x \<in> set ms. sendable db x \<Longrightarrow> writes_ok c R db (msgs_write_loop db c n pre ms)"
proof (induction ms arbitrary: db n pre)
  case Nil
  then show ?case by (subst msgs_write_loop.simps) (simp add: writes_ok_def owns_set)
next
  case (Cons x rest)
  note step = write_loop_step [OF Cons.IH]
  let ?n = "if cm_direction x = mosq_md_in then n + 1 else n"
  show ?case
  proof (cases "cm_state x = mosq_ms_queued")
    case False
    then show ?thesis using Cons.prems by (intro step) auto
  next
    case q: True
    show ?thesis
    proof (cases "cm_direction x = mosq_md_in \<and> (db_max_inflight db = 0 \<or> ?n < db_max_inflight db)")
      case True
      have "msg_ok x" using Cons.prems(1) by (simp add: owns_def queue_of_def)
      then have "cm_qos x = 2" using True by (simp add: msg_ok_def)
      then have "msgs_write_loop db c n pre (x # rest)
          = msgs_write_loop db c ?n pre (x\<lparr>cm_state := mosq_ms_send_pubrec\<rparr> # rest)"
        using q True by (subst msgs_write_loop.simps) (auto simp: Let_def)
      moreover have "writes_ok c R db (msgs_write_loop db c ?n pre (x\<lparr>cm_state := mosq_ms_send_pubrec\<rparr> # rest))"
      proof (rule step)
        show "owns db c R (pre @ x\<lparr>cm_state := mosq_ms_send_pubrec\<rparr> # rest)"
          by (rule owns_sig [OF Cons.prems(1)]) simp
      qed (use Cons.prems in \<open>auto simp: sendable_def\<close>)
      ultimately show ?thesis by simp
    next
      case False
      then have "msgs_write_loop db c n pre (x # rest) = msgs_write_loop db c ?n (pre @ [x]) rest"
        using q by (subst msgs_write_loop.simps) (auto simp: Let_def)
      then show ?thesis using Cons.IH [of db "pre @ [x]" ?n] Cons.prems by simp
    qed
  qed
qed

lemma message_write_ok:
  assumes "owns_queue db c R" "\<forall>x \<in> set (m_msgs (db_ctx db c)). sendable db x"
  shows "writes_ok c R db (mqtt3_db_message_write db c)"
proof -
  have "writes_ok c R db (Some (r, db))" for r using assms(1) by (simp add: writes_ok_def)
  moreover have "writes_ok c R db (msgs_write_loop db c 0 [] (m_msgs (db_ctx db c)))"
    using assms by (intro write_loop_ok) (simp_all add: owns_queue_def)
  ultimately show ?thesis by (simp add: mqtt3_db_message_write_def Let_def)
qed

end
