(* ===== verification/Mqtt_Subs.thy ===== *)
theory Mqtt_Subs
  imports Mqtt_Database Mqtt_Acl
begin

text \<open>
  The subscription tree of the broker, \<^verbatim>\<open>src/subs.c\<close>, and the operations of \<^verbatim>\<open>src/database.c\<close> that
  publish through it.

  The children of a node are a list in the order of their links; a subscription leaf is a client with a
  quality. A filter is a path from the root: the tree is entered by the first token, and the whole
  list of tokens, the first one again, is followed from there. The array \<open>subs\<close> of a client
  holds the paths of the nodes it has a leaf at.
\<close>

section \<open>Adding a subscription\<close>

definition set_children :: "subhier list \<Rightarrow> subhier \<Rightarrow> subhier" where
  "set_children ch h = Subhier (h_topic h) (h_subs h) (h_retained h) ch"

definition set_subs :: "(nat \<times> nat) list \<Rightarrow> subhier \<Rightarrow> subhier" where
  "set_subs ls h = Subhier (h_topic h) ls (h_retained h) (h_children h)"

text \<open>The list around the first node with a topic.\<close>

fun find_branch :: "cstring \<Rightarrow> subhier list \<Rightarrow> (subhier list \<times> subhier \<times> subhier list) option" where
  "find_branch topic [] = None"
| "find_branch topic (h # hs) =
     (if h_topic h = topic then Some ([], h, hs)
      else case find_branch topic hs of None \<Rightarrow> None | Some (l, b, r) \<Rightarrow> Some (h # l, b, r))"

text \<open>The leaf of the client \<open>cid\<close> gets the new quality, if there is one.\<close>

fun resubscribe :: "mosq_db \<Rightarrow> cstring \<Rightarrow> nat \<Rightarrow> (nat \<times> nat) list \<Rightarrow> (nat \<times> nat) list option \<times> mosq_db" where
  "resubscribe db cid qos [] = (None, db)"
| "resubscribe db cid qos ((c, q) # ls) =
     (let db = touch_ctx c db
      in if m_id (db_ctx db c) = Some cid then (Some ((c, qos) # ls), db)
         else case resubscribe db cid qos ls of
                (None, db) \<Rightarrow> (None, db) | (Some ls, db) \<Rightarrow> (Some ((c, q) # ls), db))"

fun add_slot :: "cstring list \<Rightarrow> cstring list option list \<Rightarrow> cstring list option list" where
  "add_slot p [] = [Some p]"
| "add_slot p (None # ss) = Some p # ss"
| "add_slot p (Some q # ss) = Some q # add_slot p ss"

definition sub_add_leaf :: "mosq_db \<Rightarrow> nat \<Rightarrow> nat \<Rightarrow> cstring list \<Rightarrow> subhier \<Rightarrow> int \<times> subhier \<times> mosq_db" where
  "sub_add_leaf db c qos path h =
     (let db = touch_ctx c db
      in case m_id (db_ctx db c) of
           None \<Rightarrow> (MOSQ_ERR_SUCCESS, h, db)
         | Some cid \<Rightarrow>
             (case resubscribe db cid qos (h_subs h) of
                (Some ls, db) \<Rightarrow> (if m_protocol (db_ctx db c) = mosq_p_mqtt31 then -1 else 0, set_subs ls h, db)
              | (None, db) \<Rightarrow>
                  (MOSQ_ERR_SUCCESS, set_subs (h_subs h @ [(c, qos)]) h,
                   upd_ctx c (\<lambda>m. m\<lparr>m_subs := add_slot path (m_subs m)\<rparr>) db)))"

text \<open>\<open>_sub_add\<close>; without a client it only creates the nodes.\<close>

fun sub_add_node :: "mosq_db \<Rightarrow> nat option \<Rightarrow> nat \<Rightarrow> cstring list \<Rightarrow> subhier \<Rightarrow> cstring list \<Rightarrow> int \<times> subhier \<times> mosq_db" where
  "sub_add_node db context qos path h [] =
     (case context of None \<Rightarrow> (MOSQ_ERR_SUCCESS, h, db) | Some c \<Rightarrow> sub_add_leaf db c qos path h)"
| "sub_add_node db context qos path h (tok # toks) =
     (case find_branch tok (h_children h) of
        Some (l, b, r) \<Rightarrow>
          (case sub_add_node db context qos (path @ [tok]) b toks of
             (rc, b, db) \<Rightarrow> (rc, set_children (l @ b # r) h, db))
      | None \<Rightarrow>
          (case sub_add_node db context qos (path @ [tok]) (Subhier tok [] None []) toks of
             (rc, b, db) \<Rightarrow> (rc, set_children (h_children h @ [b]) h, db)))"

definition mqtt3_sub_add :: "mosq_db \<Rightarrow> nat \<Rightarrow> cstring \<Rightarrow> nat \<Rightarrow> int \<times> mosq_db" where
  "mqtt3_sub_add db c sub qos =
     (let tokens = sub_topic_tokenise sub; top = hd tokens
      in case (case find_branch top (db_subs db) of
                 Some (l, b, r) \<Rightarrow>
                   (case sub_add_node db (Some c) qos [top] b tokens of
                      (rc, b, db) \<Rightarrow> (rc, db\<lparr>db_subs := l @ b # r\<rparr>))
               | None \<Rightarrow>
                   (case sub_add_node db (Some c) qos [top] (Subhier top [] None []) tokens of
                      (rc, b, db) \<Rightarrow> (rc, db\<lparr>db_subs := b # db_subs db\<rparr>))) of
           (rc, db) \<Rightarrow> (if rc = -1 then MOSQ_ERR_SUCCESS else rc, db))"

section \<open>Removing subscriptions\<close>

text \<open>The first leaf of a client, unlinked.\<close>

fun drop_leaf :: "nat \<Rightarrow> (nat \<times> nat) list \<Rightarrow> (nat \<times> nat) list option" where
  "drop_leaf c [] = None"
| "drop_leaf c ((d, q) # ls) = (if d = c then Some ls else map_option ((#) (d, q)) (drop_leaf c ls))"

fun clear_slot :: "cstring list \<Rightarrow> cstring list option list \<Rightarrow> cstring list option list" where
  "clear_slot p [] = []"
| "clear_slot p (s # ss) = (if s = Some p then None # ss else s # clear_slot p ss)"

definition is_unused :: "subhier \<Rightarrow> bool" where
  "is_unused h \<longleftrightarrow> h_children h = [] \<and> h_subs h = [] \<and> h_retained h = None"

fun sub_remove_node :: "mosq_db \<Rightarrow> nat \<Rightarrow> cstring list \<Rightarrow> subhier \<Rightarrow> cstring list \<Rightarrow> subhier \<times> mosq_db" where
  "sub_remove_node db c path h [] =
     (case drop_leaf c (h_subs h) of
        None \<Rightarrow> (h, db)
      | Some ls \<Rightarrow> (set_subs ls h, upd_ctx c (\<lambda>m. m\<lparr>m_subs := clear_slot path (m_subs m)\<rparr>) db))"
| "sub_remove_node db c path h (tok # toks) =
     (case find_branch tok (h_children h) of
        None \<Rightarrow> (h, db)
      | Some (l, b, r) \<Rightarrow>
          (case sub_remove_node db c (path @ [tok]) b toks of
             (b, db) \<Rightarrow> (set_children (if is_unused b then l @ r else l @ b # r) h, db)))"

definition mqtt3_sub_remove :: "mosq_db \<Rightarrow> nat \<Rightarrow> cstring \<Rightarrow> int \<times> mosq_db" where
  "mqtt3_sub_remove db c sub =
     (let tokens = sub_topic_tokenise sub; top = hd tokens
      in case find_branch top (db_subs db) of
           None \<Rightarrow> (MOSQ_ERR_SUCCESS, db)
         | Some (l, b, r) \<Rightarrow>
             (case sub_remove_node db c [top] b tokens of
                (b, db) \<Rightarrow> (MOSQ_ERR_SUCCESS, db\<lparr>db_subs := l @ b # r\<rparr>)))"

text \<open>\<open>mqtt3_subs_clean_session\<close>: the leaves are found through the array, no node is freed.\<close>

fun clean_at :: "nat \<Rightarrow> cstring list \<Rightarrow> subhier list \<Rightarrow> subhier list option" where
  "clean_at c [] hs = None"
| "clean_at c (tok # toks) hs =
     (case find_branch tok hs of
        None \<Rightarrow> None
      | Some (l, b, r) \<Rightarrow>
          if toks = []
          then Some (l @ (case drop_leaf c (h_subs b) of None \<Rightarrow> b | Some ls \<Rightarrow> set_subs ls b) # r)
          else map_option (\<lambda>ch. l @ set_children ch b # r) (clean_at c toks (h_children b)))"

definition clean_slot :: "nat \<Rightarrow> mosq_db \<Rightarrow> cstring list option \<Rightarrow> mosq_db" where
  "clean_slot c db slot =
     (case slot of
        None \<Rightarrow> db
      | Some path \<Rightarrow> (case clean_at c path (db_subs db) of None \<Rightarrow> set_ub db | Some hs \<Rightarrow> db\<lparr>db_subs := hs\<rparr>))"

definition mqtt3_subs_clean_session :: "mosq_db \<Rightarrow> nat \<Rightarrow> int \<times> mosq_db" where
  "mqtt3_subs_clean_session db c =
     (MOSQ_ERR_SUCCESS, upd_ctx c (\<lambda>m. m\<lparr>m_subs := []\<rparr>) (foldl (clean_slot c) db (m_subs (db_ctx db c))))"

section \<open>Publishing\<close>

record publication =
  pub_source :: "cstring option"
  pub_topic :: cstring
  pub_qos :: nat
  pub_retain :: bool
  pub_store :: nat

text \<open>The retained message of a node is replaced, or taken away by an empty message.\<close>

definition process_retain :: "mosq_db \<Rightarrow> publication \<Rightarrow> nat option \<Rightarrow> nat option \<times> mosq_db" where
  "process_retain db p retained =
     (let db = (if take 4 (pub_topic p) \<noteq> ''$SYS''
                then db\<lparr>db_persistence_changes := db_persistence_changes db + 1\<rparr> else db);
          db = (case retained of None \<Rightarrow> db | Some s \<Rightarrow> db_msg_store_deref db s);
          db = touch_store (pub_store p) db
      in if st_payload (db_store db (pub_store p)) \<noteq> []
         then (Some (pub_store p), db_msg_store_ref db (pub_store p))
         else (None, db))"

definition message_qos :: "mosq_db \<Rightarrow> nat \<Rightarrow> nat \<Rightarrow> nat" where
  "message_qos db client_qos qos = (if cf_upgrade_outgoing_qos (db_config db) then client_qos else min qos client_qos)"

text \<open>A message identifier for a quality above 0.\<close>

definition next_mid :: "nat \<Rightarrow> nat \<Rightarrow> mosq_db \<Rightarrow> u16 \<times> mosq_db" where
  "next_mid c qos db = (if qos \<noteq> 0 then on_ctx c mosquitto_mid_generate db else (0, db))"

fun process_leaves :: "mosq_db \<Rightarrow> publication \<Rightarrow> cstring \<Rightarrow> int \<Rightarrow> (nat \<times> nat) list \<Rightarrow> int \<times> mosq_db" where
  "process_leaves db p source rc [] = (rc, db)"
| "process_leaves db p source rc ((c, client_qos) # ls) =
     (let db = touch_ctx c db; m = db_ctx db c
      in if m_id m = None \<or> (m_is_bridge m \<and> m_id m = Some source) then process_leaves db p source rc ls
         else let rc2 = mosquitto_acl_check db m (pub_topic p) MOSQ_ACL_READ
              in if rc2 = MOSQ_ERR_ACL_DENIED then process_leaves db p source rc ls
                 else if rc2 = MOSQ_ERR_SUCCESS
                 then let msg_qos = message_qos db client_qos (pub_qos p)
                      in case next_mid c msg_qos db of
                           (mid, db) \<Rightarrow>
                             (case mqtt3_db_message_insert db c mid mosq_md_out msg_qos
                                     (m_is_bridge m \<and> pub_retain p) (pub_store p) of
                                (rc3, db) \<Rightarrow> process_leaves db p source (if rc3 = 1 then 1 else rc) ls)
                 else (1, db))"

definition subs_process :: "mosq_db \<Rightarrow> publication \<Rightarrow> bool \<Rightarrow> (nat \<times> nat) list \<Rightarrow> nat option \<Rightarrow> int \<times> nat option \<times> mosq_db" where
  "subs_process db p set_retain leaves retained =
     (case (if pub_retain p \<and> set_retain then process_retain db p retained else (retained, db)) of
        (retained, db) \<Rightarrow>
          (case pub_source p of
             None \<Rightarrow> (0, retained, db)
           | Some source \<Rightarrow>
               (case process_leaves db p source 0 leaves of (rc, db) \<Rightarrow> (rc, retained, db))))"

fun sub_search :: "mosq_db \<Rightarrow> publication \<Rightarrow> bool \<Rightarrow> cstring list \<Rightarrow> subhier list \<Rightarrow> subhier list \<times> mosq_db" where
  "sub_search db p set_retain tokens [] = ([], db)"
| "sub_search db p set_retain tokens (Subhier topic leaves retained children # hs) =
     (case
        (if tokens \<noteq> [] \<and> (topic = hd tokens \<or> topic = ''+'')
         then let sr = (set_retain \<and> topic \<noteq> ''+'')
              in case sub_search db p sr (tl tokens) children of
                   (children, db) \<Rightarrow>
                     if tl tokens = []
                     then (case subs_process db p sr leaves retained of
                             (rc, retained, db) \<Rightarrow> (Subhier topic leaves retained children, db))
                     else (Subhier topic leaves retained children, db)
         else if topic = ''#'' \<and> children = []
         then (case subs_process db p False leaves retained of
                 (rc, retained, db) \<Rightarrow> (Subhier topic leaves retained children, db))
         else (Subhier topic leaves retained children, db)) of
        (h, db) \<Rightarrow> (case sub_search db p set_retain tokens hs of (hs, db) \<Rightarrow> (h # hs, db)))"

fun queue_loop :: "mosq_db \<Rightarrow> publication \<Rightarrow> cstring list \<Rightarrow> subhier list \<Rightarrow> subhier list \<times> mosq_db" where
  "queue_loop db p tokens [] = ([], db)"
| "queue_loop db p tokens (h # hs) =
     (case
        (if h_topic h = hd tokens
         then let h = (if pub_retain p then fst (snd (sub_add_node db None 0 [h_topic h] h tokens)) else h)
              in case sub_search db p True tokens (h_children h) of (ch, db) \<Rightarrow> (set_children ch h, db)
         else (h, db)) of
        (h, db) \<Rightarrow> (case queue_loop db p tokens hs of (hs, db) \<Rightarrow> (h # hs, db)))"

definition mqtt3_db_messages_queue ::
    "mosq_db \<Rightarrow> cstring option \<Rightarrow> cstring \<Rightarrow> nat \<Rightarrow> bool \<Rightarrow> nat \<Rightarrow> int \<times> mosq_db" where
  "mqtt3_db_messages_queue db source_id topic qos retain stored =
     (let tokens = sub_topic_tokenise topic;
          p = \<lparr>pub_source = source_id, pub_topic = topic, pub_qos = qos, pub_retain = retain, pub_store = stored\<rparr>;
          db = db_msg_store_ref db stored
      in case queue_loop db p tokens (db_subs db) of
           (hs, db) \<Rightarrow> (0, db_msg_store_deref (db\<lparr>db_subs := hs\<rparr>) stored))"

definition mqtt3_db_messages_easy_queue ::
    "mosq_db \<Rightarrow> nat option \<Rightarrow> cstring \<Rightarrow> nat \<Rightarrow> byte list \<Rightarrow> bool \<Rightarrow> int \<times> mosq_db" where
  "mqtt3_db_messages_easy_queue db context topic qos payload retain =
     (let source_id = (case context of None \<Rightarrow> [] | Some c \<Rightarrow> (case m_id (db_ctx db c) of None \<Rightarrow> [] | Some i \<Rightarrow> i))
      in case mqtt3_db_message_store db (Some source_id) 0 (Some topic) qos payload retain 0 of
           (stored, db) \<Rightarrow> mqtt3_db_messages_queue db (Some source_id) topic qos retain stored)"

section \<open>Retained messages\<close>

definition retain_process :: "mosq_db \<Rightarrow> nat \<Rightarrow> nat \<Rightarrow> nat \<Rightarrow> int \<times> mosq_db" where
  "retain_process db retained c sub_qos =
     (let db = touch_store retained db; st = db_store db retained
      in case st_topic st of
           None \<Rightarrow> (MOSQ_ERR_SUCCESS, set_ub db)
         | Some topic \<Rightarrow>
             let rc = mosquitto_acl_check db (db_ctx db c) topic MOSQ_ACL_READ
             in if rc = MOSQ_ERR_ACL_DENIED then (MOSQ_ERR_SUCCESS, db)
                else if rc \<noteq> MOSQ_ERR_SUCCESS then (rc, db)
                else let qos = min (st_qos st) sub_qos
                     in case next_mid c qos db of
                          (mid, db) \<Rightarrow> mqtt3_db_message_insert db c mid mosq_md_out qos True retained)"

definition retain_process_node :: "mosq_db \<Rightarrow> nat option \<Rightarrow> nat \<Rightarrow> nat \<Rightarrow> mosq_db" where
  "retain_process_node db retained c sub_qos =
     (case retained of None \<Rightarrow> db | Some s \<Rightarrow> snd (retain_process db s c sub_qos))"

fun retain_search :: "mosq_db \<Rightarrow> nat \<Rightarrow> nat \<Rightarrow> nat \<Rightarrow> int \<Rightarrow> cstring list \<Rightarrow> subhier list \<Rightarrow> int \<times> mosq_db" where
  "retain_search db c sub_qos level flag tokens [] = (flag, db)"
| "retain_search db c sub_qos level flag tokens (Subhier topic leaves retained children # hs) =
     (if hd tokens = ''#'' \<and> tl tokens = []
      then let db = retain_process_node db retained c sub_qos
           in case retain_search db c sub_qos (level + 1) 0 tokens children of
                (_, db) \<Rightarrow> retain_search db c sub_qos level (-1) tokens hs
      else if topic \<noteq> ''+'' \<and> (topic = hd tokens \<or> hd tokens = ''+'')
      then if tl tokens \<noteq> []
           then case retain_search db c sub_qos (level + 1) 0 (tl tokens) children of
                  (f, db) \<Rightarrow>
                    let db = (if f = -1 \<or> (hs = [] \<and> hd (tl tokens) = ''#'' \<and> level > 0)
                              then retain_process_node db retained c sub_qos else db)
                    in retain_search db c sub_qos level flag tokens hs
           else retain_search (retain_process_node db retained c sub_qos) c sub_qos level flag tokens hs
      else retain_search db c sub_qos level flag tokens hs)"

definition mqtt3_retain_queue :: "mosq_db \<Rightarrow> nat \<Rightarrow> cstring \<Rightarrow> nat \<Rightarrow> int \<times> mosq_db" where
  "mqtt3_retain_queue db c sub sub_qos =
     (let tokens = sub_topic_tokenise sub
      in case find_branch (hd tokens) (db_subs db) of
           None \<Rightarrow> (MOSQ_ERR_SUCCESS, db)
         | Some (l, b, r) \<Rightarrow>
             (MOSQ_ERR_SUCCESS, snd (retain_search db c sub_qos 0 0 tokens (h_children b))))"

section \<open>Releasing an incoming message\<close>

text \<open>A queued message that comes under the limit is promoted as in \<open>mqtt3_db_message_delete\<close>; an incoming one is
  acknowledged besides.\<close>

definition release_promote :: "mosq_db \<Rightarrow> nat \<Rightarrow> int \<Rightarrow> client_msg \<Rightarrow> client_msg \<times> mosq_db" where
  "release_promote db c msg_index x =
     (promote db msg_index x,
      if cm_state x = mosq_ms_queued \<and> msg_index \<le> db_max_inflight db \<and> cm_direction x = mosq_md_in \<and> cm_qos x = 2
      then snd (on_ctx c (\<lambda>m. mosquitto_send_pubrec (db_now db) m (cm_mid x)) db) else db)"

text \<open>Publishing may append to the queue that is walked: the cursor is the position \<open>i\<close> in the queue of the
  client. Every round moves the cursor or removes a matching message; \<open>fuel\<close> bounds the rounds.\<close>

fun release_loop :: "nat \<Rightarrow> mosq_db \<Rightarrow> nat \<Rightarrow> u16 \<Rightarrow> msg_direction \<Rightarrow> int \<Rightarrow> bool \<Rightarrow> nat \<Rightarrow> (int \<times> mosq_db) option" where
  "release_loop 0 db c mid dir msg_index deleted i = None"
| "release_loop (Suc fuel) db c mid dir msg_index deleted i =
     (let ms = m_msgs (db_ctx db c)
      in if i \<ge> length ms then Some (if deleted then MOSQ_ERR_SUCCESS else 1, db)
         else let msg_index = msg_index + 1
              in case release_promote db c msg_index (ms ! i) of
                   (x, db) \<Rightarrow>
                     let db = set_msgs c (ms[i := x]) db
                     in if cm_mid x = mid \<and> cm_direction x = dir
                        then let db = touch_store (cm_store x) db; st = db_store db (cm_store x);
                                 msg_index = msg_index - 1
                             in case (case st_topic st of
                                        None \<Rightarrow> (0, db)
                                      | Some topic \<Rightarrow> mqtt3_db_messages_queue db (Some (st_source_id st)) topic
                                                        (st_qos st) (cm_retain x) (cm_store x)) of
                                  (rc, db) \<Rightarrow>
                                    if rc \<noteq> 0 then Some (1, db)
                                    else let ms = m_msgs (db_ctx db c);
                                             db = message_remove db c (take i ms) (ms ! i) (drop (Suc i) ms)
                                         in if msg_index > db_max_inflight db then Some (MOSQ_ERR_SUCCESS, db)
                                            else release_loop fuel db c mid dir msg_index True i
                        else if msg_index > db_max_inflight db \<and> deleted then Some (MOSQ_ERR_SUCCESS, db)
                             else release_loop fuel db c mid dir msg_index deleted (i + 1))"

definition mqtt3_db_message_release :: "nat \<Rightarrow> mosq_db \<Rightarrow> nat \<Rightarrow> u16 \<Rightarrow> msg_direction \<Rightarrow> (int \<times> mosq_db) option" where
  "mqtt3_db_message_release fuel db c mid dir = release_loop fuel db c mid dir 0 False 0"

end
