(* ===== verification/Mqtt_Subs_Inv.thy ===== *)
theory Mqtt_Subs_Inv
  imports Mqtt_Db_Inv Mqtt_Subs
begin

text \<open>
  The invariant of the whole database: \<open>queues_ok db E\<close> says that every queue is described by its counters
  and that the reference count of a stored message is the number of queued messages that point at
  it plus \<open>E\<close>, the references held elsewhere (by retained entries of the tree, and by a publication
  under way). Operations on one queue keep it by \<open>queues_ok_step\<close>; publishing is followed through
  the subscription tree.
\<close>

section \<open>All queues\<close>

definition qrefs :: "mosq_db \<Rightarrow> nat \<Rightarrow> nat" where
  "qrefs db s = (\<Sum>c<db_next_ctx db. uses (m_msgs (db_ctx db c)) s)"

definition others :: "mosq_db \<Rightarrow> nat \<Rightarrow> nat \<Rightarrow> nat" where
  "others db c s = (\<Sum>d \<in> {..<db_next_ctx db} - {c}. uses (m_msgs (db_ctx db d)) s)"

definition queues_ok :: "mosq_db \<Rightarrow> (nat \<Rightarrow> nat) \<Rightarrow> bool" where
  "queues_ok db E \<longleftrightarrow> store_ok db (\<lambda>s. qrefs db s + E s) \<and> (\<forall>c<db_next_ctx db. queue_of (db_ctx db c) (m_msgs (db_ctx db c)))"

lemma qrefs_split: "c < db_next_ctx db \<Longrightarrow> qrefs db s = others db c s + uses (m_msgs (db_ctx db c)) s"
  unfolding qrefs_def others_def by (subst sum.remove [of _ c]) simp_all

lemma queues_ok_owns:
  assumes "queues_ok db E" "c < db_next_ctx db"
  shows "owns_queue db c (\<lambda>s. others db c s + E s)"
proof -
  have "(\<lambda>s. qrefs db s + E s) = (\<lambda>s. others db c s + E s + uses (m_msgs (db_ctx db c)) s)"
    by (simp add: qrefs_split [OF assms(2)] fun_eq_iff)
  then show ?thesis using assms by (simp add: queues_ok_def owns_queue_def owns_def)
qed

lemma others_cong:
  "db_next_ctx db' = db_next_ctx db \<Longrightarrow> (\<And>d. d \<noteq> c \<Longrightarrow> db_ctx db' d = db_ctx db d) \<Longrightarrow> others db' c = others db c"
  unfolding others_def by (intro ext sum.cong) auto

lemma queues_ok_step:
  assumes q: "queues_ok db E" and c: "c < db_next_ctx db"
    and o: "\<And>R. owns_queue db c R \<Longrightarrow> owns_queue db' c R"
    and k: "keep db' = keep db" and d: "\<And>d. d \<noteq> c \<Longrightarrow> db_ctx db' d = db_ctx db d"
  shows "queues_ok db' E"
proof -
  have n: "db_next_ctx db' = db_next_ctx db" by (rule keep_sel(5) [OF k])
  have "others db' c = others db c" by (rule others_cong [OF n d])
  then have o': "owns_queue db' c (\<lambda>s. others db' c s + E s)"
    using o [OF queues_ok_owns [OF q c]] by simp
  have "(\<lambda>s. qrefs db' s + E s) = (\<lambda>s. others db' c s + E s + uses (m_msgs (db_ctx db' c)) s)"
    using c n by (simp add: qrefs_split fun_eq_iff)
  then have "store_ok db' (\<lambda>s. qrefs db' s + E s)" using o' by (simp add: owns_queue_def owns_def)
  moreover have "queue_of (db_ctx db' e) (m_msgs (db_ctx db' e))" if "e < db_next_ctx db'" for e
    using o' q that n d [of e] by (cases "e = c") (auto simp: owns_queue_def owns_def queues_ok_def)
  ultimately show ?thesis by (simp add: queues_ok_def)
qed

lemma queues_ok_live: "queues_ok db E \<Longrightarrow> 0 < E s \<Longrightarrow> st_live (db_store db s)"
  unfolding queues_ok_def by (elim conjE) (erule store_okD(7), simp)

lemma queues_ok_sel: "queues_ok db E \<Longrightarrow> \<not> db_ub db"
  "queues_ok db E \<Longrightarrow> c < db_next_ctx db \<Longrightarrow> queue_of (db_ctx db c) (m_msgs (db_ctx db c))"
  unfolding queues_ok_def store_ok_def by blast+

text \<open>Taking and giving up a reference.\<close>

lemma qrefs_counted [simp]:
  "qrefs (db_msg_store_ref db s) = qrefs db" "qrefs (db_msg_store_deref db s) = qrefs db"
  unfolding qrefs_def keep_sel(5) [OF keep_counted(1)] keep_sel(5) [OF keep_counted(3)] by simp_all

lemma next_ctx_counted [simp]:
  "db_next_ctx (db_msg_store_ref db s) = db_next_ctx db" "db_next_ctx (db_msg_store_deref db s) = db_next_ctx db"
  by (rule keep_sel(5) [OF keep_counted(1)], rule keep_sel(5) [OF keep_counted(3)])

lemma queues_ok_ref:
  assumes "queues_ok db E" "st_live (db_store db s)"
  shows "queues_ok (db_msg_store_ref db s) (\<lambda>t. E t + (if t = s then 1 else 0))"
  using assms store.acquire_one [of db "\<lambda>t. qrefs db t + E t" s] by (simp add: queues_ok_def add.assoc)

lemma queues_ok_deref:
  assumes "queues_ok db (\<lambda>t. E t + (if t = s then 1 else 0))"
  shows "queues_ok (db_msg_store_deref db s) E"
  using assms store.release_one [of db "\<lambda>t. qrefs db t + E t" s] by (simp add: queues_ok_def add.assoc)

lemma queues_ok_upd:
  "queues_ok (db\<lparr>db_persistence_changes := n\<rparr>) E = queues_ok db E"
  "queues_ok (db\<lparr>db_subs := hs\<rparr>) E = queues_ok db E"
  by (simp_all add: queues_ok_def qrefs_def)

lemma queues_ok_ctx:
  assumes "queues_ok db E" "m_id (f (db_ctx db c)) = m_id (db_ctx db c)"
    "m_msgs (f (db_ctx db c)) = m_msgs (db_ctx db c)" "m_last_msg (f (db_ctx db c)) = m_last_msg (db_ctx db c)"
    "m_msg_count (f (db_ctx db c)) = m_msg_count (db_ctx db c)" "m_msg_count12 (f (db_ctx db c)) = m_msg_count12 (db_ctx db c)"
  shows "queues_ok (upd_ctx c f db) E"
proof -
  have "qrefs (upd_ctx c f db) = qrefs db" using assms(3) by (auto simp: qrefs_def fun_eq_iff intro!: sum.cong)
  then show ?thesis using assms by (auto simp: queues_ok_def queue_of_def)
qed

section \<open>Publishing to the subscribers of a node\<close>

text \<open>The leaves of a node are subscriptions of allocated clients.\<close>

definition leaf_ok :: "mosq_db \<Rightarrow> nat \<times> nat \<Rightarrow> bool" where
  "leaf_ok db l \<longleftrightarrow> fst l < db_next_ctx db \<and> m_live (db_ctx db (fst l)) \<and> snd l \<le> 2"

lemma leaf_ok_keep:
  assumes "keep db' = keep db"
  shows "leaf_ok db' = leaf_ok db"
  unfolding leaf_ok_def keep_sel(5) [OF assms] keep_ctx_sel(1) [OF keep_sel(1) [OF assms]] by (rule refl)

lemma mid_generate_sel:
  "m_msgs (snd (mosquitto_mid_generate m)) = m_msgs m" "m_last_msg (snd (mosquitto_mid_generate m)) = m_last_msg m"
  "m_msg_count (snd (mosquitto_mid_generate m)) = m_msg_count m"
  "m_msg_count12 (snd (mosquitto_mid_generate m)) = m_msg_count12 m"
  "keep_ctx (snd (mosquitto_mid_generate m)) = keep_ctx m" "m_id (snd (mosquitto_mid_generate m)) = m_id m"
  by (simp_all add: mosquitto_mid_generate_def Let_def keep_ctx_def)

lemma next_mid_facts:
  "queues_ok db E \<Longrightarrow> queues_ok (snd (next_mid c q db)) E" "keep (snd (next_mid c q db)) = keep db"
  "db_store (snd (next_mid c q db)) = db_store db" "m_msgs (db_ctx (snd (next_mid c q db)) d) = m_msgs (db_ctx db d)"
proof -
  have e: "snd (next_mid c q db) = (if q \<noteq> 0 then upd_ctx c (\<lambda>m. snd (mosquitto_mid_generate m)) db else db)"
    by (simp add: next_mid_def on_ctx_def upd_ctx_def split: prod.split)
  show "queues_ok db E \<Longrightarrow> queues_ok (snd (next_mid c q db)) E" "keep (snd (next_mid c q db)) = keep db"
    "db_store (snd (next_mid c q db)) = db_store db" "m_msgs (db_ctx (snd (next_mid c q db)) d) = m_msgs (db_ctx db d)"
    unfolding e by (auto intro: queues_ok_ctx keep_upd_ctx simp: mid_generate_sel)
qed

lemma insert_queues_ok:
  assumes "queues_ok db E" "c < db_next_ctx db" "m_live (db_ctx db c)" "st_live (db_store db s)"
    "qos \<le> 2" "dir = mosq_md_in \<Longrightarrow> qos = 2"
  shows "queues_ok (snd (mqtt3_db_message_insert db c mid dir qos retain s)) E"
  using assms by (intro queues_ok_step [OF assms(1,2)] insert_owns) simp_all

text \<open>Publishing only appends outgoing messages to queues.\<close>

definition grows :: "mosq_db \<Rightarrow> mosq_db \<Rightarrow> bool" where
  "grows db db' \<longleftrightarrow> (\<forall>d. \<exists>ex. m_msgs (db_ctx db' d) = m_msgs (db_ctx db d) @ ex \<and> (\<forall>x \<in> set ex. cm_direction x = mosq_md_out))"

definition pub_step :: "mosq_db \<Rightarrow> mosq_db \<Rightarrow> bool" where
  "pub_step db db' \<longleftrightarrow> keep db' = keep db \<and> grows db db'"

lemma growsI: "(\<And>d. m_msgs (db_ctx db' d) = m_msgs (db_ctx db d)) \<Longrightarrow> grows db db'"
  unfolding grows_def by (intro allI exI [of _ "[]"]) simp

lemma pub_step_refl [simp]: "pub_step db db"
  by (simp add: pub_step_def growsI)

lemma grows_trans:
  assumes ab: "grows a b" and bc: "grows b c"
  shows "grows a c"
  unfolding grows_def
proof
  fix d
  obtain x y where x: "m_msgs (db_ctx b d) = m_msgs (db_ctx a d) @ x" "\<forall>z \<in> set x. cm_direction z = mosq_md_out"
    and y: "m_msgs (db_ctx c d) = m_msgs (db_ctx b d) @ y" "\<forall>z \<in> set y. cm_direction z = mosq_md_out"
    using ab bc unfolding grows_def by blast
  show "\<exists>ex. m_msgs (db_ctx c d) = m_msgs (db_ctx a d) @ ex \<and> (\<forall>x \<in> set ex. cm_direction x = mosq_md_out)"
    by (rule exI [of _ "x @ y"]) (use x y in auto)
qed

lemma pub_step_trans [trans]: "pub_step a b \<Longrightarrow> pub_step b c \<Longrightarrow> pub_step a c"
  using grows_trans by (auto simp: pub_step_def)

lemma pub_step_keep: "pub_step db db' \<Longrightarrow> keep db' = keep db"
  by (simp add: pub_step_def)

lemma pub_step_counted [simp]:
  "pub_step db (db_msg_store_ref db s)" "pub_step db (db_msg_store_deref db s)"
  "pub_step db (db\<lparr>db_persistence_changes := n\<rparr>)"
  by (simp_all add: pub_step_def growsI)

lemma insert_grows:
  assumes q: "queue_of (db_ctx db c) (m_msgs (db_ctx db c))" and live: "m_live (db_ctx db c)" "st_live (db_store db s)"
  shows "pub_step db (snd (mqtt3_db_message_insert db c mid mosq_md_out qos retain s))"
proof -
  have a: "append_msg c x (db_msg_store_ref e s) = upd_ctx c (\<lambda>m. m\<lparr>m_msgs := m_msgs m @ [x], m_last_msg := LTail\<rparr>) (db_msg_store_ref e s)"
    if "db_ctx e = db_ctx db" "m_id (db_ctx db c) \<noteq> None" for x e
    by (rule append_msg_owns) (use q that in simp_all)
  have l: "m_msgs (db_ctx (insert_link db c cid dedup x) d)
      = m_msgs (db_ctx db d) @ (if d = c then [x] else [])" if "cm_store x = s" "m_id (db_ctx db c) \<noteq> None" for cid dedup x d
    by (auto simp: insert_link_def Let_def that(1) a that(2))
  have g: "grows db (insert_link db c cid dedup x)" if "m_id (db_ctx db c) = Some cid'" "cm_store x = s" "cm_direction x = mosq_md_out" for cid cid' dedup x
    unfolding grows_def l [OF that(2), unfolded that(1), simplified] by (intro allI exI conjI, rule refl) (use that in auto)
  have k: "keep (snd (mqtt3_db_message_insert db c mid mosq_md_out qos retain s)) = keep db" by simp
  have d: "grows db (upd_ctx c (\<lambda>m. m\<lparr>m_is_dropping := True\<rparr>) db)" "grows db (set_ub db)" "grows db db"
    by (auto intro: growsI)
  have "grows db (snd (mqtt3_db_message_insert db c mid mosq_md_out qos retain s))"
    unfolding mqtt3_db_message_insert_def touch_ctx_live [OF live(1)] touch_store_live [OF live(2)] Let_def
    using g d by (simp split: option.split insert_plan.split)
  then show ?thesis using k by (simp add: pub_step_def)
qed

lemma process_leaves_ok:
  "\<lbrakk>queues_ok db E; 0 < E (pub_store p); pub_qos p \<le> 2; \<forall>l \<in> set ls. leaf_ok db l\<rbrakk> \<Longrightarrow>
   queues_ok (snd (process_leaves db p src rc ls)) E \<and> pub_step db (snd (process_leaves db p src rc ls))"
proof (induction db p src rc ls rule: process_leaves.induct)
  case (2 db p source rc c q ls)
  have l: "leaf_ok db (c, q)" "\<forall>l \<in> set ls. leaf_ok db l" using "2.prems"(4) by simp_all
  have t: "touch_ctx c db = db" using l(1) by (simp add: leaf_ok_def)
  let ?m = "db_ctx db c" and ?mq = "message_qos db q (pub_qos p)"
  show ?case
  proof (cases "m_id ?m = None \<or> (m_is_bridge ?m \<and> m_id ?m = Some source)")
    case True
    then show ?thesis using "2.IH"(1) [OF refl refl] "2.prems" l(2) t by (simp add: Let_def)
  next
    case go: False
    let ?rc2 = "mosquitto_acl_check db ?m (pub_topic p) MOSQ_ACL_READ"
    show ?thesis
    proof (cases "?rc2 = MOSQ_ERR_SUCCESS")
      case False
      show ?thesis
        using False go "2.IH"(2) [OF refl refl] "2.prems" l(2) t by (auto simp: Let_def)
    next
      case True
      obtain mid db1 where nm: "next_mid c ?mq db = (mid, db1)" by fastforce
      let ?r = "m_is_bridge ?m \<and> pub_retain p"
      obtain rc3 db2 where ins: "mqtt3_db_message_insert db1 c mid mosq_md_out ?mq ?r (pub_store p) = (rc3, db2)" by fastforce
      have k1: "keep db1 = keep db" and q1: "queues_ok db1 E"
        using next_mid_facts(1) [of db E c ?mq] next_mid_facts(2) [of c ?mq db] "2.prems"(1) by (simp_all add: nm)
      have live: "c < db_next_ctx db1" "m_live (db_ctx db1 c)" "st_live (db_store db1 (pub_store p))"
        using l(1) queues_ok_live [OF q1 "2.prems"(2)] keep_sel(5) [OF k1] keep_ctx_sel(1) [OF keep_sel(1) [OF k1]]
        by (simp_all add: leaf_ok_def)
      have mq: "?mq \<le> 2" using l(1) "2.prems"(3) by (auto simp: message_qos_def leaf_ok_def)
      have q2: "queues_ok db2 E"
        using insert_queues_ok [OF q1 live mq, of mosq_md_out mid ?r] by (simp add: ins)
      have "pub_step db db1" using nm next_mid_facts(4) [of c ?mq db] k1 by (simp add: pub_step_def growsI)
      also have "pub_step db1 db2"
        using insert_grows [OF queues_ok_sel(2) [OF q1 live(1)] live(2,3), of mid ?mq ?r] by (simp add: ins)
      finally have k2: "pub_step db db2" .
      have e: "process_leaves db p source rc ((c, q) # ls) = process_leaves db2 p source (if rc3 = 1 then 1 else rc) ls"
        using go True t by (auto simp: Let_def nm ins mosq_err_defs)
      have "queues_ok (snd (process_leaves db2 p source (if rc3 = 1 then 1 else rc) ls)) E
          \<and> pub_step db2 (snd (process_leaves db2 p source (if rc3 = 1 then 1 else rc) ls))"
        using go True nm ins t "2.prems"(2,3) l(2) leaf_ok_keep [OF pub_step_keep [OF k2]] q2
        by (intro "2.IH"(3) [OF refl refl, unfolded t]) (auto simp: mosq_err_defs)
      then show ?thesis unfolding e using k2 pub_step_trans by blast
    qed
  qed
qed simp

section \<open>Publishing through the tree\<close>

definition oref :: "nat option \<Rightarrow> nat \<Rightarrow> nat" where
  "oref r s = (if r = Some s then 1 else 0)"

fun tree_refs :: "subhier list \<Rightarrow> nat \<Rightarrow> nat" where
  "tree_refs [] s = 0"
| "tree_refs (Subhier topic leaves retained children # hs) s = oref retained s + tree_refs children s + tree_refs hs s"

fun tree_leaves :: "subhier list \<Rightarrow> (nat \<times> nat) list" where
  "tree_leaves [] = []"
| "tree_leaves (Subhier topic leaves retained children # hs) = leaves @ tree_leaves children @ tree_leaves hs"

lemma process_retain_ok:
  assumes q: "queues_ok db (\<lambda>s. E s + oref r s)" and E: "0 < E (pub_store p)"
  shows "queues_ok (snd (process_retain db p r)) (\<lambda>s. E s + oref (fst (process_retain db p r)) s)
    \<and> pub_step db (snd (process_retain db p r))"
proof -
  define d0 where "d0 = (if take 4 (pub_topic p) \<noteq> ''$SYS''
      then db\<lparr>db_persistence_changes := db_persistence_changes db + 1\<rparr> else db)"
  have q0: "queues_ok d0 (\<lambda>s. E s + oref r s)" "pub_step db d0" using q by (simp_all add: d0_def queues_ok_upd)
  define d1 where "d1 = (case r of None \<Rightarrow> d0 | Some s \<Rightarrow> db_msg_store_deref d0 s)"
  have q1: "queues_ok d1 E" "pub_step db d1"
  proof -
    have "pub_step d0 d1" by (simp add: d1_def split: option.split)
    with q0(2) show "pub_step db d1" by (rule pub_step_trans)
    show "queues_ok d1 E"
    proof (cases r)
      case None
      then show ?thesis using q0(1) by (simp add: d1_def oref_def)
    next
      case (Some s)
      have "(\<lambda>t. E t + oref (Some s) t) = (\<lambda>t. E t + (if t = s then 1 else 0))" by (auto simp: oref_def)
      then show ?thesis using q0(1) queues_ok_deref [of d0 E s] by (simp add: d1_def Some)
    qed
  qed
  have l: "st_live (db_store d1 (pub_store p))" by (rule queues_ok_live [OF q1(1) E])
  have "queues_ok (db_msg_store_ref d1 (pub_store p)) (\<lambda>s. E s + (if s = pub_store p then 1 else 0))"
    by (rule queues_ok_ref [OF q1(1) l])
  moreover have "(\<lambda>s. E s + (if s = pub_store p then 1 else 0)) = (\<lambda>s. E s + oref (Some (pub_store p)) s)"
    by (auto simp: oref_def)
  ultimately have q2: "queues_ok (db_msg_store_ref d1 (pub_store p)) (\<lambda>s. E s + oref (Some (pub_store p)) s)" by simp
  have "process_retain db p r = (if st_payload (db_store d1 (pub_store p)) \<noteq> []
      then (Some (pub_store p), db_msg_store_ref d1 (pub_store p)) else (None, d1))"
    unfolding process_retain_def d0_def [symmetric] d1_def [symmetric] Let_def by (simp add: l)
  then show ?thesis using q1 q2 pub_step_trans [OF q1(2) pub_step_counted(1)] by (simp add: oref_def)
qed

lemma subs_process_ok:
  assumes q: "queues_ok db (\<lambda>s. E s + oref r s)" and E: "0 < E (pub_store p)"
    and p: "pub_qos p \<le> 2" "\<forall>l \<in> set ls. leaf_ok db l"
    and res: "subs_process db p sr ls r = (rc, r', db')"
  shows "queues_ok db' (\<lambda>s. E s + oref r' s) \<and> pub_step db db'"
proof -
  obtain r1 d1 where pr: "(if pub_retain p \<and> sr then process_retain db p r else (r, db)) = (r1, d1)" by fastforce
  have q1: "queues_ok d1 (\<lambda>s. E s + oref r1 s) \<and> pub_step db d1"
    using process_retain_ok [OF q E] q pr by (cases "pub_retain p \<and> sr") (auto simp: process_retain_def)
  show ?thesis
  proof (cases "pub_source p")
    case None
    then show ?thesis using q1 res by (simp add: subs_process_def pr)
  next
    case (Some source)
    have "queues_ok (snd (process_leaves d1 p source 0 ls)) (\<lambda>s. E s + oref r1 s)
        \<and> pub_step d1 (snd (process_leaves d1 p source 0 ls))"
      using q1 E p leaf_ok_keep [of d1 db] pub_step_keep [of db d1] by (intro process_leaves_ok) simp_all
    then show ?thesis using q1 res Some pub_step_trans [of db d1] by (simp add: subs_process_def pr split: prod.splits)
  qed
qed

lemma sub_search_ok:
  "\<lbrakk>queues_ok db (\<lambda>s. E s + tree_refs hs s); 0 < E (pub_store p); pub_qos p \<le> 2; \<forall>l \<in> set (tree_leaves hs). leaf_ok db l;
    sub_search db p sr toks hs = (hs', db')\<rbrakk> \<Longrightarrow>
   queues_ok db' (\<lambda>s. E s + tree_refs hs' s) \<and> pub_step db db' \<and> tree_leaves hs' = tree_leaves hs"
proof (induction db p sr toks hs arbitrary: E hs' db' rule: sub_search.induct)
  case (2 db p set_retain tokens topic leaves retained children hs)
  define here where "here = (if tokens \<noteq> [] \<and> (topic = hd tokens \<or> topic = ''+'')
         then let sr = (set_retain \<and> topic \<noteq> ''+'')
              in case sub_search db p sr (tl tokens) children of
                   (children, db) \<Rightarrow>
                     if tl tokens = []
                     then (case subs_process db p sr leaves retained of
                             (rc, retained, db) \<Rightarrow> (Subhier topic leaves retained children, db))
                     else (Subhier topic leaves retained children, db)
         else if topic = ''#'' \<and> children = []
         then (case subs_process db p False leaves retained of
                 (rc, retained, db) \<Rightarrow> (Subhier topic leaves retained children, db))
         else (Subhier topic leaves retained children, db))"
  obtain h d1 where hd1: "here = (h, d1)" by fastforce
  obtain hs1 d2 where rest: "sub_search d1 p set_retain tokens hs = (hs1, d2)" by fastforce
  have res: "hs' = h # hs1" "db' = d2"
    using "2.prems"(5) unfolding sub_search.simps(2) here_def [symmetric] by (simp_all add: hd1 rest)
  have lv: "\<forall>l \<in> set leaves. leaf_ok db l" "\<forall>l \<in> set (tree_leaves children). leaf_ok db l" "\<forall>l \<in> set (tree_leaves hs). leaf_ok db l"
    using "2.prems"(4) by auto
  have one: "\<exists>r ch. h = Subhier topic leaves r ch \<and> queues_ok d1 (\<lambda>s. (E s + tree_refs hs s) + (oref r s + tree_refs ch s))
      \<and> pub_step db d1 \<and> tree_leaves ch = tree_leaves children"
  proof (cases "tokens \<noteq> [] \<and> (topic = hd tokens \<or> topic = ''+'')")
    case True
    let ?sr = "set_retain \<and> topic \<noteq> ''+''"
    obtain ch e1 where ss: "sub_search db p ?sr (tl tokens) children = (ch, e1)" by fastforce
    have "(\<lambda>s. E s + tree_refs (Subhier topic leaves retained children # hs) s)
        = (\<lambda>s. (E s + tree_refs hs s + oref retained s) + tree_refs children s)" by auto
    then have i: "queues_ok e1 (\<lambda>s. (E s + tree_refs hs s + oref retained s) + tree_refs ch s) \<and> pub_step db e1
        \<and> tree_leaves ch = tree_leaves children"
      using "2.prems" lv ss by (intro "2.IH"(1) [OF True refl]) simp_all
    show ?thesis
    proof (cases "tl tokens = []")
      case last: True
      obtain rc r e2 where sp: "subs_process e1 p ?sr leaves retained = (rc, r, e2)" by (metis prod_cases3)
      have eq: "(\<lambda>s. (E s + tree_refs hs s + oref x s) + tree_refs ch s) = (\<lambda>s. (E s + tree_refs hs s + tree_refs ch s) + oref x s)" for x
        by auto
      have "queues_ok e2 (\<lambda>s. (E s + tree_refs hs s + tree_refs ch s) + oref r s) \<and> pub_step e1 e2"
        using i "2.prems"(2,3) lv(1) leaf_ok_keep [of e1 db] pub_step_keep [of db e1] eq
        by (intro subs_process_ok [OF _ _ _ _ sp]) simp_all
      moreover have "h = Subhier topic leaves r ch" "d1 = e2"
        using hd1 True last by (simp_all add: here_def ss [unfolded last] sp Let_def)
      moreover have "(\<lambda>s. (E s + tree_refs hs s) + (oref r s + tree_refs ch s)) = (\<lambda>s. (E s + tree_refs hs s + tree_refs ch s) + oref r s)"
        by auto
      ultimately show ?thesis using i pub_step_trans [of db e1 e2] by simp
    next
      case False
      then have "h = Subhier topic leaves retained ch" "d1 = e1"
        using hd1 True by (simp_all add: here_def ss Let_def)
      then show ?thesis using i by (simp add: add.assoc add.left_commute)
    qed
  next
    case no: False
    have eq: "(\<lambda>s. E s + tree_refs (Subhier topic leaves x children # hs) s)
        = (\<lambda>s. (E s + tree_refs hs s + tree_refs children s) + oref x s)" for x by auto
    have eq2: "(\<lambda>s. (E s + tree_refs hs s) + (oref x s + tree_refs children s))
        = (\<lambda>s. (E s + tree_refs hs s + tree_refs children s) + oref x s)" for x by auto
    show ?thesis
    proof (cases "topic = ''#'' \<and> children = []")
      case True
      obtain rc r e2 where sp: "subs_process db p False leaves retained = (rc, r, e2)" by (metis prod_cases3)
      have "queues_ok e2 (\<lambda>s. (E s + tree_refs hs s + tree_refs children s) + oref r s) \<and> pub_step db e2"
        using "2.prems" lv eq by (intro subs_process_ok [OF _ _ _ _ sp]) simp_all
      moreover have "h = Subhier topic leaves r children" "d1 = e2"
        using hd1 no True by (auto simp: here_def sp)
      ultimately show ?thesis unfolding eq2 [symmetric] by simp
    next
      case False
      then have "h = Subhier topic leaves retained children" "d1 = db"
        using hd1 no by (auto simp: here_def)
      then show ?thesis using "2.prems"(1) unfolding eq eq2 [symmetric] by simp
    qed
  qed
  then obtain r ch where h: "h = Subhier topic leaves r ch"
    and q1: "queues_ok d1 (\<lambda>s. (E s + tree_refs hs s) + (oref r s + tree_refs ch s))"
    and k1: "pub_step db d1" and tl: "tree_leaves ch = tree_leaves children" by blast
  have "(\<lambda>s. (E s + tree_refs hs s) + (oref r s + tree_refs ch s)) = (\<lambda>s. (E s + oref r s + tree_refs ch s) + tree_refs hs s)" by auto
  then have "queues_ok d2 (\<lambda>s. (E s + oref r s + tree_refs ch s) + tree_refs hs1 s) \<and> pub_step d1 d2 \<and> tree_leaves hs1 = tree_leaves hs"
    using q1 "2.prems"(2,3) lv(3) leaf_ok_keep [OF pub_step_keep [OF k1]] rest
    by (intro "2.IH"(2) [OF hd1 [unfolded here_def, symmetric]]) simp_all
  then show ?case using k1 tl pub_step_trans [of db d1 d2] by (simp add: res h add.assoc)
qed simp

lemma tree_refs_append [simp]: "tree_refs (hs @ gs) s = tree_refs hs s + tree_refs gs s"
  by (induction hs s rule: tree_refs.induct) simp_all

lemma tree_leaves_append [simp]: "tree_leaves (hs @ gs) = tree_leaves hs @ tree_leaves gs"
  by (induction hs rule: tree_leaves.induct) simp_all

text \<open>The references and leaves of a single node.\<close>

lemma tree_refs_Cons: "tree_refs (h # hs) s = oref (h_retained h) s + tree_refs (h_children h) s + tree_refs hs s"
  by (cases h) simp

lemma tree_leaves_Cons: "tree_leaves (h # hs) = h_subs h @ tree_leaves (h_children h) @ tree_leaves hs"
  by (cases h) simp

lemma set_children_sel [simp]:
  "h_topic (set_children ch h) = h_topic h" "h_subs (set_children ch h) = h_subs h"
  "h_retained (set_children ch h) = h_retained h" "h_children (set_children ch h) = ch"
  by (simp_all add: set_children_def)

lemma set_subs_sel [simp]:
  "h_topic (set_subs ls h) = h_topic h" "h_subs (set_subs ls h) = ls"
  "h_retained (set_subs ls h) = h_retained h" "h_children (set_subs ls h) = h_children h"
  by (simp_all add: set_subs_def)

lemma find_branch_Some:
  "find_branch t hs = Some (l, b, r) \<Longrightarrow> hs = l @ b # r \<and> h_topic b = t \<and> t \<notin> h_topic ` set l"
  by (induction hs arbitrary: l b r) (auto split: if_splits option.splits)

lemma find_branch_None: "find_branch t hs = None \<longleftrightarrow> t \<notin> h_topic ` set hs"
  by (induction hs) (auto split: if_splits option.splits)

text \<open>Creating the path of a retained message adds no leaf and no reference.\<close>

lemma sub_add_node_None:
  "sub_add_node db None q path h toks = (rc, h', db') \<Longrightarrow>
   db' = db \<and> h_topic h' = h_topic h \<and> h_subs h' = h_subs h \<and> h_retained h' = h_retained h
   \<and> tree_refs (h_children h') s = tree_refs (h_children h) s \<and> tree_leaves (h_children h') = tree_leaves (h_children h)"
proof (induction toks arbitrary: db path h rc h' db')
  case (Cons tok toks)
  show ?case
  proof (cases "find_branch tok (h_children h)")
    case None
    obtain rc1 b db1 where r: "sub_add_node db None q (path @ [tok]) (Subhier tok [] None []) toks = (rc1, b, db1)"
      by (metis prod_cases3)
    from Cons.IH [OF r] show ?thesis using Cons.prems
      by (auto simp: None r tree_refs_Cons tree_leaves_Cons oref_def)
  next
    case (Some lbr)
    obtain l b0 r0 where lbr: "lbr = (l, b0, r0)" by (cases lbr)
    obtain rc1 b db1 where r: "sub_add_node db None q (path @ [tok]) b0 toks = (rc1, b, db1)"
      by (metis prod_cases3)
    have ch: "h_children h = l @ b0 # r0" using find_branch_Some Some lbr by simp
    have e: "h' = set_children (l @ b # r0) h" "db' = db1"
      using Cons.prems by (simp_all add: Some lbr r)
    show ?thesis unfolding e set_children_sel ch
      using Cons.IH [OF r] by (auto simp: tree_refs_Cons tree_leaves_Cons)
  qed
qed simp

lemma queue_loop_ok:
  "\<lbrakk>queues_ok db (\<lambda>s. E s + tree_refs hs s); 0 < E (pub_store p); pub_qos p \<le> 2; \<forall>l \<in> set (tree_leaves hs). leaf_ok db l;
    queue_loop db p toks hs = (hs', db')\<rbrakk> \<Longrightarrow>
   queues_ok db' (\<lambda>s. E s + tree_refs hs' s) \<and> pub_step db db' \<and> tree_leaves hs' = tree_leaves hs"
proof (induction hs arbitrary: db E hs' db')
  case (Cons h hs)
  define g where "g = (if pub_retain p then fst (snd (sub_add_node db None 0 [h_topic h] h toks)) else h)"
  have g: "h_subs g = h_subs h" "h_retained g = h_retained h"
    "\<And>s. tree_refs (h_children g) s = tree_refs (h_children h) s" "tree_leaves (h_children g) = tree_leaves (h_children h)"
    using sub_add_node_None [of db 0 "[h_topic h]" h toks "fst (sub_add_node db None 0 [h_topic h] h toks)"
        "fst (snd (sub_add_node db None 0 [h_topic h] h toks))" "snd (snd (sub_add_node db None 0 [h_topic h] h toks))"]
    by (auto simp: g_def)
  obtain h1 d1 where here: "(if h_topic h = hd toks
       then let h = g in case sub_search db p True toks (h_children h) of (ch, db) \<Rightarrow> (set_children ch h, db)
       else (h, db)) = (h1, d1)" by fastforce
  obtain hs1 d2 where rest: "queue_loop d1 p toks hs = (hs1, d2)" by fastforce
  have res: "hs' = h1 # hs1" "db' = d2"
    using Cons.prems(5) unfolding queue_loop.simps(2) g_def [symmetric] by (simp_all add: here rest)
  have q: "queues_ok db (\<lambda>s. (E s + tree_refs hs s + oref (h_retained h) s) + tree_refs (h_children h) s)"
    using Cons.prems(1) by (simp add: tree_refs_Cons add_ac)
  have lv: "\<forall>l \<in> set (tree_leaves (h_children h)). leaf_ok db l" "\<forall>l \<in> set (tree_leaves hs). leaf_ok db l"
    using Cons.prems(4) by (auto simp: tree_leaves_Cons)
  have "queues_ok d1 (\<lambda>s. (E s + tree_refs hs s + oref (h_retained h1) s) + tree_refs (h_children h1) s)
      \<and> pub_step db d1 \<and> h_subs h1 = h_subs h \<and> tree_leaves (h_children h1) = tree_leaves (h_children h)"
  proof (cases "h_topic h = hd toks")
    case True
    obtain ch e where ss: "sub_search db p True toks (h_children g) = (ch, e)" by fastforce
    have "queues_ok e (\<lambda>s. (E s + tree_refs hs s + oref (h_retained h) s) + tree_refs ch s) \<and> pub_step db e
        \<and> tree_leaves ch = tree_leaves (h_children g)"
      using q Cons.prems(2,3) lv(1) g by (intro sub_search_ok [OF _ _ _ _ ss]) simp_all
    moreover have "h1 = set_children ch g" "d1 = e" using here True by (simp_all add: ss Let_def)
    ultimately show ?thesis using g by simp
  next
    case False
    then show ?thesis using here q by simp
  qed
  then have one: "queues_ok d1 (\<lambda>s. (E s + oref (h_retained h1) s + tree_refs (h_children h1) s) + tree_refs hs s)"
    "pub_step db d1" "h_subs h1 = h_subs h" "tree_leaves (h_children h1) = tree_leaves (h_children h)"
    by (simp_all add: add_ac)
  have "queues_ok d2 (\<lambda>s. (E s + oref (h_retained h1) s + tree_refs (h_children h1) s) + tree_refs hs1 s)
      \<and> pub_step d1 d2 \<and> tree_leaves hs1 = tree_leaves hs"
    using one(1) Cons.prems(2,3) lv(2) leaf_ok_keep [OF pub_step_keep [OF one(2)]] rest
    by (intro Cons.IH) simp_all
  then show ?case using one pub_step_trans [of db d1 d2] by (simp add: res tree_refs_Cons tree_leaves_Cons add_ac)
qed simp

text \<open>The frame of an operation that also changes retained messages of the tree.\<close>

definition keep_all :: "mosq_db \<Rightarrow> mosq_db" where
  "keep_all db = (keep db)\<lparr>db_subs := []\<rparr>"

lemma keep_subs: "keep (db\<lparr>db_subs := hs\<rparr>) = (keep db)\<lparr>db_subs := hs\<rparr>"
  by (simp add: keep_def)

lemma keep_keep_all: "keep db' = keep db \<Longrightarrow> keep_all db' = keep_all db"
  by (simp add: keep_all_def)

lemma keep_all_subs [simp]: "keep_all (db\<lparr>db_subs := hs\<rparr>) = keep_all db"
  by (simp add: keep_all_def keep_subs)

lemma keep_all_sel:
  assumes "keep_all db' = keep_all db"
  shows "keep_ctx (db_ctx db' c) = keep_ctx (db_ctx db c)" "keep_store (db_store db' s) = keep_store (db_store db s)"
    "db_config db' = db_config db" "db_next_ctx db' = db_next_ctx db"
    "db_next_store db' = db_next_store db" "db_max_inflight db' = db_max_inflight db"
    "db_max_queued db' = db_max_queued db" "db_contexts_by_id db' = db_contexts_by_id db"
    "db_contexts_by_sock db' = db_contexts_by_sock db" "db_now db' = db_now db" "db_ll_for_free db' = db_ll_for_free db"
proof -
  have k: "keep (db'\<lparr>db_subs := []\<rparr>) = keep (db\<lparr>db_subs := []\<rparr>)"
    using assms by (simp add: keep_all_def keep_subs)
  show "keep_ctx (db_ctx db' c) = keep_ctx (db_ctx db c)" using keep_sel(1) [OF k, of c] by simp
  show "keep_store (db_store db' s) = keep_store (db_store db s)" using keep_sel(2) [OF k, of s] by simp
  show "db_config db' = db_config db" using keep_sel(4) [OF k] by simp
  show "db_next_ctx db' = db_next_ctx db" using keep_sel(5) [OF k] by simp
  show "db_next_store db' = db_next_store db" using keep_sel(6) [OF k] by simp
  show "db_max_inflight db' = db_max_inflight db" using keep_sel(7) [OF k] by simp
  show "db_max_queued db' = db_max_queued db" using keep_sel(8) [OF k] by simp
  show "db_contexts_by_id db' = db_contexts_by_id db" using keep_sel(9) [OF k] by simp
  show "db_contexts_by_sock db' = db_contexts_by_sock db" using keep_sel(10) [OF k] by simp
  show "db_now db' = db_now db" using keep_sel(14) [OF k] by simp
  show "db_ll_for_free db' = db_ll_for_free db" using keep_sel(15) [OF k] by simp
qed

definition tree_ok :: "mosq_db \<Rightarrow> bool" where
  "tree_ok db \<longleftrightarrow> queues_ok db (tree_refs (db_subs db)) \<and> (\<forall>l \<in> set (tree_leaves (db_subs db)). leaf_ok db l)"

lemma messages_queue_held:
  assumes q: "queues_ok db (\<lambda>s. E s + tree_refs (db_subs db) s)" and l: "st_live (db_store db stored)"
    and lv: "\<forall>l \<in> set (tree_leaves (db_subs db)). leaf_ok db l" and qos: "qos \<le> 2"
    and res: "mqtt3_db_messages_queue db source topic qos retain stored = (rc, db')"
  shows "queues_ok db' (\<lambda>s. E s + tree_refs (db_subs db') s)" "keep_all db' = keep_all db" "grows db db'"
    "tree_leaves (db_subs db') = tree_leaves (db_subs db)" "rc = 0"
proof -
  let ?p = "\<lparr>pub_source = source, pub_topic = topic, pub_qos = qos, pub_retain = retain, pub_store = stored\<rparr>"
  let ?d0 = "db_msg_store_ref db stored" and ?hold = "\<lambda>s. if s = stored then 1 else (0::nat)"
  obtain hs d1 where ql: "queue_loop ?d0 ?p (sub_topic_tokenise topic) (db_subs db) = (hs, d1)" by fastforce
  have s0: "db_subs ?d0 = db_subs db" by (rule keep_sel(3)) simp
  have r: "rc = 0" "db' = db_msg_store_deref (d1\<lparr>db_subs := hs\<rparr>) stored"
    using res by (simp_all add: mqtt3_db_messages_queue_def Let_def s0 ql)
  have "queues_ok ?d0 (\<lambda>s. (E s + tree_refs (db_subs db) s) + ?hold s)" by (rule queues_ok_ref [OF q l])
  moreover have "(\<lambda>s. (E s + tree_refs hs s) + ?hold s) = (\<lambda>s. (E s + ?hold s) + tree_refs hs s)" for hs by auto
  moreover have "leaf_ok ?d0 = leaf_ok db" by (rule leaf_ok_keep) simp
  ultimately have "queues_ok d1 (\<lambda>s. (E s + ?hold s) + tree_refs hs s) \<and> pub_step ?d0 d1 \<and> tree_leaves hs = tree_leaves (db_subs db)"
    using lv qos by (intro queue_loop_ok [OF _ _ _ _ ql]) simp_all
  then have q1: "queues_ok d1 (\<lambda>s. (E s + tree_refs hs s) + ?hold s)" and p1: "pub_step ?d0 d1"
    and t1: "tree_leaves hs = tree_leaves (db_subs db)"
    by (simp_all add: add_ac)
  have sub: "db_subs db' = hs" unfolding r by (subst keep_sel(3) [OF keep_counted(3)]) simp
  have "queues_ok (d1\<lparr>db_subs := hs\<rparr>) (\<lambda>s. (E s + tree_refs hs s) + ?hold s)" using q1 by (simp add: queues_ok_upd)
  from queues_ok_deref [OF this] show "queues_ok db' (\<lambda>s. E s + tree_refs (db_subs db') s)"
    unfolding sub by (simp add: r)
  have p: "pub_step db d1" using pub_step_trans [OF pub_step_counted(1) p1] .
  show "keep_all db' = keep_all db"
    unfolding r keep_keep_all [OF keep_counted(3)] keep_all_subs by (rule keep_keep_all [OF pub_step_keep [OF p]])
  have "grows db d1" using p by (simp add: pub_step_def)
  then show "grows db db'" by (simp add: r grows_def)
  show "tree_leaves (db_subs db') = tree_leaves (db_subs db)" "rc = 0" using t1 sub r by simp_all
qed

lemma messages_queue_ok:
  assumes "tree_ok db" "st_live (db_store db stored)" "qos \<le> 2"
    and "mqtt3_db_messages_queue db source topic qos retain stored = (rc, db')"
  shows "tree_ok db'" "keep_all db' = keep_all db" "grows db db'" "rc = 0"
proof -
  have q: "queues_ok db (\<lambda>s. 0 + tree_refs (db_subs db) s)" and lv: "\<forall>l \<in> set (tree_leaves (db_subs db)). leaf_ok db l"
    using assms(1) by (simp_all add: tree_ok_def)
  note r = messages_queue_held [OF q assms(2) lv assms(3,4)]
  show "keep_all db' = keep_all db" "grows db db'" "rc = 0" by (fact r)+
  have "leaf_ok db' = leaf_ok db"
    using keep_all_sel(4) [OF r(2)] keep_ctx_sel(1) [OF keep_all_sel(1) [OF r(2)]] by (simp add: leaf_ok_def fun_eq_iff)
  then show "tree_ok db'" using r(1,4) lv by (simp add: tree_ok_def)
qed

section \<open>Operations on one queue\<close>

lemma tree_ok_step:
  assumes t: "tree_ok db" and c: "c < db_next_ctx db"
    and o: "\<And>R. owns_queue db c R \<Longrightarrow> owns_queue db' c R"
    and k: "keep db' = keep db" and d: "\<And>d. d \<noteq> c \<Longrightarrow> db_ctx db' d = db_ctx db d"
  shows "tree_ok db'"
proof -
  have "queues_ok db' (tree_refs (db_subs db))" using t by (intro queues_ok_step [OF _ c o k d]) (simp add: tree_ok_def)
  then show ?thesis using t by (simp add: tree_ok_def keep_sel(3) [OF k] leaf_ok_keep [OF k])
qed

lemma tree_ok_ctx:
  assumes t: "tree_ok db" and same: "same_client (db_ctx db c) m"
  shows "tree_ok (upd_ctx c (\<lambda>_. m) db)"
proof -
  have k: "keep (upd_ctx c (\<lambda>_. m) db) = keep db"
    by (rule keep_upd_ctx) (simp add: keep_ctx_same_client [OF same])
  show ?thesis
    using t queues_ok_ctx [of db "tree_refs (db_subs db)" "\<lambda>_. m" c] same_client_sel [OF same] leaf_ok_keep [OF k]
    by (simp add: tree_ok_def)
qed

lemma tree_ok_on_ctx: "tree_ok db \<Longrightarrow> (\<And>m. same_client m (snd (f m))) \<Longrightarrow> tree_ok (snd (on_ctx c f db))"
  using tree_ok_ctx [of db c "snd (f (db_ctx db c))"] by (cases "f (db_ctx db c)") (simp add: on_ctx_def, metis snd_conv)

lemma tree_ok_live:
  assumes "tree_ok db" "c < db_next_ctx db" "x \<in> set (m_msgs (db_ctx db c))"
  shows "st_live (db_store db (cm_store x))"
proof -
  have "owns db c (\<lambda>s. others db c s + tree_refs (db_subs db) s) (m_msgs (db_ctx db c))"
    using queues_ok_owns [of db "tree_refs (db_subs db)" c] assms(1,2) by (simp add: tree_ok_def owns_queue_def)
  then show ?thesis by (rule owns_live) (fact assms(3))
qed

lemma tree_ok_queue: "tree_ok db \<Longrightarrow> c < db_next_ctx db \<Longrightarrow> queue_of (db_ctx db c) (m_msgs (db_ctx db c))"
  by (auto simp: tree_ok_def dest: queues_ok_sel(2))

section \<open>Releasing\<close>

text \<open>The messages a release looks for. A round of the loop that publishes and removes one leaves fewer of them, since
  publishing appends only outgoing messages.\<close>

definition matching :: "u16 \<Rightarrow> client_msg list \<Rightarrow> nat" where
  "matching mid ms = length (filter (\<lambda>x. cm_mid x = mid \<and> cm_direction x = mosq_md_in) ms)"

lemma matching_simps [simp]:
  "matching mid [] = 0"
  "matching mid (x # ms) = (if cm_mid x = mid \<and> cm_direction x = mosq_md_in then 1 else 0) + matching mid ms"
  "matching mid (ms @ ns) = matching mid ms + matching mid ns"
  by (simp_all add: matching_def)

lemma matching_out: "\<forall>x \<in> set ms. cm_direction x = mosq_md_out \<Longrightarrow> matching mid ms = 0"
  by (induction ms) auto

text \<open>The qualities of the stored messages a client can release.\<close>

definition stores_ok :: "mosq_db \<Rightarrow> bool" where
  "stores_ok db \<longleftrightarrow> (\<forall>s. st_qos (db_store db s) \<le> 2)"

lemma stores_ok_keep_all: "keep_all db' = keep_all db \<Longrightarrow> stores_ok db' = stores_ok db"
  unfolding stores_ok_def by (metis keep_all_sel(2) keep_store_sel(3))

definition release_ok :: "mosq_db \<Rightarrow> (int \<times> mosq_db) option \<Rightarrow> bool" where
  "release_ok db r \<longleftrightarrow> (\<exists>rc db'. r = Some (rc, db') \<and> tree_ok db' \<and> keep_all db' = keep_all db)"

lemma release_loop_mono:
  "release_loop fuel db c mid dir n del i = Some r \<Longrightarrow> fuel \<le> fuel' \<Longrightarrow> release_loop fuel' db c mid dir n del i = Some r"
proof (induction fuel db c mid dir n del i arbitrary: fuel' r rule: release_loop.induct)
  case (2 fuel db c mid dir n del i)
  obtain f where f: "fuel' = Suc f" "fuel \<le> f" using "2.prems"(2) by (cases fuel') auto
  obtain x d where pr: "release_promote db c (n + 1) (m_msgs (db_ctx db c) ! i) = (x, d)" by fastforce
  let ?e = "set_msgs c ((m_msgs (db_ctx db c))[i := x]) d"
  let ?t = "touch_store (cm_store x) ?e"
  let ?q = "case st_topic (db_store ?t (cm_store x)) of None \<Rightarrow> (0, ?t)
      | Some topic \<Rightarrow> mqtt3_db_messages_queue ?t (Some (st_source_id (db_store ?t (cm_store x)))) topic
           (st_qos (db_store ?t (cm_store x))) (cm_retain x) (cm_store x)"
  obtain rc e where q: "?q = (rc, e)" by fastforce
  show ?case
    using "2.prems"(1) "2.IH"(1) [OF refl _ refl pr [symmetric] refl _ refl refl refl q [symmetric] _ refl refl _, of _ f]
      "2.IH"(2) [OF refl _ refl pr [symmetric] refl, of _ f] f
    by (auto simp: Let_def pr q split: if_splits)
qed simp


lemma tree_ok_set_msgs:
  assumes "tree_ok db" "c < db_next_ctx db" "map sig ms = map sig (m_msgs (db_ctx db c))"
  shows "tree_ok (set_msgs c ms db)"
  by (rule tree_ok_step [OF assms(1,2)]) (simp_all add: owns_queue_set assms(3))

lemma on_ctx_msgs:
  assumes "\<And>m. same_client m (snd (f m))"
  shows "m_msgs (db_ctx (snd (on_ctx c f db)) d) = m_msgs (db_ctx db d)"
  using same_client_sel(4) [OF assms [of "db_ctx db c"]] by (cases "f (db_ctx db c)") (simp add: on_ctx_def)

text \<open>What happens to the message under the cursor before it is looked at.\<close>

lemma release_promote_ok:
  assumes t: "tree_ok db" and c: "c < db_next_ctx db" and i: "i < length (m_msgs (db_ctx db c))"
    and r: "release_promote db c n (m_msgs (db_ctx db c) ! i) = (x, d)"
  defines "e \<equiv> set_msgs c ((m_msgs (db_ctx db c))[i := x]) d"
  shows "tree_ok e" "keep e = keep db" "m_msgs (db_ctx e c) = (m_msgs (db_ctx db c))[i := x]"
    "matching mid (m_msgs (db_ctx e c)) = matching mid (m_msgs (db_ctx db c))"
proof -
  let ?ms = "m_msgs (db_ctx db c)"
  have x: "x = promote db n (?ms ! i)" using r by (simp add: release_promote_def)
  have d: "d = db \<or> d = snd (on_ctx c (\<lambda>m. mosquitto_send_pubrec (db_now db) m (cm_mid (?ms ! i))) db)"
    using r by (auto simp: release_promote_def split: if_splits)
  have s: "\<And>m. same_client m (snd (mosquitto_send_pubrec (db_now db) m (cm_mid (?ms ! i))))" by simp
  have td: "tree_ok d" and kd: "keep d = keep db" and md: "m_msgs (db_ctx d c) = ?ms"
    using d t tree_ok_on_ctx [OF t s, of c] on_ctx_sel(1) [where f = "\<lambda>m. mosquitto_send_pubrec (db_now db) m (cm_mid (?ms ! i))", OF s]
      on_ctx_msgs [where f = "\<lambda>m. mosquitto_send_pubrec (db_now db) m (cm_mid (?ms ! i))", OF s, of c db c]
    by auto
  have "map sig (?ms[i := x]) = map sig ?ms"
    using i by (simp add: map_update x sig_def list_update_same_conv)
  then show "tree_ok e" using td c md keep_sel(5) [OF kd] by (simp add: e_def tree_ok_set_msgs)
  show "keep e = keep db" using kd by (simp add: e_def)
  show m: "m_msgs (db_ctx e c) = ?ms[i := x]" by (simp add: e_def)
  show "matching mid (m_msgs (db_ctx e c)) = matching mid ?ms"
    unfolding m matching_def using i x by (intro filter_update_other) simp_all
qed

text \<open>What happens to a message that is looked for.\<close>

lemma release_remove_ok:
  assumes t: "tree_ok db" and c: "c < db_next_ctx db" and i: "i < length (m_msgs (db_ctx db c))" and so: "stores_ok db"
    and x: "m_msgs (db_ctx db c) ! i = x"
    and q: "(case st_topic (db_store db (cm_store x)) of None \<Rightarrow> (0, db)
      | Some topic \<Rightarrow> mqtt3_db_messages_queue db (Some (st_source_id (db_store db (cm_store x)))) topic
           (st_qos (db_store db (cm_store x))) (cm_retain x) (cm_store x)) = (rc, e)"
  defines "ms \<equiv> m_msgs (db_ctx e c)"
  defines "f \<equiv> message_remove e c (take i ms) (ms ! i) (drop (Suc i) ms)"
  shows "rc = 0" "tree_ok f" "keep_all f = keep_all db"
    "cm_mid x = mid \<Longrightarrow> cm_direction x = mosq_md_in \<Longrightarrow> matching mid (m_msgs (db_ctx f c)) < matching mid (m_msgs (db_ctx db c))"
proof -
  let ?ms = "m_msgs (db_ctx db c)"
  have "x \<in> set ?ms" using i x by auto
  then have l: "st_live (db_store db (cm_store x))" by (rule tree_ok_live [OF t c])
  have e: "rc = 0 \<and> tree_ok e \<and> keep_all e = keep_all db \<and> grows db e"
  proof (cases "st_topic (db_store db (cm_store x))")
    case None
    then show ?thesis using q t by (auto intro: growsI)
  next
    case (Some topic)
    then have mq: "mqtt3_db_messages_queue db (Some (st_source_id (db_store db (cm_store x)))) topic
        (st_qos (db_store db (cm_store x))) (cm_retain x) (cm_store x) = (rc, e)" using q by simp
    have "st_qos (db_store db (cm_store x)) \<le> 2" using so by (simp add: stores_ok_def)
    from messages_queue_ok [OF t l this mq] show ?thesis by blast
  qed
  then show "rc = 0" by blast
  obtain ex where ex: "ms = ?ms @ ex" "\<forall>y \<in> set ex. cm_direction y = mosq_md_out"
    using e unfolding grows_def ms_def by blast
  have i': "i < length ms" "ms ! i = x" using i x by (simp_all add: ex nth_append)
  have split: "ms = take i ms @ x # drop (Suc i) ms" using id_take_nth_drop [OF i'(1)] i'(2) by simp
  have ce: "c < db_next_ctx e" using c e keep_all_sel(4) [of e db] by simp
  show "tree_ok f"
    unfolding f_def
  proof (rule tree_ok_step [of e c])
    show "owns_queue e c R \<Longrightarrow> owns_queue (message_remove e c (take i ms) (ms ! i) (drop (Suc i) ms)) c R" for R
      using owns_remove [of e c R "take i ms" x "drop (Suc i) ms"] split i'(2)
      by (simp add: owns_queue_def ms_def [symmetric]) (simp add: message_remove_def)
  qed (use e ce in simp_all)
  show "keep_all f = keep_all db" using e keep_keep_all [OF message_remove_keep(1)] by (simp add: f_def)
  have mf: "m_msgs (db_ctx f c) = take i ms @ drop (Suc i) ms" by (simp add: f_def message_remove_def)
  assume xm: "cm_mid x = mid" "cm_direction x = mosq_md_in"
  have "matching mid ms = matching mid ?ms" by (simp add: ex matching_out)
  moreover have "matching mid ms = Suc (matching mid (m_msgs (db_ctx f c)))"
    unfolding mf by (subst split) (simp add: xm)
  ultimately show "matching mid (m_msgs (db_ctx f c)) < matching mid ?ms" by simp
qed

lemma release_loop_returns:
  "\<lbrakk>tree_ok db; c < db_next_ctx db; stores_ok db; matching mid (m_msgs (db_ctx db c)) < k; length (m_msgs (db_ctx db c)) - i < j\<rbrakk> \<Longrightarrow>
   \<exists>fuel. release_ok db (release_loop fuel db c mid mosq_md_in n del i)"
proof (induction k arbitrary: db i j n del)
  case (Suc k)
  note outer = Suc.IH
  show ?case using Suc.prems
  proof (induction j arbitrary: db i n del)
    case (Suc j)
    note t = Suc.prems(1) and c = Suc.prems(2) and so = Suc.prems(3)
    let ?ms = "m_msgs (db_ctx db c)"
    show ?case
    proof (cases "i < length ?ms")
      case False
      then have "release_ok db (release_loop (Suc 0) db c mid mosq_md_in n del i)"
        using t by (simp add: release_ok_def)
      then show ?thesis by blast
    next
      case i: True
      obtain x d where pr: "release_promote db c (n + 1) (?ms ! i) = (x, d)" by fastforce
      define e where "e = set_msgs c (?ms[i := x]) d"
      note ep = release_promote_ok [OF t c i pr, folded e_def]
      have ka: "keep_all e = keep_all db" by (rule keep_keep_all [OF ep(2)])
      have ce: "c < db_next_ctx e" and se: "stores_ok e"
        using c so keep_all_sel(4) [OF ka] stores_ok_keep_all [OF ka] by simp_all
      have ie: "i < length (m_msgs (db_ctx e c))" "m_msgs (db_ctx e c) ! i = x" using i by (simp_all add: ep(3))
      have "x \<in> set (m_msgs (db_ctx e c))" using ie nth_mem by metis
      then have l: "touch_store (cm_store x) e = e" using tree_ok_live [OF ep(1) ce] by simp
      have trans: "release_ok e' r \<Longrightarrow> keep_all e' = keep_all db \<Longrightarrow> release_ok db r" for e' r
        by (auto simp: release_ok_def)
      show ?thesis
      proof (cases "cm_mid x = mid \<and> cm_direction x = mosq_md_in")
        case True
        obtain rc e1 where q: "(case st_topic (db_store e (cm_store x)) of None \<Rightarrow> (0, e)
            | Some topic \<Rightarrow> mqtt3_db_messages_queue e (Some (st_source_id (db_store e (cm_store x)))) topic
               (st_qos (db_store e (cm_store x))) (cm_retain x) (cm_store x)) = (rc, e1)" by fastforce
        let ?m1 = "m_msgs (db_ctx e1 c)"
        define f where "f = message_remove e1 c (take i ?m1) (?m1 ! i) (drop (Suc i) ?m1)"
        note rm = release_remove_ok [OF ep(1) ce ie(1) se ie(2) q, folded f_def]
        have kf: "keep_all f = keep_all db" using rm(3) ka by simp
        have run: "release_loop (Suc fuel) db c mid mosq_md_in n del i
            = (if n > db_max_inflight f then Some (MOSQ_ERR_SUCCESS, f)
               else release_loop fuel f c mid mosq_md_in n True i)" for fuel
          unfolding release_loop.simps Let_def pr prod.case e_def [symmetric] l q f_def [symmetric]
          using i True rm(1) by simp
        have "\<exists>fuel. release_ok f (release_loop fuel f c mid mosq_md_in n True i)"
        proof (rule outer)
          show "tree_ok f" "c < db_next_ctx f" "stores_ok f"
            using rm(2) c so keep_all_sel(4) [OF kf] stores_ok_keep_all [OF kf] by simp_all
          show "matching mid (m_msgs (db_ctx f c)) < k" using rm(4) [of mid] True ep(4) [of mid] Suc.prems(4) by simp
        qed (rule lessI)
        then obtain fuel where "release_ok f (release_loop fuel f c mid mosq_md_in n True i)" by blast
        then have "release_ok db (release_loop (Suc fuel) db c mid mosq_md_in n del i)"
          unfolding run using trans [OF _ kf] rm(2) kf by (auto simp: release_ok_def)
        then show ?thesis by blast
      next
        case no: False
        have run: "release_loop (Suc fuel) db c mid mosq_md_in n del i
            = (if n + 1 > db_max_inflight e \<and> del then Some (MOSQ_ERR_SUCCESS, e)
               else release_loop fuel e c mid mosq_md_in (n + 1) del (i + 1))" for fuel
          using i no by (auto simp: Let_def pr e_def [symmetric])
        have "\<exists>fuel. release_ok e (release_loop fuel e c mid mosq_md_in (n + 1) del (i + 1))"
          using i Suc.prems(4,5) ep(4) [of mid, unfolded ep(3)]
          by (intro Suc.IH ep(1) ce se) (simp_all add: ep(3))
        then obtain fuel where "release_ok e (release_loop fuel e c mid mosq_md_in (n + 1) del (i + 1))" by blast
        then have "release_ok db (release_loop (Suc fuel) db c mid mosq_md_in n del i)"
          unfolding run using trans [OF _ ka] ep(1) ka by (auto simp: release_ok_def)
        then show ?thesis by blast
      qed
    qed
  qed simp
qed simp

end
