(* ===== verification/Mqtt_Db_Laws.thy ===== *)
theory Mqtt_Db_Laws
  imports Mqtt_Subs_Inv
begin

text \<open>
  The properties of the message database (\<^verbatim>\<open>src/database.c\<close>): its invariant under every operation, the
  termination of the two loops that are not structural, the limits of a queue, what an
  acknowledgement does to a queue, and what happens to an incoming message that was queued when its
  client reconnects.
\<close>

section \<open>A small database for the examples\<close>

definition demo_sock :: sock where
  "demo_sock = \<lparr>sk_fd = 7, sk_in = [], sk_out = [], sk_wire = []\<rparr>"

definition demo_msg :: "nat \<Rightarrow> u16 \<Rightarrow> nat \<Rightarrow> msg_direction \<Rightarrow> msg_state \<Rightarrow> client_msg" where
  "demo_msg s mid qos dir st = \<lparr>cm_store = s, cm_timestamp = 0, cm_mid = mid, cm_qos = qos, cm_retain = False,
     cm_direction = dir, cm_state = st, cm_dup = False\<rparr>"

text \<open>One connected client with a queue of messages, all pointing at the store 0.\<close>

definition demo_db :: "client_msg list \<Rightarrow> mosq_db" where
  "demo_db ms = db_zero\<lparr>db_subs := [Subhier '''' [] None [], Subhier ''$SYS'' [] None []],
     db_msg_store := [0], db_msg_store_count := 1, db_next_store := 1, db_next_ctx := 1,
     db_contexts_by_id := [(''dev'', 0)], db_contexts_by_sock := [0],
     db_store := (\<lambda>_. msg_store_zero)(0 := msg_store_zero\<lparr>st_live := True, st_db_id := 1, st_source_id := ''dev'',
        st_ref_count := int (length ms), st_topic := Some ''a/b'', st_payload := [65], st_source_mid := 5, st_qos := 2\<rparr>),
     db_ctx := (\<lambda>_. mosquitto_zero)(0 := mosquitto_zero\<lparr>m_live := True, m_sock := Some demo_sock, m_id := Some ''dev'',
        m_state := mosq_cs_connected, m_protocol := mosq_p_mqtt311, m_msgs := ms, m_last_msg := (if ms = [] then LNull else LTail),
        m_msg_count := int (length ms), m_msg_count12 := int (count12 ms)\<rparr>)\<rparr>"

lemma demo_db_sel [simp]:
  "db_next_ctx (demo_db ms) = 1" "m_live (db_ctx (demo_db ms) 0)" "m_msgs (db_ctx (demo_db ms) 0) = ms"
  "st_live (db_store (demo_db ms) 0)" "db_max_inflight (demo_db ms) = 20" "db_max_queued (demo_db ms) = 100"
  "m_id (db_ctx (demo_db ms) 0) = Some ''dev''" "m_state (db_ctx (demo_db ms) 0) = mosq_cs_connected"
  "st_topic (db_store (demo_db ms) 0) = Some ''a/b''" "m_sock (db_ctx (demo_db ms) 0) = Some demo_sock"
  "m_msg_count12 (db_ctx (demo_db ms) 0) = int (count12 ms)" "st_dest_ids (db_store (demo_db ms) 0) = []"
  "cf_allow_duplicate_messages (db_config (demo_db ms)) = False" "db_now (demo_db ms) = 0"
  by (simp_all add: demo_db_def db_zero_def config_zero_def mosquitto_zero_def msg_store_zero_def)

lemma demo_queue_of: "\<forall>x \<in> set ms. msg_ok x \<Longrightarrow> queue_of (db_ctx (demo_db ms) 0) ms"
  by (simp add: queue_of_def demo_db_def)

lemma demo_stores_ok: "stores_ok (demo_db ms)"
  by (simp add: stores_ok_def demo_db_def db_zero_def msg_store_zero_def)

lemma uses_all: "\<forall>x \<in> set ms. cm_store x = s \<Longrightarrow> uses ms t = (if t = s then length ms else 0)"
  by (induction ms) auto

lemma demo_tree_ok:
  assumes "\<forall>x \<in> set ms. msg_ok x \<and> cm_store x = 0"
  shows "tree_ok (demo_db ms)"
proof -
  have u: "uses ms t = (if t = 0 then length ms else 0)" for t using assms uses_all by auto
  have s: "db_subs (demo_db ms) = [Subhier '''' [] None [], Subhier ''$SYS'' [] None []]" by (simp add: demo_db_def)
  have "store_ok (demo_db ms) (\<lambda>s. qrefs (demo_db ms) s + tree_refs (db_subs (demo_db ms)) s)"
    by (intro store_okI)
      (auto simp: s qrefs_def u oref_def demo_db_def db_zero_def msg_store_zero_def lessThan_Suc split: if_splits)
  then show ?thesis using assms demo_queue_of [of ms] by (simp add: tree_ok_def queues_ok_def s)
qed

section \<open>The invariant\<close>

text \<open>C1. Every operation of the database keeps the invariant: each queue has the counters and the \<open>last_msg\<close> of its list of
  messages, each stored message is in memory exactly while something points at it or it has just been
  created and its reference count is the number of queued messages and retained entries that point at it, and
  no operation touches freed memory or fails an assertion. A new message is only inserted with a quality of at most 2, and an incoming
  one only with quality 2.\<close>

theorem database_invariant:
  assumes t: "tree_ok db" and c: "c < db_next_ctx db" and l: "m_live (db_ctx db c)"
    and s: "st_live (db_store db s)" and q: "qos \<le> 2" and d: "dir = mosq_md_in \<Longrightarrow> qos = 2"
  shows "tree_ok (snd (mqtt3_db_message_insert db c mid dir qos retain s)) \<and>
    tree_ok (snd (mqtt3_db_message_delete db c mid dir)) \<and>
    tree_ok (snd (mqtt3_db_message_update db c mid dir st)) \<and>
    tree_ok (snd (mqtt3_db_messages_delete db c)) \<and>
    tree_ok (snd (mqtt3_db_message_reconnect_reset db c)) \<and>
    tree_ok (snd (mqtt3_db_messages_queue db src topic qos retain s))"
proof (intro conjI)
  show "tree_ok (snd (mqtt3_db_messages_queue db src topic qos retain s))"
    by (rule messages_queue_ok(1) [OF t s q prod.collapse [symmetric]])
  show "tree_ok (snd (mqtt3_db_message_insert db c mid dir qos retain s))"
    by (rule tree_ok_step [OF t c]) (simp_all add: insert_owns [OF _ l s q d])
qed (rule tree_ok_step [OF t c], simp_all add: inv_intros)+

theorem database_invariant_witness:
  "tree_ok (snd (mqtt3_db_message_delete (demo_db [demo_msg 0 5 2 mosq_md_in mosq_ms_wait_for_pubrel]) 0 5 mosq_md_in))"
  using database_invariant [of "demo_db [demo_msg 0 5 2 mosq_md_in mosq_ms_wait_for_pubrel]" 0 0 2 mosq_md_in 5 False]
    demo_tree_ok [of "[demo_msg 0 5 2 mosq_md_in mosq_ms_wait_for_pubrel]"]
  by (simp add: demo_msg_def msg_ok_def)

section \<open>Termination\<close>

text \<open>C8. Writing the queue of a client always returns, although it looks again at a queued incoming message it has promoted: no
  message is looked at more than twice. It keeps the invariant. (A message to be published must have its
  topic, which only a refused incoming message lacks.)\<close>

theorem message_write_returns:
  assumes "tree_ok db" "c < db_next_ctx db" "\<forall>x \<in> set (m_msgs (db_ctx db c)). sendable db x"
  shows "\<exists>rc db'. mqtt3_db_message_write db c = Some (rc, db') \<and> tree_ok db' \<and> keep db' = keep db"
proof -
  have "owns_queue db c (\<lambda>s. others db c s + tree_refs (db_subs db) s)"
    using queues_ok_owns assms(1,2) by (simp add: tree_ok_def)
  from message_write_ok [OF this assms(3)]
  obtain rc db' where r: "mqtt3_db_message_write db c = Some (rc, db')" and k: "keep db' = keep db"
    and o: "\<And>d. d \<noteq> c \<Longrightarrow> db_ctx db' d = db_ctx db d"
    by (auto simp: writes_ok_def split: option.splits)
  have "owns_queue db' c R" if "owns_queue db c R" for R
    using message_write_ok [OF that assms(3)] by (simp add: writes_ok_def r)
  then have "tree_ok db'" by (rule tree_ok_step [OF assms(1,2) _ k o])
  then show ?thesis using r k by blast
qed

theorem message_write_returns_witness:
  "\<exists>rc db'. mqtt3_db_message_write (demo_db [demo_msg 0 5 2 mosq_md_in mosq_ms_queued]) 0 = Some (rc, db') \<and> tree_ok db'"
  using message_write_returns [of "demo_db [demo_msg 0 5 2 mosq_md_in mosq_ms_queued]" 0]
    demo_tree_ok [of "[demo_msg 0 5 2 mosq_md_in mosq_ms_queued]"]
  by (fastforce simp: demo_msg_def msg_ok_def sendable_def)



section \<open>The limits of a queue\<close>

lemma insert_cases:
  assumes o: "queue_of (db_ctx db c) (m_msgs (db_ctx db c))" and l: "m_live (db_ctx db c)" "st_live (db_store db s)"
    and q: "qos \<le> 2"
  obtains
    (same) rc f where "mqtt3_db_message_insert db c mid dir qos retain s = (rc, upd_ctx c f db)"
      "m_msgs (f (db_ctx db c)) = m_msgs (db_ctx db c)" "m_msg_count12 (f (db_ctx db c)) = m_msg_count12 (db_ctx db c)"
  | (link) cid st rc where "m_id (db_ctx db c) = Some cid" "insert_plan db (db_ctx db c) dir qos = Insert st rc"
      "mqtt3_db_message_insert db c mid dir qos retain s = (rc, insert_link db c cid
         (\<not> cf_allow_duplicate_messages (db_config db) \<and> dir = mosq_md_out \<and> \<not> retain)
         \<lparr>cm_store = s, cm_timestamp = db_now db, cm_mid = mid, cm_qos = qos,
          cm_retain = retain, cm_direction = dir, cm_state = st, cm_dup = False\<rparr>)"
proof -
  let ?dedup = "\<not> cf_allow_duplicate_messages (db_config db) \<and> dir = mosq_md_out \<and> \<not> retain"
  have t: "touch_ctx c db = db" "(if ?dedup then touch_store s db else db) = db" using l by simp_all
  have id: "upd_ctx c (\<lambda>m. m) db = db" by (simp add: upd_ctx_def)
  show thesis
  proof (cases "m_id (db_ctx db c)")
    case None
    show ?thesis by (rule same [of _ "\<lambda>m. m"])
      (simp_all add: mqtt3_db_message_insert_def t(1) None id)
  next
    case (Some cid)
    show ?thesis
    proof (cases "?dedup \<and> cid \<in> set (st_dest_ids (db_store db s))")
      case True
      show ?thesis by (rule same [of _ "\<lambda>m. m"])
        (use True in \<open>simp_all add: mqtt3_db_message_insert_def t Some id l\<close>)
    next
      case False
      then have e: "mqtt3_db_message_insert db c mid dir qos retain s = (case insert_plan db (db_ctx db c) dir qos of
          Refuse rc \<Rightarrow> (rc, db)
        | Drop \<Rightarrow> (2, upd_ctx c (\<lambda>m. m\<lparr>m_is_dropping := True\<rparr>) db)
        | Insert state rc \<Rightarrow> if state = mosq_ms_invalid then (rc, set_ub db)
            else (rc, insert_link db c cid ?dedup \<lparr>cm_store = s, cm_timestamp = db_now db, cm_mid = mid, cm_qos = qos,
                   cm_retain = retain, cm_direction = dir, cm_state = state, cm_dup = False\<rparr>))"
        unfolding mqtt3_db_message_insert_def t(1) Let_def Some option.case t(2) if_not_P [OF False] by - (rule refl)
      show ?thesis
      proof (cases "insert_plan db (db_ctx db c) dir qos")
        case (Refuse rc)
        show ?thesis by (rule same [of _ "\<lambda>m. m"]) (simp_all add: e Refuse id)
      next
        case Drop
        show ?thesis by (rule same [of _ "\<lambda>m. m\<lparr>m_is_dropping := True\<rparr>"]) (simp_all add: e Drop)
      next
        case (Insert st rc)
        have "st \<noteq> mosq_ms_invalid" by (rule insert_plan_valid [OF Insert q])
        then show ?thesis by (intro link [OF Some Insert]) (simp add: e Insert)
      qed
    qed
  qed
qed

lemma insert_link_queue:
  assumes "queue_of (db_ctx db c) (m_msgs (db_ctx db c))" "m_id (db_ctx db c) \<noteq> None"
  shows "m_msgs (db_ctx (insert_link db c cid dedup x) c) = m_msgs (db_ctx db c) @ [x]"
    "m_msg_count12 (db_ctx (insert_link db c cid dedup x) c) = m_msg_count12 (db_ctx db c) + (if cm_qos x > 0 then 1 else 0)"
proof -
  define d0 where "d0 = (if cm_state x = mosq_ms_queued then db\<lparr>db_persistence_changes := db_persistence_changes db + 1\<rparr> else db)"
  have d0: "db_ctx d0 = db_ctx db" by (simp add: d0_def)
  have a: "append_msg c x (db_msg_store_ref d0 (cm_store x)) = upd_ctx c (\<lambda>m. m\<lparr>m_msgs := m_msgs m @ [x], m_last_msg := LTail\<rparr>) (db_msg_store_ref d0 (cm_store x))"
    by (rule append_msg_owns) (use assms in \<open>simp_all add: d0\<close>)
  show "m_msgs (db_ctx (insert_link db c cid dedup x) c) = m_msgs (db_ctx db c) @ [x]"
    "m_msg_count12 (db_ctx (insert_link db c cid dedup x) c) = m_msg_count12 (db_ctx db c) + (if cm_qos x > 0 then 1 else 0)"
    unfolding insert_link_def Let_def d0_def [symmetric] a by (simp_all add: d0)
qed

text \<open>C5. The queue of a client is bounded: with both limits set, inserting a message leaves at most
  \<open>max_inflight + max_queued\<close> messages of quality 1 and 2 in it.\<close>

theorem message_insert_bounded:
  assumes t: "tree_ok db" and c: "c < db_next_ctx db" and l: "m_live (db_ctx db c)" "st_live (db_store db s)"
    and q: "qos \<le> 2" and lim: "0 < db_max_inflight db" "0 < db_max_queued db"
    and b: "int (count12 (m_msgs (db_ctx db c))) \<le> db_max_inflight db + db_max_queued db"
  shows "int (count12 (m_msgs (db_ctx (snd (mqtt3_db_message_insert db c mid dir qos retain s)) c)))
    \<le> db_max_inflight db + db_max_queued db"
proof -
  note o = tree_ok_queue [OF t c]
  show ?thesis
  proof (rule insert_cases [OF o l q, of mid dir retain])
    fix rc f assume "mqtt3_db_message_insert db c mid dir qos retain s = (rc, upd_ctx c f db)"
      "m_msgs (f (db_ctx db c)) = m_msgs (db_ctx db c)"
    then show ?thesis using b by simp
  next
    fix cid st rc
    assume i: "m_id (db_ctx db c) = Some cid" and p: "insert_plan db (db_ctx db c) dir qos = Insert st rc"
      and e: "mqtt3_db_message_insert db c mid dir qos retain s = (rc, insert_link db c cid
         (\<not> cf_allow_duplicate_messages (db_config db) \<and> dir = mosq_md_out \<and> \<not> retain)
         \<lparr>cm_store = s, cm_timestamp = db_now db, cm_mid = mid, cm_qos = qos,
          cm_retain = retain, cm_direction = dir, cm_state = st, cm_dup = False\<rparr>)"
    have n: "m_msg_count12 (db_ctx db c) = int (count12 (m_msgs (db_ctx db c)))" and i': "m_id (db_ctx db c) \<noteq> None"
      using o i by (simp_all add: queue_of_def)
    have "qos > 0 \<Longrightarrow> int (count12 (m_msgs (db_ctx db c))) < db_max_inflight db + db_max_queued db"
      using p lim unfolding insert_plan_def n by (auto split: if_splits msg_direction.splits)
    then show ?thesis unfolding e snd_conv insert_link_queue(1) [OF o i'] using b by (cases "qos > 0") simp_all
  qed
qed

theorem message_insert_bounded_witness:
  "int (count12 (m_msgs (db_ctx (snd (mqtt3_db_message_insert (demo_db []) 0 1 mosq_md_out 1 False 0)) 0))) \<le> 120"
  using message_insert_bounded [of "demo_db []" 0 0 1 1 mosq_md_out False] demo_tree_ok [of "[]"] by simp



section \<open>Acknowledgements\<close>

text \<open>What of a message an acknowledgement of another one leaves alone.\<close>

definition key :: "client_msg \<Rightarrow> nat \<times> u16 \<times> nat \<times> bool \<times> msg_direction \<times> bool" where
  "key x = (cm_store x, cm_mid x, cm_qos x, cm_retain x, cm_direction x, cm_dup x)"

definition answers :: "u16 \<Rightarrow> msg_direction \<Rightarrow> client_msg \<Rightarrow> bool" where
  "answers mid dir x \<longleftrightarrow> cm_mid x = mid \<and> cm_direction x = dir"

lemma promote_key [simp]: "key (promote db n x) = key x"
  by (simp add: promote_def key_def split: msg_direction.splits)

lemma promote_unqueued:
  "msg_ok x \<Longrightarrow> n \<le> db_max_inflight db \<Longrightarrow> cm_state (promote db n x) \<noteq> mosq_ms_queued"
  by (auto simp: promote_def publish_state_def msg_ok_def split: msg_direction.splits)

lemma promote_answers [simp]: "answers mid dir (promote db n x) = answers mid dir x"
  by (simp add: answers_def)

text \<open>The result of the loop: the messages looked for are gone, the others are in order, and those under the limit
  are no longer queued.\<close>

definition deletes :: "u16 \<Rightarrow> msg_direction \<Rightarrow> int \<Rightarrow> int \<Rightarrow> client_msg list \<Rightarrow> client_msg list \<Rightarrow> bool" where
  "deletes mid dir mi n ms ms' \<longleftrightarrow> map key ms' = map key (filter (\<lambda>x. \<not> answers mid dir x) ms)
     \<and> (\<forall>i < length ms'. n + int i < mi \<longrightarrow> cm_state (ms' ! i) \<noteq> mosq_ms_queued)"

lemma deletes_Cons:
  assumes "deletes mid dir mi (n + 1) ms ms'" "key y = key x" "\<not> answers mid dir x"
    "n < mi \<Longrightarrow> cm_state y \<noteq> mosq_ms_queued"
  shows "deletes mid dir mi n (x # ms) (y # ms')"
proof -
  have "cm_state ((y # ms') ! i) \<noteq> mosq_ms_queued" if "i < length (y # ms')" "n + int i < mi" for i
    using that assms by (cases i) (auto simp: deletes_def)
  then show ?thesis using assms by (simp add: deletes_def)
qed

lemma delete_loop_deletes:
  "\<lbrakk>\<forall>x \<in> set ms. msg_ok x; length (filter (answers mid dir) ms) \<le> (if del then 0 else 1)\<rbrakk> \<Longrightarrow>
   \<exists>ms'. m_msgs (db_ctx (delete_loop db c mid dir n del pre ms) c) = pre @ ms'
     \<and> deletes mid dir (db_max_inflight db) n ms ms'"
proof (induction db c mid dir n del pre ms rule: delete_loop.induct)
  case (1 db c mid dir n del pre)
  then show ?case by (simp add: deletes_def)
next
  case (2 db c mid dir n del pre x rest)
  let ?x = "promote db (n + 1) x" and ?mi = "db_max_inflight db"
  have ans: "answers mid dir x \<longleftrightarrow> cm_mid ?x = mid \<and> cm_direction ?x = dir" by (simp add: answers_def)
  have rest_id: "deletes mid dir ?mi m rest rest" if "filter (answers mid dir) rest = []" "m \<ge> ?mi" for m
    using that by (auto simp: deletes_def filter_empty_conv filter_id_conv intro!: arg_cong [where f = "map key"])
  show ?case
  proof (cases "answers mid dir x")
    case True
    let ?db = "message_remove db c pre ?x rest"
    have mi: "db_max_inflight ?db = ?mi" by (rule keep_sel(7)) simp
    have none: "filter (answers mid dir) rest = []" using "2.prems"(2) True by (auto split: if_splits)
    have d: "deletes mid dir ?mi n (x # rest) ms' \<longleftrightarrow> deletes mid dir ?mi n rest ms'" for ms'
      using True by (simp add: deletes_def)
    show ?thesis
    proof (cases "n > ?mi")
      case stop: True
      then have "delete_loop db c mid dir n del pre (x # rest) = set_msgs c (pre @ rest) ?db"
        using True ans by (simp add: Let_def mi)
      then show ?thesis using rest_id [OF none, of n] stop d by auto
    next
      case False
      then have e: "delete_loop db c mid dir n del pre (x # rest) = delete_loop ?db c mid dir n True pre rest"
        using True ans by (simp add: Let_def mi)
      have "\<exists>ms'. m_msgs (db_ctx (delete_loop ?db c mid dir n True pre rest) c) = pre @ ms'
          \<and> deletes mid dir (db_max_inflight ?db) n rest ms'"
        using "2.IH"(1) [OF refl refl ans [THEN iffD1, OF True] refl refl] False "2.prems"(1) none by (simp add: mi)
      then show ?thesis unfolding e mi d .
    qed
  next
    case no: False
    have st: "n < ?mi \<Longrightarrow> cm_state ?x \<noteq> mosq_ms_queued" using "2.prems"(1) promote_unqueued [of x "n + 1" db] by simp
    show ?thesis
    proof (cases "n + 1 > ?mi \<and> del")
      case True
      then have "delete_loop db c mid dir n del pre (x # rest) = set_msgs c (pre @ ?x # rest) db"
        using no ans by (auto simp: Let_def)
      moreover have "deletes mid dir ?mi n (x # rest) (?x # rest)"
        using True "2.prems"(2) no st by (intro deletes_Cons rest_id) auto
      ultimately show ?thesis by auto
    next
      case False
      then have e: "delete_loop db c mid dir n del pre (x # rest) = delete_loop db c mid dir (n + 1) del (pre @ [?x]) rest"
        using no ans by (auto simp: Let_def)
      have "\<exists>ms'. m_msgs (db_ctx (delete_loop db c mid dir (n + 1) del (pre @ [?x]) rest) c) = (pre @ [?x]) @ ms'
          \<and> deletes mid dir ?mi (n + 1) rest ms'"
        using "2.IH"(2) [OF refl refl] False no ans "2.prems" by auto
      then obtain ms' where m: "m_msgs (db_ctx (delete_loop db c mid dir (n + 1) del (pre @ [?x]) rest) c) = pre @ ?x # ms'"
        "deletes mid dir ?mi (n + 1) rest ms'" by auto
      have "deletes mid dir ?mi n (x # rest) (?x # ms')" using m(2) no st by (intro deletes_Cons) simp_all
      then show ?thesis unfolding e using m(1) by blast
    qed
  qed
qed



section \<open>Reconnection\<close>

lemma unqueue_nth:
  "i < length ms \<Longrightarrow> n + int i < mi \<or> mi = 0 \<Longrightarrow>
   unqueue_loop mi n ms ! i = (if cm_state (ms ! i) = mosq_ms_queued
     then (ms ! i)\<lparr>cm_state := publish_state (cm_qos (ms ! i)) (cm_state (ms ! i))\<rparr> else ms ! i)"
proof (induction mi n ms arbitrary: i rule: unqueue_loop.induct)
  case (2 mi n x rest)
  then show ?case by (cases i) auto
qed simp



end
