(* ===== verification/Mqtt_Subs_Laws.thy ===== *)
theory Mqtt_Subs_Laws
  imports Mqtt_Db_Laws
begin

text \<open>
  The properties of the subscription tree (\<^verbatim>\<open>src/subs.c\<close>). Abstractly the tree is a map from
  paths to subscriptions, \<open>leaves_at\<close>, and to a retained message, \<open>retained_at\<close>: adding and
  removing change it at one path, and the nodes that are created or freed on the way make no
  difference. A publication is processed at the nodes whose path matches the topic, each once.
\<close>

section \<open>Nodes and paths\<close>

text \<open>The root of the tree, the node at a path below a node, and what it holds.\<close>

definition root_of :: "mosq_db \<Rightarrow> subhier" where
  "root_of db = Subhier [] [] None (db_subs db)"

fun node_at :: "cstring list \<Rightarrow> subhier \<Rightarrow> subhier option" where
  "node_at [] h = Some h"
| "node_at (t # ts) h = (case find_branch t (h_children h) of None \<Rightarrow> None | Some (l, b, r) \<Rightarrow> node_at ts b)"

definition leaves_at :: "cstring list \<Rightarrow> subhier \<Rightarrow> (nat \<times> nat) list" where
  "leaves_at q h = (case node_at q h of None \<Rightarrow> [] | Some b \<Rightarrow> h_subs b)"

definition retained_at :: "cstring list \<Rightarrow> subhier \<Rightarrow> nat option" where
  "retained_at q h = (case node_at q h of None \<Rightarrow> None | Some b \<Rightarrow> h_retained b)"

definition path_of :: "cstring \<Rightarrow> cstring list" where
  "path_of s = hd (sub_topic_tokenise s) # sub_topic_tokenise s"

lemma at_Nil [simp]: "leaves_at [] h = h_subs h" "retained_at [] h = h_retained h"
  by (simp_all add: leaves_at_def retained_at_def)

lemma at_Cons:
  "leaves_at (t # q) h = (case find_branch t (h_children h) of None \<Rightarrow> [] | Some (l, b, r) \<Rightarrow> leaves_at q b)"
  "retained_at (t # q) h = (case find_branch t (h_children h) of None \<Rightarrow> None | Some (l, b, r) \<Rightarrow> retained_at q b)"
  by (simp_all add: leaves_at_def retained_at_def split: option.split prod.split)

text \<open>Sibling topics are distinct and a node for \<open>#\<close> has no children.\<close>

fun wf_node :: "subhier \<Rightarrow> bool" where
  "wf_node (Subhier topic leaves retained children) \<longleftrightarrow>
     distinct (map h_topic children) \<and> (topic = ''#'' \<longrightarrow> children = []) \<and> (\<forall>h \<in> set children. wf_node h)"

lemma wf_node_iff:
  "wf_node h \<longleftrightarrow> distinct (map h_topic (h_children h)) \<and> (h_topic h = ''#'' \<longrightarrow> h_children h = []) \<and> (\<forall>g \<in> set (h_children h). wf_node g)"
  by (cases h) simp

lemma set_children_id [simp]: "set_children (h_children h) h = h"
  by (cases h) (simp add: set_children_def)

text \<open>Looking up a topic among siblings when one of them is replaced, removed or added.\<close>


lemma find_branch_hit: "h_topic b = t \<Longrightarrow> t \<notin> h_topic ` set l \<Longrightarrow> find_branch t (l @ b # r) = Some (l, b, r)"
  by (induction l) auto

text \<open>The node a look-up finds; the context does not matter to look-ups below it.\<close>

definition child :: "cstring \<Rightarrow> subhier list \<Rightarrow> subhier option" where
  "child t hs = map_option (\<lambda>(l, b, r). b) (find_branch t hs)"

lemma child_simps [simp]:
  "child t [] = None" "child t (h # hs) = (if h_topic h = t then Some h else child t hs)"
  by (simp_all add: child_def option.map_comp comp_def split: option.split)

lemma child_append: "child t (hs @ gs) = (case child t hs of None \<Rightarrow> child t gs | Some b \<Rightarrow> Some b)"
  by (induction hs) auto

lemma child_None: "child t hs = None \<longleftrightarrow> t \<notin> h_topic ` set hs"
  by (induction hs) auto

lemma child_Some: "child t hs = Some b \<Longrightarrow> b \<in> set hs \<and> h_topic b = t"
  by (induction hs) (auto split: if_splits)

lemma find_branch_child: "find_branch t hs = Some (l, b, r) \<Longrightarrow> child t hs = Some b"
  by (simp add: child_def)

lemma node_at_child: "node_at (t # ts) h = Option.bind (child t (h_children h)) (node_at ts)"
  by (simp add: child_def split: option.split)

lemma at_child:
  "leaves_at (t # q) h = (case child t (h_children h) of None \<Rightarrow> [] | Some b \<Rightarrow> leaves_at q b)"
  "retained_at (t # q) h = (case child t (h_children h) of None \<Rightarrow> None | Some b \<Rightarrow> retained_at q b)"
  by (simp_all add: at_Cons child_def split: option.split prod.split)

lemma child_replace:
  assumes "find_branch tok hs = Some (l, b, r)" "h_topic b' = tok"
  shows "child t (l @ b' # r) = (if t = tok then Some b' else child t hs)"
proof -
  have hs: "hs = l @ b # r" "h_topic b = tok" "child tok l = None"
    using find_branch_Some [OF assms(1)] by (simp_all add: child_None)
  show ?thesis unfolding hs(1) using hs(2,3) assms(2) by (cases "t = tok") (auto simp: child_append split: option.split)
qed

lemma child_remove:
  assumes "find_branch tok hs = Some (l, b, r)" "distinct (map h_topic hs)"
  shows "child t (l @ r) = (if t = tok then None else child t hs)"
proof -
  have hs: "hs = l @ b # r" "h_topic b = tok" using find_branch_Some [OF assms(1)] by simp_all
  then have "child tok l = None" "child tok r = None" using assms(2) unfolding child_None by auto
  then show ?thesis unfolding hs(1) using hs(2) by (cases "t = tok") (auto simp: child_append split: option.split)
qed

lemma child_add:
  assumes "find_branch tok hs = None" "h_topic b = tok"
  shows "child t (hs @ [b]) = (if t = tok then Some b else child t hs)"
    "child t (b # hs) = (if t = tok then Some b else child t hs)"
proof -
  have "child tok hs = None" using assms(1) by (simp add: child_def)
  then show "child t (hs @ [b]) = (if t = tok then Some b else child t hs)" "child t (b # hs) = (if t = tok then Some b else child t hs)"
    using assms(2) by (auto simp: child_append split: option.split)
qed

section \<open>Subscribing\<close>

text \<open>The leaves of a node after a subscription of the client \<open>c\<close>: a leaf of the same client gets the new quality, else a
  leaf is added.\<close>

fun put_leaf :: "(nat \<Rightarrow> cstring option) \<Rightarrow> nat \<Rightarrow> nat \<Rightarrow> (nat \<times> nat) list \<Rightarrow> (nat \<times> nat) list" where
  "put_leaf ids c qos [] = [(c, qos)]"
| "put_leaf ids c qos ((d, q) # ls) = (if ids d = ids c then (d, qos) # ls else (d, q) # put_leaf ids c qos ls)"

definition ids_of :: "mosq_db \<Rightarrow> nat \<Rightarrow> cstring option" where
  "ids_of db c = m_id (db_ctx db c)"

lemma resubscribe_put:
  assumes "\<forall>l \<in> set ls. m_live (db_ctx db (fst l))" "ids_of db c = Some cid"
  shows "snd (resubscribe db cid qos ls) = db"
    "put_leaf (ids_of db) c qos ls = (case fst (resubscribe db cid qos ls) of None \<Rightarrow> ls @ [(c, qos)] | Some ls' \<Rightarrow> ls')"
    "fst (resubscribe db cid qos ls) = None \<longleftrightarrow> cid \<notin> (\<lambda>l. the (ids_of db (fst l))) ` set (filter (\<lambda>l. ids_of db (fst l) \<noteq> None) ls)"
  using assms
  by (induction ls) (auto simp: ids_of_def Let_def split: option.splits prod.splits)

text \<open>What \<open>_sub_add\<close> does below a node: it changes the leaves at the end of the path and nothing else.\<close>

definition live_leaves :: "mosq_db \<Rightarrow> subhier \<Rightarrow> bool" where
  "live_leaves db h \<longleftrightarrow> (\<forall>q. \<forall>l \<in> set (leaves_at q h). m_live (db_ctx db (fst l)))"

lemma empty_at [simp]:
  "leaves_at q (Subhier t [] None []) = []" "retained_at q (Subhier t [] None []) = None"
  by (cases q; simp add: at_child)+

lemma sub_add_leaf_spec:
  assumes "\<forall>l \<in> set (h_subs h). m_live (db_ctx db (fst l))" "m_live (db_ctx db c)" "ids_of db c = Some cid"
    "sub_add_leaf db c qos path h = (rc, h', db')"
  shows "h' = set_subs (put_leaf (ids_of db) c qos (h_subs h)) h \<and> (rc = 0 \<or> rc = -1) \<and>
    db' = (if put_leaf (ids_of db) c qos (h_subs h) = h_subs h @ [(c, qos)] \<and> fst (resubscribe db cid qos (h_subs h)) = None
           then upd_ctx c (\<lambda>m. m\<lparr>m_subs := add_slot path (m_subs m)\<rparr>) db else db)"
proof -
  have i: "m_id (db_ctx db c) = Some cid" using assms(3) by (simp add: ids_of_def)
  note r = resubscribe_put [OF assms(1,3), of qos]
  show ?thesis
  proof (cases "fst (resubscribe db cid qos (h_subs h))")
    case None
    then have "resubscribe db cid qos (h_subs h) = (None, db)" using r(1) by (metis prod.collapse)
    then show ?thesis using assms(2,4) r(2) by (simp add: sub_add_leaf_def i Let_def mosq_err_defs)
  next
    case (Some ls)
    then have "resubscribe db cid qos (h_subs h) = (Some ls, db)" using r(1) by (metis prod.collapse)
    then show ?thesis using assms(2,4) r(2) by (auto simp: sub_add_leaf_def i Let_def)
  qed
qed

lemma sub_add_node_spec:
  "\<lbrakk>sub_add_node db (Some c) qos path h toks = (rc, h', db'); live_leaves db h; m_live (db_ctx db c); ids_of db c = Some cid\<rbrakk> \<Longrightarrow>
   h_topic h' = h_topic h
   \<and> leaves_at q h' = (if q = toks then put_leaf (ids_of db) c qos (leaves_at toks h) else leaves_at q h)
   \<and> retained_at q h' = retained_at q h \<and> (rc = 0 \<or> rc = -1)
   \<and> (db' = (if fst (resubscribe db cid qos (leaves_at toks h)) = None
       then upd_ctx c (\<lambda>m. m\<lparr>m_subs := add_slot (path @ toks) (m_subs m)\<rparr>) db else db))"
proof (induction toks arbitrary: path h rc h' db' q)
  case Nil
  have l: "\<forall>l \<in> set (h_subs h). m_live (db_ctx db (fst l))" using Nil.prems(2) at_Nil(1) unfolding live_leaves_def by metis
  have s: "sub_add_leaf db c qos path h = (rc, h', db')" using Nil.prems(1) by simp
  note sp = sub_add_leaf_spec [OF l Nil.prems(3,4) s]
  have "leaves_at q (set_subs ls h) = (if q = [] then ls else leaves_at q h)" "retained_at q (set_subs ls h) = retained_at q h" for ls
    by (cases q; simp add: at_child)+
  then show ?case using sp resubscribe_put(2) [OF l Nil.prems(4), of qos] by auto
next
  case (Cons tok toks)
  show ?case
  proof (cases "find_branch tok (h_children h)")
    case None
    obtain rc1 b db1 where r: "sub_add_node db (Some c) qos (path @ [tok]) (Subhier tok [] None []) toks = (rc1, b, db1)"
      by (metis prod_cases3)
    have e: "h' = set_children (h_children h @ [b]) h" "rc = rc1" "db' = db1" using Cons.prems(1) by (simp_all add: None r)
    have "live_leaves db (Subhier tok [] None [])" by (simp add: live_leaves_def)
    note ih = Cons.IH [OF r this Cons.prems(3,4)]
    have tp: "h_topic b = tok" using ih [of "[]"] by simp
    note ch = child_add(1) [OF None tp]
    have n: "child tok (h_children h) = None" using None by (simp add: child_def)
    show ?thesis
    proof (cases q)
      case Nil
      then show ?thesis using ih [of "[]"] by (simp add: e at_child n)
    next
      case (Cons t p)
      then show ?thesis using ih [of p] by (auto simp: e at_child ch n)
    qed
  next
    case (Some lbr)
    obtain l b0 r0 where lbr: "lbr = (l, b0, r0)" by (cases lbr)
    note fb = Some [unfolded lbr]
    have c0: "child tok (h_children h) = Some b0" by (rule find_branch_child [OF fb])
    obtain rc1 b db1 where r: "sub_add_node db (Some c) qos (path @ [tok]) b0 toks = (rc1, b, db1)"
      by (metis prod_cases3)
    have e: "h' = set_children (l @ b # r0) h" "rc = rc1" "db' = db1" using Cons.prems(1) by (simp_all add: fb r)
    have "leaves_at (tok # p) h = leaves_at p b0" for p by (simp add: at_child c0)
    then have "live_leaves db b0" using Cons.prems(2) unfolding live_leaves_def by metis
    note ih = Cons.IH [OF r this Cons.prems(3,4)]
    have "h_topic b = tok" using ih [of "[]"] find_branch_Some [OF fb] by simp
    note ch = child_replace [OF fb this]
    show ?thesis
    proof (cases q)
      case Nil
      then show ?thesis using ih [of "[]"] by (simp add: e at_child c0)
    next
      case (Cons t p)
      then show ?thesis using ih [of p] by (auto simp: e at_child ch c0)
    qed
  qed
qed

lemma path_of_Cons: "path_of s = hd (sub_topic_tokenise s) # sub_topic_tokenise s" "sub_topic_tokenise s \<noteq> []"
  by (simp_all add: path_of_def tokenise_levels)

text \<open>Root level: the node of the first token is found or put in front.\<close>

lemma sub_add_spec:
  assumes l: "live_leaves db (root_of db)" "m_live (db_ctx db c)" and i: "ids_of db c = Some cid"
    and r: "mqtt3_sub_add db c sub qos = (rc, db')"
  shows "leaves_at q (root_of db') = (if q = path_of sub then put_leaf (ids_of db) c qos (leaves_at q (root_of db)) else leaves_at q (root_of db))
    \<and> retained_at q (root_of db') = retained_at q (root_of db) \<and> rc = 0
    \<and> db' = (if fst (resubscribe db cid qos (leaves_at (path_of sub) (root_of db))) = None
       then upd_ctx c (\<lambda>m. m\<lparr>m_subs := add_slot (path_of sub) (m_subs m)\<rparr>) db else db)\<lparr>db_subs := db_subs db'\<rparr>"
proof -
  let ?toks = "sub_topic_tokenise sub"
  let ?top = "hd ?toks"
  show ?thesis
  proof (cases "find_branch ?top (db_subs db)")
    case None
    obtain rc1 b db1 where n: "sub_add_node db (Some c) qos [?top] (Subhier ?top [] None []) ?toks = (rc1, b, db1)"
      by (metis prod_cases3)
    have "live_leaves db (Subhier ?top [] None [])" by (simp add: live_leaves_def)
    note sp = sub_add_node_spec [OF n this l(2) i]
    have s1: "db_subs db1 = db_subs db" using sp [of "[]"] by (auto split: if_splits)
    have e: "db' = db1\<lparr>db_subs := b # db_subs db\<rparr>" "rc = (if rc1 = -1 then 0 else rc1)"
      using r by (auto simp: mqtt3_sub_add_def Let_def None n mosq_err_defs s1)
    have tp: "h_topic b = ?top" using sp [of "[]"] by simp
    note ch = child_add(2) [OF None tp]
    have c0: "child ?top (db_subs db) = None" using None by (simp add: child_def)
    show ?thesis
    proof (cases q)
      case Nil
      then show ?thesis using sp [of "[]"] by (auto simp: e root_of_def path_of_def at_child c0)
    next
      case (Cons t p)
      then show ?thesis using sp [of p] by (auto simp: e root_of_def path_of_def at_child ch c0)
    qed
  next
    case (Some lbr)
    obtain l0 b0 r0 where lbr: "lbr = (l0, b0, r0)" by (cases lbr)
    note fb = Some [unfolded lbr]
    have c0: "child ?top (db_subs db) = Some b0" by (rule find_branch_child [OF fb])
    obtain rc1 b db1 where n: "sub_add_node db (Some c) qos [?top] b0 ?toks = (rc1, b, db1)"
      by (metis prod_cases3)
    have e: "db' = db1\<lparr>db_subs := l0 @ b # r0\<rparr>" "rc = (if rc1 = -1 then 0 else rc1)"
      using r by (auto simp: mqtt3_sub_add_def Let_def fb n mosq_err_defs)
    have "leaves_at (?top # p) (root_of db) = leaves_at p b0" for p by (simp add: at_child c0 root_of_def)
    then have "live_leaves db b0" using l(1) unfolding live_leaves_def by metis
    note sp = sub_add_node_spec [OF n this l(2) i]
    have tp: "h_topic b = ?top" using sp [of "[]"] find_branch_Some [OF fb] by simp
    note ch = child_replace [OF fb tp]
    show ?thesis
    proof (cases q)
      case Nil
      then show ?thesis using sp [of "[]"] by (auto simp: e root_of_def path_of_def at_child c0)
    next
      case (Cons t p)
      then show ?thesis using sp [of p] by (auto simp: e root_of_def path_of_def at_child ch c0)
    qed
  qed
qed

section \<open>Unsubscribing\<close>

definition drop_leaves :: "nat \<Rightarrow> (nat \<times> nat) list \<Rightarrow> (nat \<times> nat) list" where
  "drop_leaves c ls = (case drop_leaf c ls of None \<Rightarrow> ls | Some ls' \<Rightarrow> ls')"

lemma unused_at: "is_unused h \<Longrightarrow> leaves_at q h = [] \<and> retained_at q h = None"
  by (cases q) (simp_all add: is_unused_def at_child)

lemma sub_remove_node_spec:
  "\<lbrakk>sub_remove_node db c path h toks = (h', db'); wf_node h\<rbrakk> \<Longrightarrow>
   h_topic h' = h_topic h \<and> wf_node h' \<and> set (map h_topic (h_children h')) \<subseteq> set (map h_topic (h_children h))
   \<and> leaves_at q h' = (if q = toks then drop_leaves c (leaves_at q h) else leaves_at q h)
   \<and> retained_at q h' = retained_at q h
   \<and> db' = (if drop_leaf c (leaves_at toks h) = None then db else upd_ctx c (\<lambda>m. m\<lparr>m_subs := clear_slot (path @ toks) (m_subs m)\<rparr>) db)"
proof (induction toks arbitrary: db path h h' db' q)
  case Nil
  have "leaves_at q (set_subs ls h) = (if q = [] then ls else leaves_at q h)" "retained_at q (set_subs ls h) = retained_at q h"
    "wf_node (set_subs ls h)" for ls
    using Nil.prems(2) wf_node_iff [of "set_subs ls h"] wf_node_iff [of h] by (cases q; simp add: at_child)+
  then show ?case using Nil by (auto simp: drop_leaves_def split: option.splits)
next
  case (Cons tok toks)
  show ?case
  proof (cases "find_branch tok (h_children h)")
    case None
    have c0: "child tok (h_children h) = None" using None by (simp add: child_def)
    then have "leaves_at (tok # toks) h = []" by (simp add: at_child)
    then show ?thesis using Cons.prems None by (auto simp: drop_leaves_def)
  next
    case (Some lbr)
    obtain l0 b0 r0 where lbr: "lbr = (l0, b0, r0)" by (cases lbr)
    note fb = Some [unfolded lbr]
    have c0: "child tok (h_children h) = Some b0" by (rule find_branch_child [OF fb])
    have hc: "h_children h = l0 @ b0 # r0" "h_topic b0 = tok" using find_branch_Some [OF fb] by simp_all
    have wf: "distinct (map h_topic (h_children h))" "h_topic h = ''#'' \<longrightarrow> h_children h = []" "\<forall>g \<in> set (h_children h). wf_node g"
      using Cons.prems(2) wf_node_iff [of h] by simp_all
    obtain b db1 where r: "sub_remove_node db c (path @ [tok]) b0 toks = (b, db1)" by fastforce
    have "wf_node b0" using wf(3) hc by simp
    note ih = Cons.IH [OF r this]
    define ch where "ch = (if is_unused b then l0 @ r0 else l0 @ b # r0)"
    have e: "h' = set_children ch h" "db' = db1" using Cons.prems(1) by (simp_all add: fb r ch_def)
    have tp: "h_topic b = tok" using ih [of "[]"] hc by simp
    have chd: "child t ch = (if t = tok then if is_unused b then None else Some b else child t (h_children h))" for t
      using child_remove [OF fb wf(1)] child_replace [OF fb tp] by (simp add: ch_def)
    have sub: "set (map h_topic ch) \<subseteq> set (map h_topic (h_children h))" using hc tp by (auto simp: ch_def)
    have "wf_node (set_children ch h)"
      unfolding wf_node_iff [of "set_children ch h"] set_children_sel
      using wf hc ih [of "[]"] tp by (auto simp: ch_def)
    then have "wf_node h'" by (simp add: e)
    moreover have "leaves_at q h' = (if q = tok # toks then drop_leaves c (leaves_at q h) else leaves_at q h) \<and> retained_at q h' = retained_at q h"
    proof (cases q)
      case Nil
      then show ?thesis by (simp add: e)
    next
      case (Cons t p)
      then show ?thesis using ih [of p] unused_at [of b p] by (cases "is_unused b") (auto simp: e at_child chd c0)
    qed
    moreover have "leaves_at (tok # toks) h = leaves_at toks b0" by (simp add: at_child c0)
    ultimately show ?thesis using ih [of "[]"] sub by (simp add: e)
  qed
qed

declare node_at.simps(2) [simp del]

lemma root_of_sel [simp]: "h_children (root_of db) = db_subs db" "h_topic (root_of db) = []"
  by (simp_all add: root_of_def)

lemma root_of_upd [simp]:
  "root_of (upd_ctx c f db) = root_of db" "root_of (db\<lparr>db_subs := hs\<rparr>) = set_children hs (root_of db)"
  by (simp_all add: root_of_def set_children_def)

lemma sub_remove_spec:
  assumes w: "wf_node (root_of db)" and r: "mqtt3_sub_remove db c sub = (rc, db')"
  shows "wf_node (root_of db')
    \<and> leaves_at q (root_of db') = (if q = path_of sub then drop_leaves c (leaves_at q (root_of db)) else leaves_at q (root_of db))
    \<and> retained_at q (root_of db') = retained_at q (root_of db) \<and> rc = 0
    \<and> db' = (if drop_leaf c (leaves_at (path_of sub) (root_of db)) = None then db
             else upd_ctx c (\<lambda>m. m\<lparr>m_subs := clear_slot (path_of sub) (m_subs m)\<rparr>) db)\<lparr>db_subs := db_subs db'\<rparr>"
proof -
  let ?toks = "sub_topic_tokenise sub"
  let ?top = "hd ?toks"
  show ?thesis
  proof (cases "find_branch ?top (db_subs db)")
    case None
    then have "child ?top (db_subs db) = None" by (simp add: child_def)
    then have "leaves_at (path_of sub) (root_of db) = []" by (simp add: path_of_def at_child)
    then show ?thesis using r None w by (auto simp: mqtt3_sub_remove_def Let_def mosq_err_defs drop_leaves_def)
  next
    case (Some lbr)
    obtain l0 b0 r0 where lbr: "lbr = (l0, b0, r0)" by (cases lbr)
    note fb = Some [unfolded lbr]
    have c0: "child ?top (db_subs db) = Some b0" by (rule find_branch_child [OF fb])
    have hc: "db_subs db = l0 @ b0 # r0" "h_topic b0 = ?top" using find_branch_Some [OF fb] by simp_all
    have wf: "distinct (map h_topic (db_subs db))" "\<forall>g \<in> set (db_subs db). wf_node g"
      using w wf_node_iff [of "root_of db"] by simp_all
    obtain b db1 where n: "sub_remove_node db c [?top] b0 ?toks = (b, db1)" by fastforce
    have e: "db' = db1\<lparr>db_subs := l0 @ b # r0\<rparr>" "rc = 0"
      using r by (auto simp: mqtt3_sub_remove_def Let_def fb n mosq_err_defs)
    have "wf_node b0" using wf(2) hc(1) by simp
    note sp = sub_remove_node_spec [OF n this]
    have tp: "h_topic b = ?top" using sp [of "[]"] hc(2) by simp
    note ch = child_replace [OF fb tp]
    have la: "leaves_at (path_of sub) (root_of db) = leaves_at ?toks b0" by (simp add: path_of_def at_child c0)
    have "wf_node (root_of db')"
      unfolding wf_node_iff [of "root_of db'"] using wf hc sp [of "[]"] tp by (auto simp: e)
    moreover have "leaves_at q (root_of db') = (if q = path_of sub then drop_leaves c (leaves_at q (root_of db)) else leaves_at q (root_of db))
        \<and> retained_at q (root_of db') = retained_at q (root_of db)"
    proof (cases q)
      case Nil
      then show ?thesis by (simp add: root_of_def path_of_def)
    next
      case (Cons t p)
      then show ?thesis using sp [of p] by (auto simp: e path_of_def at_child ch c0 drop_leaves_def)
    qed
    moreover have "db' = (if drop_leaf c (leaves_at ?toks b0) = None then db
             else upd_ctx c (\<lambda>m. m\<lparr>m_subs := clear_slot (path_of sub) (m_subs m)\<rparr>) db)\<lparr>db_subs := db_subs db'\<rparr>"
      using sp [of "[]"] by (simp add: e path_of_def)
    ultimately show ?thesis by (simp add: la e(2))
  qed
qed

text \<open>\<open>leaves_at\<close> and well-formedness under a replaced child.\<close>

lemma at_replace:
  assumes "find_branch tok (h_children h) = Some (l, b, r)" "h_topic b' = tok"
  shows "leaves_at (t # q) (set_children (l @ b' # r) h) = (if t = tok then leaves_at q b' else leaves_at (t # q) h)"
    "retained_at (t # q) (set_children (l @ b' # r) h) = (if t = tok then retained_at q b' else retained_at (t # q) h)"
    "leaves_at (tok # q) h = leaves_at q b" "retained_at (tok # q) h = retained_at q b"
    "node_at (t # q) (set_children (l @ b' # r) h) = (if t = tok then node_at q b' else node_at (t # q) h)"
    "node_at (tok # q) h = node_at q b"
  using child_replace [OF assms, of t] find_branch_child [OF assms(1)] by (simp_all add: at_child node_at_child)

lemma node_at_replace:
  assumes fb: "find_branch tok (h_children h) = Some (l, b, r)" and tp: "h_topic b' = tok"
    and n: "\<And>p. node_at p b \<noteq> None \<Longrightarrow> node_at p b' \<noteq> None" and q: "node_at q h \<noteq> None"
  shows "node_at q (set_children (l @ b' # r) h) \<noteq> None"
proof (cases q)
  case (Cons t p)
  show ?thesis
  proof (cases "t = tok")
    case True
    then have "node_at p b \<noteq> None" using q at_replace(6) [OF fb tp, of p] Cons by simp
    then show ?thesis unfolding Cons at_replace(5) [OF fb tp] using n True by simp
  next
    case False
    then show ?thesis unfolding Cons at_replace(5) [OF fb tp] using q Cons by simp
  qed
qed simp

lemma wf_replace:
  assumes "find_branch tok (h_children h) = Some (l, b, r)" "h_topic b' = tok" "wf_node h" "wf_node b'"
  shows "wf_node (set_children (l @ b' # r) h)"
proof -
  have "h_children h = l @ b # r" "h_topic b = tok" using find_branch_Some [OF assms(1)] by simp_all
  then show ?thesis
    unfolding wf_node_iff [of "set_children (l @ b' # r) h"] set_children_sel
    using assms(2,4) assms(3) [unfolded wf_node_iff [of h]] by auto
qed

section \<open>The subscriptions of a client\<close>

lemma clean_at_spec:
  "\<lbrakk>node_at p h = Some n; p \<noteq> []; wf_node h\<rbrakk> \<Longrightarrow> \<exists>hs. clean_at c p (h_children h) = Some hs
     \<and> wf_node (set_children hs h)
     \<and> leaves_at q (set_children hs h) = (if q = p then drop_leaves c (leaves_at q h) else leaves_at q h)
     \<and> retained_at q (set_children hs h) = retained_at q h
     \<and> (node_at q h \<noteq> None \<longrightarrow> node_at q (set_children hs h) \<noteq> None)"
proof (induction p arbitrary: h q)
  case (Cons tok toks)
  obtain l b r where fb: "find_branch tok (h_children h) = Some (l, b, r)" and n: "node_at toks b = Some n"
    using Cons.prems(1) by (auto simp: node_at.simps split: option.splits)
  have hb: "h_topic b = tok" "wf_node b" using find_branch_Some [OF fb] Cons.prems(3) wf_node_iff [of h] by auto
  show ?case
  proof (cases "toks = []")
    case True
    let ?b = "case drop_leaf c (h_subs b) of None \<Rightarrow> b | Some ls \<Rightarrow> set_subs ls b"
    have b: "h_topic ?b = tok" "wf_node ?b" "leaves_at p ?b = (if p = [] then drop_leaves c (h_subs b) else leaves_at p b)"
      "retained_at p ?b = retained_at p b" "node_at p b \<noteq> None \<longrightarrow> node_at p ?b \<noteq> None" for p
      using hb wf_node_iff [of b] wf_node_iff [of "set_subs ls b" for ls]
      by (cases p; auto simp: drop_leaves_def at_child node_at_child split: option.split)+
    have nn: "node_at q h \<noteq> None \<longrightarrow> node_at q (set_children (l @ ?b # r) h) \<noteq> None"
      using node_at_replace [OF fb b(1)] b(5) by blast
    show ?thesis
      using fb True b wf_replace [OF fb b(1) Cons.prems(3) b(2)] at_replace [OF fb b(1)] nn
      by (cases q) auto
  next
    case False
    from Cons.IH [OF n False hb(2)] obtain ch where ch: "clean_at c toks (h_children b) = Some ch" "wf_node (set_children ch b)"
      by blast
    have ih: "leaves_at p (set_children ch b) = (if p = toks then drop_leaves c (leaves_at p b) else leaves_at p b)
        \<and> retained_at p (set_children ch b) = retained_at p b \<and> (node_at p b \<noteq> None \<longrightarrow> node_at p (set_children ch b) \<noteq> None)" for p
      using Cons.IH [OF n False hb(2), of p] ch(1) by auto
    have tp: "h_topic (set_children ch b) = tok" using hb by simp
    have nn: "node_at q h \<noteq> None \<longrightarrow> node_at q (set_children (l @ set_children ch b # r) h) \<noteq> None"
      using node_at_replace [OF fb tp] ih by blast
    show ?thesis
      using fb False ch ih wf_replace [OF fb tp Cons.prems(3) ch(2)] at_replace [OF fb tp] nn
      by (cases q) auto
  qed
qed simp

text \<open>The array \<open>subs\<close> of a client names exactly the nodes with a leaf of it, each once, and a node has at most one leaf
  of a client.\<close>

definition slots_ok :: "mosq_db \<Rightarrow> nat \<Rightarrow> bool" where
  "slots_ok db c \<longleftrightarrow> distinct (filter (\<lambda>s. s \<noteq> None) (m_subs (db_ctx db c)))
     \<and> (\<forall>q. c \<in> fst ` set (leaves_at q (root_of db)) \<longleftrightarrow> Some q \<in> set (m_subs (db_ctx db c)))
     \<and> (\<forall>q. distinct (map fst (leaves_at q (root_of db))))"

lemma drop_leaves_filter: "distinct (map fst ls) \<Longrightarrow> drop_leaves c ls = filter (\<lambda>l. fst l \<noteq> c) ls"
proof (induction ls)
  case (Cons l ls)
  obtain d q where l: "l = (d, q)" by (cases l)
  show ?case
  proof (cases "d = c")
    case True
    then have "filter (\<lambda>l. fst l \<noteq> c) ls = ls" using Cons.prems l by (intro filter_True) (auto simp: image_iff)
    then show ?thesis using True l by (simp add: drop_leaves_def)
  next
    case False
    then show ?thesis using Cons l by (simp add: drop_leaves_def split: option.splits)
  qed
qed (simp add: drop_leaves_def)

lemma node_at_leaves: "l \<in> set (leaves_at q h) \<Longrightarrow> node_at q h \<noteq> None"
  by (cases "node_at q h") (simp_all add: leaves_at_def)

lemma clean_slots:
  "\<lbrakk>wf_node (root_of db); \<forall>q. Some q \<in> set ss \<longrightarrow> node_at q (root_of db) \<noteq> None \<and> q \<noteq> [];
    distinct (filter (\<lambda>s. s \<noteq> None) ss)\<rbrakk> \<Longrightarrow>
   \<exists>hs. foldl (clean_slot c) db ss = db\<lparr>db_subs := hs\<rparr> \<and> wf_node (set_children hs (root_of db))
     \<and> (\<forall>q. leaves_at q (set_children hs (root_of db)) = (if Some q \<in> set ss then drop_leaves c (leaves_at q (root_of db)) else leaves_at q (root_of db)))
     \<and> (\<forall>q. retained_at q (set_children hs (root_of db)) = retained_at q (root_of db))"
proof (induction ss arbitrary: db)
  case Nil
  show ?case by (rule exI [of _ "db_subs db"]) (use Nil in \<open>simp add: root_of_def set_children_def\<close>)
next
  case (Cons s ss)
  show ?case
  proof (cases s)
    case None
    then show ?thesis using Cons by (simp add: clean_slot_def)
  next
    case (Some p)
    obtain n where n: "node_at p (root_of db) = Some n" and p: "p \<noteq> []" using Cons.prems(2) Some by auto
    obtain hs1 where h1: "clean_at c p (db_subs db) = Some hs1" using clean_at_spec [OF n p Cons.prems(1), of c] unfolding root_of_sel by blast
    have sp: "wf_node (set_children hs1 (root_of db))"
      "leaves_at q (set_children hs1 (root_of db)) = (if q = p then drop_leaves c (leaves_at q (root_of db)) else leaves_at q (root_of db))"
      "retained_at q (set_children hs1 (root_of db)) = retained_at q (root_of db)"
      "node_at q (root_of db) \<noteq> None \<Longrightarrow> node_at q (set_children hs1 (root_of db)) \<noteq> None" for q
      using clean_at_spec [OF n p Cons.prems(1), of c q] h1 by auto
    let ?db = "db\<lparr>db_subs := hs1\<rparr>"
    have step: "clean_slot c db s = ?db" by (simp add: clean_slot_def Some h1)
    have np: "Some p \<notin> set ss" using Cons.prems(3) Some by simp
    have r1: "root_of ?db = set_children hs1 (root_of db)" by simp
    have r2: "set_children hs (root_of ?db) = set_children hs (root_of db)" for hs by (simp add: set_children_def)
    have "\<exists>hs. foldl (clean_slot c) ?db ss = ?db\<lparr>db_subs := hs\<rparr> \<and> wf_node (set_children hs (root_of ?db))
       \<and> (\<forall>q. leaves_at q (set_children hs (root_of ?db)) = (if Some q \<in> set ss then drop_leaves c (leaves_at q (root_of ?db)) else leaves_at q (root_of ?db)))
       \<and> (\<forall>q. retained_at q (set_children hs (root_of ?db)) = retained_at q (root_of ?db))"
      using Cons.prems sp(1,4) Some by (intro Cons.IH) (auto simp: r1)
    then obtain hs where "foldl (clean_slot c) ?db ss = ?db\<lparr>db_subs := hs\<rparr>" "wf_node (set_children hs (root_of db))"
      "\<forall>q. leaves_at q (set_children hs (root_of db)) = (if Some q \<in> set ss then drop_leaves c (leaves_at q (root_of ?db)) else leaves_at q (root_of ?db))"
      "\<forall>q. retained_at q (set_children hs (root_of db)) = retained_at q (root_of ?db)"
      unfolding r2 by blast
    then show ?thesis using np Some by (intro exI [of _ hs]) (auto simp: step [unfolded Some] sp(2,3))
  qed
qed

section \<open>Well-formedness of the tree\<close>

text \<open>A path that may be created: \<open>#\<close> only at its end.\<close>

definition path_ok :: "cstring list \<Rightarrow> bool" where
  "path_ok toks \<longleftrightarrow> ''#'' \<notin> set (butlast toks)"

lemma path_ok_Cons [simp]: "path_ok (t # toks) \<longleftrightarrow> path_ok toks \<and> (t = ''#'' \<longrightarrow> toks = [])"
  by (auto simp: path_ok_def)

lemma sub_check_path_ok:
  assumes "NUL \<notin> set sub" "mosquitto_sub_topic_check sub = MOSQ_ERR_SUCCESS"
  shows "path_ok (sub_topic_tokenise sub)"
proof -
  have "filter_ok (levels sub)"
    using assms sub_topic_loop_iff [of sub NUL 0] by (simp add: mosquitto_sub_topic_check_def)
  then have "path_ok (levels sub)" by (simp add: filter_ok_def path_ok_def)
  then show ?thesis by (simp add: tokenise_levels)
qed

lemma wf_set_subs [simp]: "wf_node (set_subs ls h) = wf_node h"
  using wf_node_iff [of "set_subs ls h"] wf_node_iff [of h] by simp

lemma sub_add_leaf_wf:
  "sub_add_leaf db c qos path h = (rc, h', db') \<Longrightarrow> wf_node h' = wf_node h \<and> h_topic h' = h_topic h"
  by (auto simp: sub_add_leaf_def Let_def split: option.splits prod.splits)

lemma sub_add_node_wf:
  "\<lbrakk>sub_add_node db context qos path h toks = (rc, h', db'); wf_node h; path_ok toks; h_topic h = ''#'' \<longrightarrow> toks = []\<rbrakk> \<Longrightarrow>
   wf_node h' \<and> h_topic h' = h_topic h"
proof (induction toks arbitrary: db path h rc h' db')
  case Nil
  then show ?case using sub_add_leaf_wf by (auto split: option.splits)
next
  case (Cons tok toks)
  have pk: "path_ok toks" "tok = ''#'' \<longrightarrow> toks = []" using Cons.prems(3) by auto
  have h: "h_topic h \<noteq> ''#''" using Cons.prems(4) by auto
  show ?case
  proof (cases "find_branch tok (h_children h)")
    case None
    obtain rc1 b db1 where r: "sub_add_node db context qos (path @ [tok]) (Subhier tok [] None []) toks = (rc1, b, db1)"
      by (metis prod_cases3)
    have b: "wf_node b \<and> h_topic b = tok" using Cons.IH [OF r _ pk(1)] pk(2) by simp
    have "h' = set_children (h_children h @ [b]) h" using Cons.prems(1) by (simp add: None r)
    then show ?thesis
      using wf_node_iff [of "set_children (h_children h @ [b]) h"] Cons.prems(2) [unfolded wf_node_iff [of h]] b None h
      by (auto simp: find_branch_None)
  next
    case (Some lbr)
    obtain l b0 r0 where lbr: "lbr = (l, b0, r0)" by (cases lbr)
    note fb = Some [unfolded lbr]
    obtain rc1 b db1 where r: "sub_add_node db context qos (path @ [tok]) b0 toks = (rc1, b, db1)" by (metis prod_cases3)
    have b0: "wf_node b0" "h_topic b0 = tok" using find_branch_Some [OF fb] Cons.prems(2) wf_node_iff [of h] by auto
    have b: "wf_node b" "h_topic b = tok" using Cons.IH [OF r b0(1) pk(1)] b0(2) pk(2) by auto
    have "h' = set_children (l @ b # r0) h" using Cons.prems(1) by (simp add: fb r)
    then show ?thesis using wf_replace [OF fb b(2) Cons.prems(2) b(1)] by simp
  qed
qed

lemma resubscribe_subs: "db_subs (snd (resubscribe db cid qos ls)) = db_subs db"
  by (induction db cid qos ls rule: resubscribe.induct)
    (auto simp: Let_def touch_ctx_def set_ub_def split: option.splits prod.splits)

lemma sub_add_leaf_subs: "db_subs (snd (snd (sub_add_leaf db c qos path h))) = db_subs db"
proof (cases "m_id (db_ctx (touch_ctx c db) c)")
  case None
  then show ?thesis by (simp add: sub_add_leaf_def Let_def touch_ctx_def set_ub_def)
next
  case (Some cid)
  obtain ls d where r: "resubscribe (touch_ctx c db) cid qos (h_subs h) = (ls, d)" by fastforce
  have "db_subs (touch_ctx c db) = db_subs db" by (rule keep_sel(3)) simp
  then have "db_subs d = db_subs db"
    using resubscribe_subs [of "touch_ctx c db" cid qos "h_subs h"] by (simp add: r)
  then show ?thesis using Some by (cases ls) (simp_all add: sub_add_leaf_def Let_def r)
qed

lemma sub_add_node_subs:
  "sub_add_node db context qos path h toks = (rc, h', db') \<Longrightarrow> db_subs db' = db_subs db"
proof (induction toks arbitrary: path h rc h' db')
  case Nil
  show ?case
  proof (cases "context")
    case None
    then show ?thesis using Nil by simp
  next
    case (Some c)
    then show ?thesis using Nil sub_add_leaf_subs [of db c qos path h] by simp
  qed
next
  case (Cons tok toks)
  show ?case
  proof (cases "find_branch tok (h_children h)")
    case None
    obtain rc1 b db1 where r: "sub_add_node db context qos (path @ [tok]) (Subhier tok [] None []) toks = (rc1, b, db1)"
      by (metis prod_cases3)
    show ?thesis using Cons.prems Cons.IH [OF r] by (simp add: None r)
  next
    case (Some lbr)
    obtain l b0 r0 where lbr: "lbr = (l, b0, r0)" by (cases lbr)
    obtain rc1 b db1 where r: "sub_add_node db context qos (path @ [tok]) b0 toks = (rc1, b, db1)" by (metis prod_cases3)
    show ?thesis using Cons.prems Cons.IH [OF r] by (simp add: Some lbr r)
  qed
qed

lemma top_token: "hd (sub_topic_tokenise s) = [] \<or> (\<exists>r. hd (sub_topic_tokenise s) = DOLLAR # r)"
  by (cases s) (auto simp: tokenise_levels)

lemma sub_add_wf:
  assumes w: "wf_node (root_of db)" and p: "path_ok (sub_topic_tokenise sub)"
  shows "wf_node (root_of (snd (mqtt3_sub_add db c sub qos)))"
proof -
  let ?toks = "sub_topic_tokenise sub"
  let ?top = "hd ?toks"
  have top: "?top \<noteq> ''#''" using top_token [of sub] by auto
  have wf: "distinct (map h_topic (db_subs db))" "\<forall>g \<in> set (db_subs db). wf_node g"
    using w wf_node_iff [of "root_of db"] by simp_all
  show ?thesis
  proof (cases "find_branch ?top (db_subs db)")
    case None
    obtain rc1 b db1 where n: "sub_add_node db (Some c) qos [?top] (Subhier ?top [] None []) ?toks = (rc1, b, db1)"
      by (metis prod_cases3)
    have "wf_node b \<and> h_topic b = ?top" using sub_add_node_wf [OF n _ p] top by simp
    moreover have "db_subs db1 = db_subs db"
      by (rule sub_add_node_subs [OF n])
    moreover have "db_subs (snd (mqtt3_sub_add db c sub qos)) = b # db_subs db1"
      by (simp add: mqtt3_sub_add_def Let_def None n)
    ultimately show ?thesis
      using wf None [unfolded find_branch_None] by (simp add: wf_node_iff [of "root_of db" for db])
  next
    case (Some lbr)
    obtain l b0 r where lbr: "lbr = (l, b0, r)" by (cases lbr)
    note fb = Some [unfolded lbr]
    obtain rc1 b db1 where n: "sub_add_node db (Some c) qos [?top] b0 ?toks = (rc1, b, db1)"
      by (metis prod_cases3)
    have b0: "wf_node b0" "h_topic b0 = ?top" using find_branch_Some [OF fb] wf(2) by auto
    have b: "wf_node b" "h_topic b = ?top" using sub_add_node_wf [OF n b0(1) p] b0(2) top by simp_all
    have "find_branch ?top (h_children (root_of db)) = Some (l, b0, r)" using fb by simp
    from wf_replace [OF this b(2) w b(1)] show ?thesis
      by (simp add: mqtt3_sub_add_def Let_def fb n set_children_def)
  qed
qed

section \<open>Publishing keeps the subscriptions\<close>

text \<open>A tree without its retained messages.\<close>

fun skel :: "subhier \<Rightarrow> subhier" where
  "skel (Subhier topic leaves retained children) = Subhier topic leaves None (map skel children)"

lemma skel_sel [simp]:
  "h_topic (skel h) = h_topic h" "h_subs (skel h) = h_subs h" "h_children (skel h) = map skel (h_children h)"
  by (cases h; simp)+

lemma child_skel: "child t (map skel hs) = map_option skel (child t hs)"
  by (induction hs) auto

lemma leaves_at_skel [simp]: "leaves_at q (skel h) = leaves_at q h"
proof (induction q arbitrary: h)
  case (Cons t q)
  show ?case by (cases "child t (h_children h)") (simp_all add: at_child child_skel Cons.IH)
qed simp

lemma wf_skel [simp]: "wf_node (skel h) = wf_node h"
  by (induction h) (auto simp: comp_def)

lemma skel_eq:
  assumes "skel h' = skel h"
  shows "leaves_at q h' = leaves_at q h" "wf_node h' = wf_node h" "h_topic h' = h_topic h"
  using leaves_at_skel [of q h] leaves_at_skel [of q h'] wf_skel [of h] wf_skel [of h'] skel_sel(1) [of h] skel_sel(1) [of h'] assms
  by metis+

lemma sub_search_skel: "map skel (fst (sub_search db p sr toks hs)) = map skel hs"
proof (induction db p sr toks hs rule: sub_search.induct)
  case (2 db p sr tokens topic leaves retained children hs)
  then show ?case by (auto simp: Let_def split: prod.splits)
qed simp

lemma sub_search_set_skel: "skel (set_children (fst (sub_search db p sr toks (h_children h))) h) = skel h"
  by (cases h) (simp add: set_children_def sub_search_skel)

text \<open>Creating the path of a retained message.\<close>

lemma sub_add_node_None_at:
  "sub_add_node db None q path h toks = (rc, h', db') \<Longrightarrow>
   leaves_at p h' = leaves_at p h \<and> retained_at p h' = retained_at p h \<and> (node_at toks h' \<noteq> None)"
proof (induction toks arbitrary: db path h rc h' db' p)
  case (Cons tok toks)
  show ?case
  proof (cases "find_branch tok (h_children h)")
    case None
    obtain rc1 b db1 where r: "sub_add_node db None q (path @ [tok]) (Subhier tok [] None []) toks = (rc1, b, db1)"
      by (metis prod_cases3)
    have e: "h' = set_children (h_children h @ [b]) h" using Cons.prems by (simp add: None r)
    have tp: "h_topic b = tok" using sub_add_node_None [OF r, of 0] by simp
    note ch = child_add(1) [OF None tp]
    have n: "child tok (h_children h) = None" using None by (simp add: child_def)
    show ?thesis using Cons.IH [OF r] by (cases p) (auto simp: e at_child node_at_child ch n)
  next
    case (Some lbr)
    obtain l b0 r0 where lbr: "lbr = (l, b0, r0)" by (cases lbr)
    note fb = Some [unfolded lbr]
    have c0: "child tok (h_children h) = Some b0" by (rule find_branch_child [OF fb])
    obtain rc1 b db1 where r: "sub_add_node db None q (path @ [tok]) b0 toks = (rc1, b, db1)"
      by (metis prod_cases3)
    have e: "h' = set_children (l @ b # r0) h" using Cons.prems by (simp add: fb r)
    have tp: "h_topic b = tok" using sub_add_node_None [OF r, of 0] find_branch_Some [OF fb] by simp
    note ch = child_replace [OF fb tp]
    show ?thesis using Cons.IH [OF r] by (cases p) (auto simp: e at_child node_at_child ch c0)
  qed
qed simp

lemma queue_loop_tree:
  assumes "path_ok toks" "hd toks \<noteq> ''#''"
  shows "queue_loop db p toks hs = (hs', db') \<Longrightarrow> \<forall>h \<in> set hs. wf_node h \<Longrightarrow>
    map h_topic hs' = map h_topic hs \<and> (\<forall>h \<in> set hs'. wf_node h)
    \<and> (\<forall>t q. (case child t hs' of None \<Rightarrow> [] | Some b \<Rightarrow> leaves_at q b) = (case child t hs of None \<Rightarrow> [] | Some b \<Rightarrow> leaves_at q b))"
proof (induction hs arbitrary: db hs' db')
  case (Cons h hs)
  obtain h1 d1 where here: "(if h_topic h = hd toks
       then let h = if pub_retain p then fst (snd (sub_add_node db None 0 [h_topic h] h toks)) else h
            in case sub_search db p True toks (h_children h) of (ch, db) \<Rightarrow> (set_children ch h, db)
       else (h, db)) = (h1, d1)" by fastforce
  obtain hs1 d2 where rest: "queue_loop d1 p toks hs = (hs1, d2)" by fastforce
  have hs': "hs' = h1 # hs1" using Cons.prems(1) unfolding queue_loop.simps(2) here by (simp add: rest)
  have one: "h_topic h1 = h_topic h \<and> wf_node h1 \<and> (\<forall>q. leaves_at q h1 = leaves_at q h)"
  proof (cases "h_topic h = hd toks")
    case False
    then show ?thesis using here Cons.prems(2) by simp
  next
    case True
    define g where "g = (if pub_retain p then fst (snd (sub_add_node db None 0 [h_topic h] h toks)) else h)"
    obtain rc0 g0 d0 where a: "sub_add_node db None 0 [h_topic h] h toks = (rc0, g0, d0)" by (metis prod_cases3)
    have "wf_node g0 \<and> h_topic g0 = h_topic h" using sub_add_node_wf [OF a _ assms(1)] assms(2) True Cons.prems(2) by simp
    moreover have "g = (if pub_retain p then g0 else h)" by (simp add: g_def a)
    ultimately have g: "h_topic g = h_topic h \<and> wf_node g \<and> (\<forall>q. leaves_at q g = leaves_at q h)"
      using sub_add_node_None_at [OF a] Cons.prems(2) by simp
    obtain ch e where ss: "sub_search db p True toks (h_children g) = (ch, e)" by fastforce
    have "h1 = set_children ch g" using here True by (simp add: g_def [symmetric] ss Let_def)
    then have "skel h1 = skel g" using sub_search_set_skel [of db p True toks g] by (simp add: ss)
    from skel_eq [OF this] show ?thesis using g by simp
  qed
  have "map h_topic hs1 = map h_topic hs \<and> (\<forall>h \<in> set hs1. wf_node h)
      \<and> (\<forall>t q. (case child t hs1 of None \<Rightarrow> [] | Some b \<Rightarrow> leaves_at q b) = (case child t hs of None \<Rightarrow> [] | Some b \<Rightarrow> leaves_at q b))"
    using Cons.IH [OF rest] Cons.prems(2) by simp
  then show ?case using one by (simp add: hs')
qed simp

lemma messages_queue_tree:
  assumes w: "wf_node (root_of db)" and p: "path_ok (sub_topic_tokenise topic)"
    and r: "mqtt3_db_messages_queue db source topic qos retain stored = (rc, db')"
  shows "wf_node (root_of db')" "leaves_at q (root_of db') = leaves_at q (root_of db)"
proof -
  let ?toks = "sub_topic_tokenise topic"
  let ?p = "\<lparr>pub_source = source, pub_topic = topic, pub_qos = qos, pub_retain = retain, pub_store = stored\<rparr>"
  have s0: "db_subs (db_msg_store_ref db stored) = db_subs db" by (rule keep_sel(3)) simp
  obtain hs d where ql: "queue_loop (db_msg_store_ref db stored) ?p ?toks (db_subs db) = (hs, d)" by fastforce
  have e: "db_subs db' = hs"
    using r keep_sel(3) [OF keep_counted(3), of "d\<lparr>db_subs := hs\<rparr>" stored]
    by (auto simp: mqtt3_db_messages_queue_def Let_def s0 ql)
  have wf: "distinct (map h_topic (db_subs db))" "\<forall>g \<in> set (db_subs db). wf_node g"
    using w wf_node_iff [of "root_of db"] by simp_all
  have top: "hd ?toks \<noteq> ''#''" using top_token [of topic] by auto
  note t = queue_loop_tree [OF p top ql wf(2)]
  show "wf_node (root_of db')" using wf(1) t by (simp add: wf_node_iff [of "root_of db'"] e)
  show "leaves_at q (root_of db') = leaves_at q (root_of db)"
    using t by (cases q) (simp_all add: at_child e root_of_def)
qed

section \<open>The tree as a map of subscriptions\<close>

lemma demo_leaves: "leaves_at q (root_of (demo_db ms)) = []" "wf_node (root_of (demo_db ms))"
proof -
  have s: "db_subs (demo_db ms) = [Subhier '''' [] None [], Subhier ''$SYS'' [] None []]" by (simp add: demo_db_def)
  show "leaves_at q (root_of (demo_db ms)) = []" by (cases q) (auto simp: at_child s root_of_def)
  show "wf_node (root_of (demo_db ms))" by (simp add: root_of_def s)
qed

lemma demo_live_leaves: "live_leaves (demo_db ms) (root_of (demo_db ms))"
  by (simp add: live_leaves_def demo_leaves)

text \<open>C2. Seen as a map from filters to lists of subscriptions, the tree is changed by a subscription at the filter
  alone, where the client gets a new leaf or, if it is subscribed there already, the new quality; by an
  unsubscription at the filter alone, where its leaf is dropped; and the retained messages stay. Branches that
  are created and pruned on the way do not show.\<close>

theorem subscription_map_refined:
  assumes "wf_node (root_of db)" "live_leaves db (root_of db)" "m_live (db_ctx db c)" "m_id (db_ctx db c) = Some cid"
  shows "let added = root_of (snd (mqtt3_sub_add db c sub qos)); removed = root_of (snd (mqtt3_sub_remove db c sub));
             leaves = (\<lambda>q. leaves_at q (root_of db)); p = path_of sub
    in (\<lambda>q. leaves_at q added) = leaves(p := put_leaf (ids_of db) c qos (leaves p)) \<and>
       (\<lambda>q. leaves_at q removed) = leaves(p := drop_leaves c (leaves p)) \<and>
       (\<lambda>q. retained_at q added) = (\<lambda>q. retained_at q (root_of db)) \<and>
       (\<lambda>q. retained_at q removed) = (\<lambda>q. retained_at q (root_of db))"
proof -
  have i: "ids_of db c = Some cid" using assms(4) by (simp add: ids_of_def)
  obtain rc1 d1 where a: "mqtt3_sub_add db c sub qos = (rc1, d1)" by fastforce
  obtain rc2 d2 where r: "mqtt3_sub_remove db c sub = (rc2, d2)" by fastforce
  show ?thesis
    using sub_add_spec [OF assms(2,3) i a] sub_remove_spec [OF assms(1) r] by (auto simp: a r Let_def)
qed

theorem subscription_map_refined_witness:
  "leaves_at (path_of ''a/+'') (root_of (snd (mqtt3_sub_add (demo_db []) 0 ''a/+'' 1))) = [(0, 1)]"
  using subscription_map_refined [of "demo_db []" 0 "''dev''" "''a/+''" 1] demo_leaves [where ms = "[]"] demo_live_leaves [of "[]"]
  by (simp add: Let_def fun_eq_iff)

section \<open>The array of subscriptions of a client\<close>

lemma add_slot_facts:
  "Some q \<in> set (add_slot p ss) \<longleftrightarrow> q = p \<or> Some q \<in> set ss"
  "Some p \<notin> set ss \<Longrightarrow> distinct (filter (\<lambda>s. s \<noteq> None) ss) \<Longrightarrow> distinct (filter (\<lambda>s. s \<noteq> None) (add_slot p ss))"
proof -
  show i: "Some q \<in> set (add_slot p ss) \<longleftrightarrow> q = p \<or> Some q \<in> set ss" for p q ss
    by (induction p ss rule: add_slot.induct) auto
  show "Some p \<notin> set ss \<Longrightarrow> distinct (filter (\<lambda>s. s \<noteq> None) ss) \<Longrightarrow> distinct (filter (\<lambda>s. s \<noteq> None) (add_slot p ss))"
  proof (induction p ss rule: add_slot.induct)
    case (3 p q ss)
    then show ?case using i [of q p ss] by auto
  qed simp_all
qed

lemma clear_slot_mem:
  "distinct (filter (\<lambda>s. s \<noteq> None) ss) \<Longrightarrow> Some q \<in> set (clear_slot p ss) \<longleftrightarrow> q \<noteq> p \<and> Some q \<in> set ss"
proof (induction p ss rule: clear_slot.induct)
  case (2 p s ss)
  show ?case
  proof (cases "s = Some p")
    case True
    then show ?thesis using 2 by auto
  next
    case False
    have "distinct (filter (\<lambda>s. s \<noteq> None) ss)" using "2.prems" by (cases s) simp_all
    then show ?thesis using "2.IH" [OF False] False by auto
  qed
qed simp

lemma clear_slot_distinct:
  "distinct (filter (\<lambda>s. s \<noteq> None) ss) \<Longrightarrow> distinct (filter (\<lambda>s. s \<noteq> None) (clear_slot p ss))"
proof (induction p ss rule: clear_slot.induct)
  case (2 p s ss)
  show ?case
  proof (cases "s = Some p")
    case True
    then show ?thesis using 2 by simp
  next
    case False
    have "distinct (filter (\<lambda>s. s \<noteq> None) ss)" using "2.prems" by (cases s) simp_all
    then show ?thesis using "2.IH" [OF False] False "2.prems" clear_slot_mem [of ss _ p] by (cases s) auto
  qed
qed simp

lemma put_leaf_fst:
  "map fst (put_leaf ids c qos ls) = (if ids c \<in> (\<lambda>l. ids (fst l)) ` set ls then map fst ls else map fst ls @ [c])"
proof (induction ls)
  case (Cons l ls)
  then show ?case by (cases l; cases "ids (fst l) = ids c") auto
qed simp

lemma drop_leaves_fst: "distinct (map fst ls) \<Longrightarrow>
  fst ` set (drop_leaves c ls) = fst ` set ls - {c} \<and> distinct (map fst (drop_leaves c ls))"
  by (subst drop_leaves_filter, assumption, subst drop_leaves_filter, assumption) (auto intro: distinct_map_filter)

lemma drop_leaf_None: "drop_leaf c ls = None \<longleftrightarrow> c \<notin> fst ` set ls"
proof (induction ls)
  case (Cons l ls)
  then show ?case by (cases l; cases "fst l = c") auto
qed simp

text \<open>All clients at once.\<close>

definition subs_ok :: "mosq_db \<Rightarrow> bool" where
  "subs_ok db \<longleftrightarrow> wf_node (root_of db) \<and> live_leaves db (root_of db) \<and> (\<forall>c. slots_ok db c)"

lemma slots_okD:
  assumes "slots_ok db c"
  shows "distinct (filter (\<lambda>s. s \<noteq> None) (m_subs (db_ctx db c)))"
    "c \<in> fst ` set (leaves_at q (root_of db)) \<longleftrightarrow> Some q \<in> set (m_subs (db_ctx db c))"
    "distinct (map fst (leaves_at q (root_of db)))"
  using assms unfolding slots_ok_def by blast+

text \<open>If a leaf of the same client identifier is already there, the leaves of the node belong to the same clients as
  before; else the client is new at the node.\<close>

lemma resubscribe_new:
  assumes "\<forall>l \<in> set ls. m_live (db_ctx db (fst l))" "ids_of db c = Some cid"
  shows "fst (resubscribe db cid qos ls) = None \<longleftrightarrow> ids_of db c \<notin> (\<lambda>l. ids_of db (fst l)) ` set ls"
  unfolding resubscribe_put(3) [OF assms] using assms(2) by (auto simp: image_iff) (metis option.sel option.discI)+

lemma sub_add_subs_ok:
  assumes ok: "subs_ok db" and c: "m_live (db_ctx db c)" "m_id (db_ctx db c) = Some cid" and p: "path_ok (sub_topic_tokenise sub)"
  shows "subs_ok (snd (mqtt3_sub_add db c sub qos))"
proof -
  obtain rc db' where a: "mqtt3_sub_add db c sub qos = (rc, db')" by fastforce
  have i: "ids_of db c = Some cid" using c by (simp add: ids_of_def)
  have w: "wf_node (root_of db)" and l: "live_leaves db (root_of db)" and s: "\<And>d. slots_ok db d"
    using ok by (simp_all add: subs_ok_def)
  note sp = sub_add_spec [OF l c(1) i a]
  let ?q = "path_of sub"
  let ?ls = "leaves_at ?q (root_of db)"
  have ll: "\<forall>x \<in> set ?ls. m_live (db_ctx db (fst x))" using l by (simp add: live_leaves_def)
  define new where "new \<longleftrightarrow> ids_of db c \<notin> (\<lambda>x. ids_of db (fst x)) ` set ?ls"
  have cn: "new \<Longrightarrow> c \<notin> fst ` set ?ls" by (force simp: new_def)
  have "\<exists>hs. db' = (if new then upd_ctx c (\<lambda>m. m\<lparr>m_subs := add_slot ?q (m_subs m)\<rparr>) db else db)\<lparr>db_subs := hs\<rparr>"
    using sp [of ?q] resubscribe_new [OF ll i, of qos] unfolding new_def [symmetric] by (intro exI [of _ "db_subs db'"]) simp
  then obtain hs where e: "db' = (if new then upd_ctx c (\<lambda>m. m\<lparr>m_subs := add_slot ?q (m_subs m)\<rparr>) db else db)\<lparr>db_subs := hs\<rparr>" ..
  have m: "m_subs (db_ctx db' d) = (if d = c \<and> new then add_slot ?q (m_subs (db_ctx db c)) else m_subs (db_ctx db d))"
    and lv: "m_live (db_ctx db' d) = m_live (db_ctx db d)" for d
    by (simp_all add: e)
  have la: "fst ` set (leaves_at q (root_of db')) = fst ` set (leaves_at q (root_of db)) \<union> (if q = ?q \<and> new then {c} else {})"
    and ld: "distinct (map fst (leaves_at q (root_of db')))" for q
  proof -
    have "map fst (leaves_at q (root_of db')) = map fst (leaves_at q (root_of db)) @ (if q = ?q \<and> new then [c] else [])"
      using sp [of q] put_leaf_fst [of "ids_of db" c qos ?ls] by (auto simp: new_def)
    then show "fst ` set (leaves_at q (root_of db')) = fst ` set (leaves_at q (root_of db)) \<union> (if q = ?q \<and> new then {c} else {})"
      "distinct (map fst (leaves_at q (root_of db')))"
      using slots_okD(3) [OF s, of q] cn by (auto simp flip: set_map)
  qed
  have "slots_ok db' d" for d
    unfolding slots_ok_def
  proof (intro conjI allI)
    have nq: "new \<Longrightarrow> Some ?q \<notin> set (m_subs (db_ctx db c))" using slots_okD(2) [OF s [of c], of ?q] cn by blast
    show "distinct (filter (\<lambda>s. s \<noteq> None) (m_subs (db_ctx db' d)))"
      using slots_okD(1) [OF s [of d]] add_slot_facts(2) [OF nq] by (cases "d = c \<and> new") (auto simp: m)
    show "d \<in> fst ` set (leaves_at q (root_of db')) \<longleftrightarrow> Some q \<in> set (m_subs (db_ctx db' d))" for q
      unfolding la using slots_okD(2) [OF s [of d], of q] by (cases "d = c \<and> new") (auto simp: m add_slot_facts(1))
    show "distinct (map fst (leaves_at q (root_of db')))" for q by (rule ld)
  qed
  moreover have "live_leaves db' (root_of db')"
    unfolding live_leaves_def lv
  proof (intro allI ballI)
    fix q x assume "x \<in> set (leaves_at q (root_of db'))"
    then have "fst x \<in> fst ` set (leaves_at q (root_of db)) \<or> fst x = c" using la [of q] by (auto split: if_splits)
    then show "m_live (db_ctx db (fst x))" using l c(1) by (fastforce simp: live_leaves_def)
  qed
  moreover have "wf_node (root_of db')" using sub_add_wf [OF w p, of c qos] by (simp add: a)
  ultimately show ?thesis by (simp add: subs_ok_def a)
qed

lemma sub_remove_subs_ok:
  assumes ok: "subs_ok db"
  shows "subs_ok (snd (mqtt3_sub_remove db c sub))"
proof -
  obtain rc db' where a: "mqtt3_sub_remove db c sub = (rc, db')" by fastforce
  have w: "wf_node (root_of db)" and l: "live_leaves db (root_of db)" and s: "\<And>d. slots_ok db d"
    using ok by (simp_all add: subs_ok_def)
  note sp = sub_remove_spec [OF w a]
  let ?q = "path_of sub"
  let ?ls = "leaves_at ?q (root_of db)"
  define old where "old \<longleftrightarrow> c \<in> fst ` set ?ls"
  have "\<exists>hs. db' = (if old then upd_ctx c (\<lambda>m. m\<lparr>m_subs := clear_slot ?q (m_subs m)\<rparr>) db else db)\<lparr>db_subs := hs\<rparr>"
  proof (cases old)
    case True
    then have "drop_leaf c ?ls \<noteq> None" using drop_leaf_None [of c ?ls] by (simp add: old_def)
    then show ?thesis using sp [of ?q] True by (intro exI [of _ "db_subs db'"]) presburger
  next
    case False
    then have "drop_leaf c ?ls = None" using drop_leaf_None [of c ?ls] by (simp add: old_def)
    then show ?thesis using sp [of ?q] False by (intro exI [of _ "db_subs db'"]) presburger
  qed
  then obtain hs where e: "db' = (if old then upd_ctx c (\<lambda>m. m\<lparr>m_subs := clear_slot ?q (m_subs m)\<rparr>) db else db)\<lparr>db_subs := hs\<rparr>" ..
  have m: "m_subs (db_ctx db' d) = (if d = c \<and> old then clear_slot ?q (m_subs (db_ctx db c)) else m_subs (db_ctx db d))"
    and lv: "m_live (db_ctx db' d) = m_live (db_ctx db d)" for d
    by (simp_all add: e)
  have la: "fst ` set (leaves_at q (root_of db')) = fst ` set (leaves_at q (root_of db)) - (if q = ?q then {c} else {})"
    and ld: "distinct (map fst (leaves_at q (root_of db')))" for q
    using sp [of q] drop_leaves_fst [OF slots_okD(3) [OF s], of c q] slots_okD(3) [OF s, of q] by auto
  have "slots_ok db' d" for d
    unfolding slots_ok_def
  proof (intro conjI allI)
    note ds = slots_okD(1) [OF s [of c]]
    show "distinct (filter (\<lambda>s. s \<noteq> None) (m_subs (db_ctx db' d)))"
      using slots_okD(1) [OF s [of d]] clear_slot_distinct [OF ds] by (auto simp: m)
    show "d \<in> fst ` set (leaves_at q (root_of db')) \<longleftrightarrow> Some q \<in> set (m_subs (db_ctx db' d))" for q
      unfolding la using slots_okD(2) [OF s [of d], of q]
      by (cases "d = c"; cases "q = ?q"; cases old) (auto simp: m clear_slot_mem [OF ds] old_def)
    show "distinct (map fst (leaves_at q (root_of db')))" for q by (rule ld)
  qed
  moreover have "live_leaves db' (root_of db')"
    unfolding live_leaves_def lv
  proof (intro allI ballI)
    fix q x assume "x \<in> set (leaves_at q (root_of db'))"
    then have "fst x \<in> fst ` set (leaves_at q (root_of db))" using la [of q] by auto
    then show "m_live (db_ctx db (fst x))" using l by (fastforce simp: live_leaves_def)
  qed
  moreover have "wf_node (root_of db')" using sp [of "[]"] by simp
  ultimately show ?thesis by (simp add: subs_ok_def a)
qed

lemma clean_session_spec:
  assumes ok: "subs_ok db" and r: "mqtt3_subs_clean_session db c = (rc, db')"
  shows "\<exists>hs. db' = upd_ctx c (\<lambda>m. m\<lparr>m_subs := []\<rparr>) (db\<lparr>db_subs := hs\<rparr>)"
    "wf_node (root_of db')" "leaves_at q (root_of db') = filter (\<lambda>l. fst l \<noteq> c) (leaves_at q (root_of db))"
    "retained_at q (root_of db') = retained_at q (root_of db)"
proof -
  have w: "wf_node (root_of db)" and s: "slots_ok db c" using ok by (simp_all add: subs_ok_def)
  have at: "c \<in> fst ` set (leaves_at q (root_of db)) \<longleftrightarrow> Some q \<in> set (m_subs (db_ctx db c))" for q
    by (rule slots_okD(2) [OF s])
  have "\<forall>q. Some q \<in> set (m_subs (db_ctx db c)) \<longrightarrow> node_at q (root_of db) \<noteq> None \<and> q \<noteq> []"
  proof (intro allI impI conjI)
    fix q assume "Some q \<in> set (m_subs (db_ctx db c))"
    then obtain l where l: "l \<in> set (leaves_at q (root_of db))" using at by blast
    then show "node_at q (root_of db) \<noteq> None" by (rule node_at_leaves)
    show "q \<noteq> []" using l by (auto simp: root_of_def)
  qed
  from clean_slots [OF w this slots_okD(1) [OF s], of c]
  obtain hs where hs: "foldl (clean_slot c) db (m_subs (db_ctx db c)) = db\<lparr>db_subs := hs\<rparr>" "wf_node (set_children hs (root_of db))"
    "\<And>q. leaves_at q (set_children hs (root_of db))
        = (if Some q \<in> set (m_subs (db_ctx db c)) then drop_leaves c (leaves_at q (root_of db)) else leaves_at q (root_of db))"
    "\<And>q. retained_at q (set_children hs (root_of db)) = retained_at q (root_of db)" by blast
  have e: "db' = upd_ctx c (\<lambda>m. m\<lparr>m_subs := []\<rparr>) (db\<lparr>db_subs := hs\<rparr>)"
    using r by (simp add: mqtt3_subs_clean_session_def hs(1))
  then show "\<exists>hs. db' = upd_ctx c (\<lambda>m. m\<lparr>m_subs := []\<rparr>) (db\<lparr>db_subs := hs\<rparr>)" by blast
  show "wf_node (root_of db')" "retained_at q (root_of db') = retained_at q (root_of db)" by (simp_all add: e hs)
  have "c \<notin> fst ` set ls \<Longrightarrow> filter (\<lambda>l. fst l \<noteq> c) ls = ls" for ls :: "(nat \<times> nat) list"
    by (intro filter_True) force
  then show "leaves_at q (root_of db') = filter (\<lambda>l. fst l \<noteq> c) (leaves_at q (root_of db))"
    using at [of q] drop_leaves_filter [OF slots_okD(3) [OF s], of c q] by (simp add: e hs(3))
qed

lemma clean_session_subs_ok:
  assumes ok: "subs_ok db"
  shows "subs_ok (snd (mqtt3_subs_clean_session db c))"
proof -
  obtain rc db' where r: "mqtt3_subs_clean_session db c = (rc, db')" by fastforce
  note sp = clean_session_spec [OF ok r]
  have l: "live_leaves db (root_of db)" and s: "\<And>d. slots_ok db d" using ok by (simp_all add: subs_ok_def)
  obtain hs where e: "db' = upd_ctx c (\<lambda>m. m\<lparr>m_subs := []\<rparr>) (db\<lparr>db_subs := hs\<rparr>)" using sp(1) by blast
  have m: "m_subs (db_ctx db' d) = (if d = c then [] else m_subs (db_ctx db d))" "m_live (db_ctx db' d) = m_live (db_ctx db d)" for d
    by (simp_all add: e)
  have "slots_ok db' d" for d
    unfolding slots_ok_def sp(3)
    using slots_okD [OF s [of d]] by (cases "d = c") (force simp: m intro: distinct_map_filter)+
  moreover have "live_leaves db' (root_of db')" using l by (fastforce simp: live_leaves_def sp(3) m)
  ultimately show ?thesis using sp(2) by (simp add: subs_ok_def r)
qed

lemma messages_queue_subs_ok:
  assumes ok: "subs_ok db" and t: "tree_ok db" and st: "st_live (db_store db stored)" and q: "qos \<le> 2"
    and p: "path_ok (sub_topic_tokenise topic)"
  shows "subs_ok (snd (mqtt3_db_messages_queue db source topic qos retain stored))"
proof -
  obtain rc db' where r: "mqtt3_db_messages_queue db source topic qos retain stored = (rc, db')" by fastforce
  have w: "wf_node (root_of db)" and l: "live_leaves db (root_of db)" and s: "\<And>d. slots_ok db d"
    using ok by (simp_all add: subs_ok_def)
  note tr = messages_queue_tree [OF w p r]
  note k = keep_ctx_sel [OF keep_all_sel(1) [OF messages_queue_ok(2) [OF t st q r]]]
  have "slots_ok db' d" for d using s [of d] by (simp add: slots_ok_def tr k)
  then show ?thesis using tr(1) l by (simp add: subs_ok_def r live_leaves_def tr(2) k)
qed

text \<open>C3. The subscription tree stays a tree and agrees with the clients: siblings have distinct topics, a node for \<open>#\<close>
  has no children, every leaf belongs to an allocated client, a node has at most one leaf of a client, and the
  array \<open>subs\<close> of a client names exactly the nodes with a leaf of it, each once. Subscribing with a checked
  filter, unsubscribing, cleaning a session and publishing to a checked topic keep all this; so cleaning a
  session, which follows the array, removes every subscription of the client and no other.\<close>

theorem subscriptions_consistent:
  assumes "subs_ok db" "tree_ok db" "m_live (db_ctx db c)" "m_id (db_ctx db c) = Some cid" "st_live (db_store db s)" "qos \<le> 2"
    and "path_ok (sub_topic_tokenise sub)" "path_ok (sub_topic_tokenise topic)"
  shows "subs_ok (snd (mqtt3_sub_add db c sub qos)) \<and> subs_ok (snd (mqtt3_sub_remove db c sub)) \<and>
    subs_ok (snd (mqtt3_subs_clean_session db c)) \<and> subs_ok (snd (mqtt3_db_messages_queue db source topic qos retain s)) \<and>
    (\<forall>q. leaves_at q (root_of (snd (mqtt3_subs_clean_session db c))) = filter (\<lambda>l. fst l \<noteq> c) (leaves_at q (root_of db)))"
  using sub_add_subs_ok [OF assms(1,3,4,7)] sub_remove_subs_ok [OF assms(1)] clean_session_subs_ok [OF assms(1)]
    messages_queue_subs_ok [OF assms(1,2,5,6,8)] clean_session_spec(3) [OF assms(1) prod.collapse [symmetric]]
  by simp

theorem subscriptions_consistent_witness:
  "subs_ok (snd (mqtt3_sub_add (demo_db []) 0 ''a/#'' 1))"
proof -
  have "slots_ok (demo_db []) c" for c
    by (simp add: slots_ok_def demo_leaves) (simp add: demo_db_def db_zero_def mosquitto_zero_def)
  then have "subs_ok (demo_db [])" by (simp add: subs_ok_def demo_leaves demo_live_leaves)
  moreover have "path_ok (sub_topic_tokenise ''a/#'')" "path_ok (sub_topic_tokenise ''a'')"
    by (simp_all add: tokenise_levels path_ok_def)
  ultimately show ?thesis
    using subscriptions_consistent [of "demo_db []" 0 "''dev''" 0 1 "''a/#''" "''a''"] demo_tree_ok [of "[]"] by simp
qed

end
