(* ===== verification/Mqtt_Context.thy ===== *)
theory Mqtt_Context
  imports Mqtt_Subs
begin

text \<open>
  The life of a client: \<^verbatim>\<open>src/context.c\<close>, \<^verbatim>\<open>_mosquitto_socket_close\<close> of \<^verbatim>\<open>lib/net_mosq.c\<close>,
  \<^verbatim>\<open>_mosquitto_check_keepalive\<close> of \<^verbatim>\<open>lib/util_mosq.c\<close>, \<^verbatim>\<open>do_disconnect\<close> of \<^verbatim>\<open>src/loop.c\<close>,
  \<^verbatim>\<open>mqtt3_socket_accept\<close> of \<^verbatim>\<open>src/net.c\<close> and \<^verbatim>\<open>mosquitto_security_apply_default\<close>.

  The hash tables of the contexts are lists in the order of insertion, \<open>db_contexts_by_id\<close> with the keys and
  \<open>db_contexts_by_sock\<close>. \<open>HASH_DELETE\<close> of a context that is not in the table corrupts it: \<open>db_ub\<close>.
  \<open>HASH_ITER\<close> reads the next element before its body runs, so a loop is a fold over the list at its
  start. \<open>time(NULL)\<close> and \<open>mosquitto_time()\<close> are \<open>db_now\<close>.
\<close>

section \<open>The tables\<close>

definition hash_add_sock :: "nat \<Rightarrow> mosq_db \<Rightarrow> mosq_db" where
  "hash_add_sock c db = db\<lparr>db_contexts_by_sock := db_contexts_by_sock db @ [c]\<rparr>"

definition hash_delete_sock :: "nat \<Rightarrow> mosq_db \<Rightarrow> mosq_db" where
  "hash_delete_sock c db =
     (if c \<in> set (db_contexts_by_sock db) then db\<lparr>db_contexts_by_sock := remove1 c (db_contexts_by_sock db)\<rparr>
      else set_ub db)"

definition hash_add_id :: "cstring \<Rightarrow> nat \<Rightarrow> mosq_db \<Rightarrow> mosq_db" where
  "hash_add_id i c db = db\<lparr>db_contexts_by_id := db_contexts_by_id db @ [(i, c)]\<rparr>"

definition hash_delete_id :: "cstring \<Rightarrow> nat \<Rightarrow> mosq_db \<Rightarrow> mosq_db" where
  "hash_delete_id i c db =
     (if (i, c) \<in> set (db_contexts_by_id db) then db\<lparr>db_contexts_by_id := remove1 (i, c) (db_contexts_by_id db)\<rparr>
      else set_ub db)"

text \<open>A bucket is searched from the context added last.\<close>

definition hash_find_id :: "cstring \<Rightarrow> mosq_db \<Rightarrow> nat option" where
  "hash_find_id i db = map_of (rev (db_contexts_by_id db)) i"

section \<open>Sockets and listeners\<close>

text \<open>\<open>listener->client_count--; assert(listener->client_count >= 0)\<close>\<close>

definition listener_leave :: "nat \<Rightarrow> mosq_db \<Rightarrow> mosq_db" where
  "listener_leave l db =
     (let ls = cf_listeners (db_config db); n = li_client_count (ls ! l) - 1;
          db = db\<lparr>db_config := (db_config db)\<lparr>cf_listeners := ls[l := (ls ! l)\<lparr>li_client_count := n\<rparr>]\<rparr>\<rparr>
      in if n \<ge> 0 then db else set_ub db)"

definition mosquitto_socket_close :: "mosq_db \<Rightarrow> nat \<Rightarrow> mosq_db" where
  "mosquitto_socket_close db c =
     (let db = touch_ctx c db;
          db = (if m_sock (db_ctx db c) \<noteq> None
                then upd_ctx c (\<lambda>m. m\<lparr>m_sock := None\<rparr>) (hash_delete_sock c db) else db)
      in case m_listener (db_ctx db c) of
           None \<Rightarrow> db
         | Some l \<Rightarrow> upd_ctx c (\<lambda>m. m\<lparr>m_listener := None\<rparr>) (listener_leave l db))"

definition mosquitto_check_keepalive :: "mosq_db \<Rightarrow> nat \<Rightarrow> mosq_db" where
  "mosquitto_check_keepalive db c =
     (let db = touch_ctx c db; m = db_ctx db c; now = db_now db; keepalive = int (unat (m_keepalive m))
      in if m_keepalive m \<noteq> 0 \<and> m_sock m \<noteq> None \<and> (now - m_last_msg_out m \<ge> keepalive \<or> now - m_last_msg_in m \<ge> keepalive)
         then (if m_state m = mosq_cs_connected \<and> m_ping_t m = 0
               then upd_ctx c (\<lambda>m. m\<lparr>m_last_msg_in := now, m_last_msg_out := now\<rparr>) (snd (on_ctx c (mosquitto_send_pingreq now) db))
               else let db = (case m_listener m of None \<Rightarrow> db | Some l \<Rightarrow> listener_leave l db)
                    in mosquitto_socket_close (upd_ctx c (\<lambda>m. m\<lparr>m_listener := None\<rparr>) db) c)
         else db)"

section \<open>Contexts\<close>

text \<open>\<open>address\<close> is what \<open>getpeername\<close> and \<open>inet_ntop\<close> give for the socket, if they do.\<close>

definition mqtt3_context_init :: "mosq_db \<Rightarrow> sock option \<Rightarrow> cstring option \<Rightarrow> nat option \<times> mosq_db" where
  "mqtt3_context_init db sock address =
     (if sock \<noteq> None \<and> address = None then (None, db)
      else let c = db_next_ctx db;
               context = mosquitto_zero\<lparr>m_live := True, m_state := mosq_cs_new, m_sock := sock,
                 m_last_msg_in := db_now db, m_last_msg_out := db_now db, m_keepalive := 60, m_clean_session := True,
                 m_in_packet := mosquitto_packet_cleanup packet_zero,
                 m_address := (if sock = None then None else address)\<rparr>;
               db = upd_ctx c (\<lambda>_. context) (db\<lparr>db_next_ctx := c + 1\<rparr>)
           in (Some c, if sock \<noteq> None then hash_add_sock c db else db))"

definition mqtt3_context_cleanup :: "mosq_db \<Rightarrow> nat \<Rightarrow> bool \<Rightarrow> mosq_db" where
  "mqtt3_context_cleanup db c do_free =
     (let db = upd_ctx c (\<lambda>m. m\<lparr>m_username := None, m_password := None\<rparr>) (touch_ctx c db);
          db = mosquitto_socket_close db c;
          drop = (do_free \<or> m_clean_session (db_ctx db c));
          db = (if drop then snd (mqtt3_db_messages_delete (snd (mqtt3_subs_clean_session db c)) c) else db);
          db = upd_ctx c (\<lambda>m. m\<lparr>m_address := None\<rparr>) db;
          db = (case m_id (db_ctx db c) of
                  None \<Rightarrow> db | Some i \<Rightarrow> upd_ctx c (\<lambda>m. m\<lparr>m_id := None\<rparr>) (hash_delete_id i c db));
          db = upd_ctx c (\<lambda>m. m\<lparr>m_in_packet := mosquitto_packet_cleanup (m_in_packet m),
                              m_current_out_packet := None, m_out_packet := [], m_will := None\<rparr>) db;
          db = (if drop then upd_ctx c (\<lambda>m. m\<lparr>m_msgs := [], m_last_msg := LNull\<rparr>)
                               (foldl db_msg_store_deref db (map cm_store (m_msgs (db_ctx db c))))
                else db)
      in if do_free then upd_ctx c (\<lambda>m. m\<lparr>m_live := False\<rparr>) db else db)"

definition mqtt3_context_disconnect :: "mosq_db \<Rightarrow> nat \<Rightarrow> mosq_db" where
  "mqtt3_context_disconnect db c =
     (let db = touch_ctx c db; m = db_ctx db c;
          db = (case m_will m of
                  None \<Rightarrow> db
                | Some w \<Rightarrow>
                    if m_state m \<noteq> mosq_cs_disconnecting \<and> mosquitto_acl_check db m (will_topic w) MOSQ_ACL_WRITE = MOSQ_ERR_SUCCESS
                    then snd (mqtt3_db_messages_easy_queue db (Some c) (will_topic w) (will_qos w) (will_payload w) (will_retain w))
                    else db)
      in mosquitto_socket_close (upd_ctx c (\<lambda>m. m\<lparr>m_will := None, m_disconnect_t := db_now db\<rparr>) db) c)"

definition add_context_to_disused :: "mosq_db \<Rightarrow> nat \<Rightarrow> mosq_db" where
  "add_context_to_disused db c = db\<lparr>db_ll_for_free := c # db_ll_for_free db\<rparr>"

definition free_disused_contexts :: "mosq_db \<Rightarrow> mosq_db" where
  "free_disused_contexts db =
     (foldl (\<lambda>db c. mqtt3_context_cleanup db c True) db (db_ll_for_free db))\<lparr>db_ll_for_free := []\<rparr>"

section \<open>Disconnecting\<close>

definition do_disconnect :: "mosq_db \<Rightarrow> nat \<Rightarrow> mosq_db" where
  "do_disconnect db c =
     (let db = touch_ctx c db
      in if m_state (db_ctx db c) = mosq_cs_disconnected then db
         else let db = mqtt3_context_disconnect db c;
                  db = (if m_clean_session (db_ctx db c)
                        then let db = add_context_to_disused db c
                             in case m_id (db_ctx db c) of
                                  None \<Rightarrow> db
                                | Some i \<Rightarrow> upd_ctx c (\<lambda>m. m\<lparr>m_id := None\<rparr>) (hash_delete_id i c db)
                        else db)
              in upd_ctx c (\<lambda>m. m\<lparr>m_state := mosq_cs_disconnected\<rparr>) db)"

text \<open>The entry of the ACL list a user name gets; without one the context keeps what it has.\<close>

definition find_acl_user :: "acl_user list \<Rightarrow> cstring option \<Rightarrow> acl_user option" where
  "find_acl_user us name = find (\<lambda>u. au_username u = name) us"

definition security_apply_one :: "mosq_db \<Rightarrow> nat \<Rightarrow> mosq_db" where
  "security_apply_one db c =
     (let m = db_ctx db c
      in if \<not> cf_allow_anonymous (db_config db) \<and> m_username m = None
         then do_disconnect (upd_ctx c (\<lambda>m. m\<lparr>m_state := mosq_cs_disconnecting\<rparr>) db) c
         else if mosquitto_unpwd_check_default db (m_username m) (m_password m) \<noteq> MOSQ_ERR_SUCCESS
         then do_disconnect (upd_ctx c (\<lambda>m. m\<lparr>m_state := mosq_cs_disconnecting\<rparr>) db) c
         else case find_acl_user (db_acl_list db) (m_username m) of
                None \<Rightarrow> db | Some u \<Rightarrow> upd_ctx c (\<lambda>m. m\<lparr>m_acl_list := Some u\<rparr>) db)"

definition mosquitto_security_apply_default :: "mosq_db \<Rightarrow> int \<times> mosq_db" where
  "mosquitto_security_apply_default db =
     (MOSQ_ERR_SUCCESS, foldl security_apply_one db (map snd (db_contexts_by_id db)))"

section \<open>Accepting\<close>

text \<open>A connection the kernel gives out for the listening sockets of listener \<open>l\<close>; \<open>None\<close>: there is no such listener.
  The result tells whether the connection is kept.\<close>

definition mqtt3_socket_accept :: "mosq_db \<Rightarrow> sock \<Rightarrow> cstring option \<Rightarrow> nat option \<Rightarrow> bool \<times> mosq_db" where
  "mqtt3_socket_accept db new_sock address l =
     (case mqtt3_context_init db (Some new_sock) address of
        (None, db) \<Rightarrow> (False, db)
      | (Some c, db) \<Rightarrow>
          (case l of
             None \<Rightarrow> (False, mqtt3_context_cleanup db c True)
           | Some l \<Rightarrow>
               let ls = cf_listeners (db_config db); li = (ls ! l)\<lparr>li_client_count := li_client_count (ls ! l) + 1\<rparr>;
                   db = upd_ctx c (\<lambda>m. m\<lparr>m_listener := Some l\<rparr>)
                          (db\<lparr>db_config := (db_config db)\<lparr>cf_listeners := ls[l := li]\<rparr>\<rparr>)
               in if li_max_connections li > 0 \<and> li_client_count li > li_max_connections li
                  then (False, mqtt3_context_cleanup db c True) else (True, db)))"

end
