(* ===== verification/Mqtt_Handlers.thy ===== *)
theory Mqtt_Handlers
  imports Mqtt_Context
begin

text \<open>
  The handlers of the packets a client sends: \<^verbatim>\<open>src/read_handle.c\<close>, \<^verbatim>\<open>src/read_handle_server.c\<close> and
  \<^verbatim>\<open>lib/read_handle_shared.c\<close>, and the end of \<^verbatim>\<open>_mosquitto_packet_read\<close>.

  A handler works on the packet \<open>in_packet\<close> of its client \<open>c\<close> and gives a return code; every code but
  \<open>MOSQ_ERR_SUCCESS\<close> makes the caller disconnect the client. A field that cannot be read leaves the position where it
  was: the packet is thrown away after the handler, and no handler reads on in it. Allocations succeed.
\<close>

unbundle bit_operations_syntax

section \<open>Reading fields\<close>

definition read_in :: "nat \<Rightarrow> (packet \<Rightarrow> ('a \<times> packet) option) \<Rightarrow> mosq_db \<Rightarrow> ('a \<times> mosq_db) option" where
  "read_in c f db =
     (case f (m_in_packet (db_ctx db c)) of
        None \<Rightarrow> None
      | Some (x, p) \<Rightarrow> Some (x, upd_ctx c (\<lambda>m. m\<lparr>m_in_packet := p\<rparr>) db))"

text \<open>A topic of a client behind a mount point.\<close>

definition mounted :: "cstring option \<Rightarrow> cstring \<Rightarrow> cstring" where
  "mounted mount topic = (case mount of None \<Rightarrow> topic | Some mp \<Rightarrow> mp @ topic)"

definition send_ctx :: "nat \<Rightarrow> (int \<Rightarrow> mosquitto \<Rightarrow> int \<times> mosquitto) \<Rightarrow> mosq_db \<Rightarrow> int \<times> mosq_db" where
  "send_ctx c send db = on_ctx c (send (db_now db)) db"

section \<open>Pings and acknowledgements\<close>

definition mosquitto_handle_pingreq :: "mosq_db \<Rightarrow> nat \<Rightarrow> int \<times> mosq_db" where
  "mosquitto_handle_pingreq db c = send_ctx c mosquitto_send_pingresp db"

definition mosquitto_handle_pingresp :: "mosq_db \<Rightarrow> nat \<Rightarrow> int \<times> mosq_db" where
  "mosquitto_handle_pingresp db c = (MOSQ_ERR_SUCCESS, upd_ctx c (\<lambda>m. m\<lparr>m_ping_t := 0\<rparr>) db)"

definition mosquitto_handle_pubackcomp :: "mosq_db \<Rightarrow> nat \<Rightarrow> int \<times> mosq_db" where
  "mosquitto_handle_pubackcomp db c =
     (case read_in c mosquitto_read_uint16 db of
        None \<Rightarrow> (MOSQ_ERR_PROTOCOL, db)
      | Some (mid, db) \<Rightarrow>
          if mid \<noteq> 0
          then case mqtt3_db_message_delete db c mid mosq_md_out of
                 (rc, db) \<Rightarrow> if rc \<noteq> MOSQ_ERR_SUCCESS then (rc, db) else (MOSQ_ERR_SUCCESS, db)
          else (MOSQ_ERR_SUCCESS, db))"

definition mosquitto_handle_pubrec :: "mosq_db \<Rightarrow> nat \<Rightarrow> int \<times> mosq_db" where
  "mosquitto_handle_pubrec db c =
     (case read_in c mosquitto_read_uint16 db of
        None \<Rightarrow> (MOSQ_ERR_PROTOCOL, db)
      | Some (mid, db) \<Rightarrow>
          (case mqtt3_db_message_update db c mid mosq_md_out mosq_ms_wait_for_pubcomp of
             (rc, db) \<Rightarrow>
               if rc \<noteq> MOSQ_ERR_SUCCESS then (rc, db)
               else send_ctx c (\<lambda>now m. mosquitto_send_pubrel now m mid) db))"

text \<open>\<open>fuel\<close> bounds the rounds of \<open>mqtt3_db_message_release\<close>.\<close>

definition mosquitto_handle_pubrel :: "nat \<Rightarrow> mosq_db \<Rightarrow> nat \<Rightarrow> (int \<times> mosq_db) option" where
  "mosquitto_handle_pubrel fuel db c =
     (let m = db_ctx db c
      in if m_protocol m = mosq_p_mqtt311 \<and> pk_command (m_in_packet m) AND 0x0F \<noteq> 0x02
         then Some (MOSQ_ERR_PROTOCOL, db)
         else case read_in c mosquitto_read_uint16 db of
                None \<Rightarrow> Some (MOSQ_ERR_PROTOCOL, db)
              | Some (mid, db) \<Rightarrow>
                  (case mqtt3_db_message_release fuel db c mid mosq_md_in of
                     None \<Rightarrow> None
                   | Some (rc, db) \<Rightarrow> Some (send_ctx c (\<lambda>now m. mosquitto_send_pubcomp now m mid) db)))"

section \<open>PUBLISH\<close>

text \<open>\<open>process_bad_message\<close>: the message is acknowledged and not delivered.\<close>

definition publish_bad :: "mosq_db \<Rightarrow> nat \<Rightarrow> u16 \<Rightarrow> nat \<Rightarrow> int \<times> mosq_db" where
  "publish_bad db c mid qos =
     (if qos = 0 then (MOSQ_ERR_SUCCESS, db)
      else if qos = 1 then send_ctx c (\<lambda>now m. mosquitto_send_puback now m mid) db
      else case mqtt3_db_message_store_find db c mid of
             (found, db) \<Rightarrow>
               (case (case found of
                        None \<Rightarrow>
                          (case mqtt3_db_message_store db (m_id (db_ctx db c)) mid None qos [] False 0 of
                             (stored, db) \<Rightarrow> mqtt3_db_message_insert db c mid mosq_md_in qos False stored)
                      | Some stored \<Rightarrow> (0, db)) of
                  (res, db) \<Rightarrow>
                    if res = 0 then send_ctx c (\<lambda>now m. mosquitto_send_pubrec now m mid) db else (res, db)))"

definition publish_good ::
    "mosq_db \<Rightarrow> nat \<Rightarrow> u16 \<Rightarrow> cstring \<Rightarrow> nat \<Rightarrow> byte list \<Rightarrow> bool \<Rightarrow> int \<times> mosq_db" where
  "publish_good db c mid topic qos payload retain =
     (case (if qos > 0 then mqtt3_db_message_store_find db c mid else (None, db)) of
        (found, db) \<Rightarrow>
          (case (case found of
                   None \<Rightarrow> mqtt3_db_message_store db (m_id (db_ctx db c)) mid (Some topic) qos payload retain 0
                 | Some stored \<Rightarrow> (stored, db)) of
             (stored, db) \<Rightarrow>
               if qos = 0
               then case mqtt3_db_messages_queue db (m_id (db_ctx db c)) topic qos retain stored of
                      (r, db) \<Rightarrow> (if r \<noteq> 0 then 1 else 0, db)
               else if qos = 1
               then case mqtt3_db_messages_queue db (m_id (db_ctx db c)) topic qos retain stored of
                      (r, db) \<Rightarrow>
                        (case send_ctx c (\<lambda>now m. mosquitto_send_puback now m mid) db of
                           (r2, db) \<Rightarrow> (if r \<noteq> 0 \<or> r2 \<noteq> 0 then 1 else 0, db))
               else case (if found = None then mqtt3_db_message_insert db c mid mosq_md_in qos retain stored else (0, db)) of
                      (res, db) \<Rightarrow>
                        if res = 0
                        then case send_ctx c (\<lambda>now m. mosquitto_send_pubrec now m mid) db of
                               (r, db) \<Rightarrow> (if r \<noteq> 0 then 1 else 0, db)
                        else (if res = 1 then 1 else 0, db)))"

definition mqtt3_handle_publish :: "mosq_db \<Rightarrow> nat \<Rightarrow> int \<times> mosq_db" where
  "mqtt3_handle_publish db c =
     (let header = pk_command (m_in_packet (db_ctx db c));
          qos = unat (drop_bit 1 (header AND 0x06)); retain = (header AND 0x01 \<noteq> 0)
      in if qos = 3 then (1, db)
         else case read_in c mosquitto_read_string db of
           None \<Rightarrow> (1, db)
         | Some (topic, db) \<Rightarrow>
             if topic = [] \<or> mosquitto_pub_topic_check topic \<noteq> MOSQ_ERR_SUCCESS then (1, db)
             else case (if qos > 0 then read_in c mosquitto_read_uint16 db else Some (0, db)) of
               None \<Rightarrow> (1, db)
             | Some (mid, db) \<Rightarrow>
                 let p = m_in_packet (db_ctx db c);
                     payloadlen = (pk_remaining_length p + 2 ^ 32 - pk_pos p) mod 2 ^ 32;
                     topic = mounted (mount_point db (db_ctx db c)) topic;
                     limit = cf_message_size_limit (db_config db)
                 in if payloadlen > 0 \<and> limit > 0 \<and> payloadlen > limit then publish_bad db c mid qos
                    else case (if payloadlen > 0 then read_in c (\<lambda>p. mosquitto_read_bytes p payloadlen) db
                               else Some ([], db)) of
                      None \<Rightarrow> (1, db)
                    | Some (payload, db) \<Rightarrow>
                        let rc = mosquitto_acl_check db (db_ctx db c) topic MOSQ_ACL_WRITE
                        in if rc = MOSQ_ERR_ACL_DENIED then publish_bad db c mid qos
                           else if rc \<noteq> MOSQ_ERR_SUCCESS then (rc, db)
                           else publish_good db c mid topic qos payload retain)"

section \<open>SUBSCRIBE, UNSUBSCRIBE and DISCONNECT\<close>

lemma read_progress:
  "mosquitto_read_uint16 p = Some (x, p') \<Longrightarrow> pk_pos p' = pk_pos p + 2 \<and> pk_remaining_length p' = pk_remaining_length p"
  "mosquitto_read_string p = Some (s, p') \<Longrightarrow> pk_pos p + 2 \<le> pk_pos p' \<and> pk_remaining_length p' = pk_remaining_length p"
  "mosquitto_read_byte p = Some (b, p') \<Longrightarrow> pk_pos p' = pk_pos p + 1 \<and> pk_remaining_length p' = pk_remaining_length p"
proof -
  show u: "mosquitto_read_uint16 p = Some (x, p') \<Longrightarrow> pk_pos p' = pk_pos p + 2 \<and> pk_remaining_length p' = pk_remaining_length p"
    for x p' by (auto simp: mosquitto_read_uint16_def Let_def split: if_splits)
  show "mosquitto_read_string p = Some (s, p') \<Longrightarrow> pk_pos p + 2 \<le> pk_pos p' \<and> pk_remaining_length p' = pk_remaining_length p"
    using u by (fastforce simp: mosquitto_read_string_def split: if_splits option.splits prod.splits)
  show "mosquitto_read_byte p = Some (b, p') \<Longrightarrow> pk_pos p' = pk_pos p + 1 \<and> pk_remaining_length p' = pk_remaining_length p"
    by (auto simp: mosquitto_read_byte_def split: if_splits)
qed

text \<open>The loop over the filters of the packet \<open>p\<close>, which is carried along: nothing the loop calls looks at the packet of
  the client. \<open>Inl\<close> is an early return, else the return code, the granted qualities and what is left.\<close>

definition subscribe_one :: "mosq_db \<Rightarrow> nat \<Rightarrow> cstring \<Rightarrow> byte \<Rightarrow> int \<Rightarrow> int \<times> mosq_db" where
  "subscribe_one db c sub qos rc =
     (let sub = mounted (mount_point db (db_ctx db c)) sub
      in case mqtt3_sub_add db c sub (unat qos) of
           (rc2, db) \<Rightarrow>
             if rc2 = MOSQ_ERR_SUCCESS
             then case mqtt3_retain_queue db c sub (unat qos) of (r, db) \<Rightarrow> (if r \<noteq> 0 then 1 else rc, db)
             else (if rc2 \<noteq> -1 then rc2 else rc, db))"

function subscribe_loop :: "mosq_db \<Rightarrow> nat \<Rightarrow> packet \<Rightarrow> int \<Rightarrow> byte list \<Rightarrow> (int + int \<times> byte list) \<times> mosq_db" where
  "subscribe_loop db c p rc payload =
     (if pk_pos p < pk_remaining_length p
      then case mosquitto_read_string p of
             None \<Rightarrow> (Inl 1, db)
           | Some (sub, p) \<Rightarrow>
               if sub = [] \<or> mosquitto_sub_topic_check sub \<noteq> MOSQ_ERR_SUCCESS then (Inl 1, db)
               else case mosquitto_read_byte p of
                      None \<Rightarrow> (Inl 1, db)
                    | Some (qos, p) \<Rightarrow>
                        if qos > 2 then (Inl 1, db)
                        else case subscribe_one db c sub qos rc of
                               (rc, db) \<Rightarrow> subscribe_loop db c p rc (payload @ [qos])
      else (Inr (rc, payload), db))"
  by pat_completeness auto
termination
  by (relation "measure (\<lambda>(db, c, p, rc, payload). pk_remaining_length p - pk_pos p)")
    (auto dest!: read_progress(2,3))

declare subscribe_loop.simps [simp del]

definition mqtt3_handle_subscribe :: "mosq_db \<Rightarrow> nat \<Rightarrow> int \<times> mosq_db" where
  "mqtt3_handle_subscribe db c =
     (let m = db_ctx db c
      in if m_protocol m = mosq_p_mqtt311 \<and> pk_command (m_in_packet m) AND 0x0F \<noteq> 0x02
         then (MOSQ_ERR_PROTOCOL, db)
         else case read_in c mosquitto_read_uint16 db of
                None \<Rightarrow> (1, db)
              | Some (mid, db) \<Rightarrow>
                  (case subscribe_loop db c (m_in_packet (db_ctx db c)) 0 [] of
                     (Inl rc, db) \<Rightarrow> (rc, db)
                   | (Inr (rc, payload), db) \<Rightarrow>
                       if m_protocol (db_ctx db c) = mosq_p_mqtt311 \<and> payload = [] then (MOSQ_ERR_PROTOCOL, db)
                       else case send_ctx c (\<lambda>now m. mosquitto_send_suback now m mid payload) db of
                              (r, db) \<Rightarrow>
                                (if r \<noteq> 0 then 1 else rc,
                                 db\<lparr>db_persistence_changes := db_persistence_changes db + 1\<rparr>)))"

text \<open>The mount point is not put in front of the filters here.\<close>

function unsubscribe_loop :: "mosq_db \<Rightarrow> nat \<Rightarrow> packet \<Rightarrow> bool \<times> mosq_db" where
  "unsubscribe_loop db c p =
     (if pk_pos p < pk_remaining_length p
      then case mosquitto_read_string p of
             None \<Rightarrow> (False, db)
           | Some (sub, p) \<Rightarrow>
               if sub = [] \<or> mosquitto_sub_topic_check sub \<noteq> MOSQ_ERR_SUCCESS then (False, db)
               else unsubscribe_loop (snd (mqtt3_sub_remove db c sub)) c p
      else (True, db))"
  by pat_completeness auto
termination
  by (relation "measure (\<lambda>(db, c, p). pk_remaining_length p - pk_pos p)") (auto dest!: read_progress(2))

declare unsubscribe_loop.simps [simp del]

definition mqtt3_handle_unsubscribe :: "mosq_db \<Rightarrow> nat \<Rightarrow> int \<times> mosq_db" where
  "mqtt3_handle_unsubscribe db c =
     (let m = db_ctx db c
      in if m_protocol m = mosq_p_mqtt311 \<and> pk_command (m_in_packet m) AND 0x0F \<noteq> 0x02
         then (MOSQ_ERR_PROTOCOL, db)
         else case read_in c mosquitto_read_uint16 db of
                None \<Rightarrow> (1, db)
              | Some (mid, db) \<Rightarrow>
                  (case unsubscribe_loop db c (m_in_packet (db_ctx db c)) of
                     (False, db) \<Rightarrow> (1, db)
                   | (True, db) \<Rightarrow>
                       send_ctx c (\<lambda>now m. mosquitto_send_command_with_mid now m UNSUBACK mid False)
                         (db\<lparr>db_persistence_changes := db_persistence_changes db + 1\<rparr>)))"

definition mqtt3_handle_disconnect :: "mosq_db \<Rightarrow> nat \<Rightarrow> int \<times> mosq_db" where
  "mqtt3_handle_disconnect db c =
     (let m = db_ctx db c
      in if pk_remaining_length (m_in_packet m) \<noteq> 0 then (MOSQ_ERR_PROTOCOL, db)
         else if m_protocol m = mosq_p_mqtt311 \<and> pk_command (m_in_packet m) AND 0x0F \<noteq> 0
         then (MOSQ_ERR_PROTOCOL, do_disconnect db c)
         else (MOSQ_ERR_SUCCESS, do_disconnect (upd_ctx c (\<lambda>m. m\<lparr>m_state := mosq_cs_disconnecting\<rparr>) db) c))"

section \<open>CONNECT\<close>

definition PROTOCOL_NAME_v31 :: cstring where "PROTOCOL_NAME_v31 = ''MQIsdp''"
definition PROTOCOL_VERSION_v31 :: byte where "PROTOCOL_VERSION_v31 = 3"
definition PROTOCOL_NAME_v311 :: cstring where "PROTOCOL_NAME_v311 = ''MQTT''"
definition PROTOCOL_VERSION_v311 :: byte where "PROTOCOL_VERSION_v311 = 4"

definition CONNACK_ACCEPTED :: byte where "CONNACK_ACCEPTED = 0"
definition CONNACK_REFUSED_PROTOCOL_VERSION :: byte where "CONNACK_REFUSED_PROTOCOL_VERSION = 1"
definition CONNACK_REFUSED_IDENTIFIER_REJECTED :: byte where "CONNACK_REFUSED_IDENTIFIER_REJECTED = 2"
definition CONNACK_REFUSED_NOT_AUTHORIZED :: byte where "CONNACK_REFUSED_NOT_AUTHORIZED = 5"

text \<open>The stages of the handler give \<open>Inl\<close> the code of \<open>goto handle_connect_error\<close>, or \<open>Inr\<close> what they read.\<close>

definition refuse :: "nat \<Rightarrow> byte \<Rightarrow> mosq_db \<Rightarrow> mosq_db" where
  "refuse c result db = snd (send_ctx c (\<lambda>now m. mosquitto_send_connack now m 0 result) db)"

definition connect_protocol :: "mosq_db \<Rightarrow> nat \<Rightarrow> (int + byte) \<times> mosq_db" where
  "connect_protocol db c =
     (case read_in c mosquitto_read_string db of
        None \<Rightarrow> (Inl 1, db)
      | Some (protocol_name, db) \<Rightarrow>
          (case read_in c mosquitto_read_byte db of
             None \<Rightarrow> (Inl 1, db)
           | Some (version, db) \<Rightarrow>
               if protocol_name = PROTOCOL_NAME_v31
               then if version AND 0x7F \<noteq> PROTOCOL_VERSION_v31
                    then (Inl MOSQ_ERR_PROTOCOL, refuse c CONNACK_REFUSED_PROTOCOL_VERSION db)
                    else (Inr version, upd_ctx c (\<lambda>m. m\<lparr>m_protocol := mosq_p_mqtt31\<rparr>) db)
               else if protocol_name = PROTOCOL_NAME_v311
               then if version AND 0x7F \<noteq> PROTOCOL_VERSION_v311
                    then (Inl MOSQ_ERR_PROTOCOL, refuse c CONNACK_REFUSED_PROTOCOL_VERSION db)
                    else if pk_command (m_in_packet (db_ctx db c)) AND 0x0F \<noteq> 0 then (Inl MOSQ_ERR_PROTOCOL, db)
                    else (Inr version, upd_ctx c (\<lambda>m. m\<lparr>m_protocol := mosq_p_mqtt311\<rparr>) db)
               else (Inl MOSQ_ERR_PROTOCOL, db)))"

record connect_flags =
  fl_clean_session :: bool
  fl_will :: bool
  fl_will_qos :: nat
  fl_will_retain :: bool
  fl_password :: bool
  fl_username :: bool

definition flags_of :: "byte \<Rightarrow> connect_flags" where
  "flags_of b = \<lparr>fl_clean_session = (b AND 0x02 \<noteq> 0), fl_will = (b AND 0x04 \<noteq> 0),
     fl_will_qos = unat (drop_bit 3 (b AND 0x18)), fl_will_retain = (b AND 0x20 \<noteq> 0),
     fl_password = (b AND 0x40 \<noteq> 0), fl_username = (b AND 0x80 \<noteq> 0)\<rparr>"

text \<open>\<open>rand\<close> is what the calls of \<open>rand()\<close> give. The final \<open>client_id[i] = 0\<close> is at index 64 whatever the length of the prefix.\<close>

definition client_id_gen :: "mosq_db \<Rightarrow> (nat \<Rightarrow> nat) \<Rightarrow> cstring" where
  "client_id_gen db rand =
     take 64 ((case cf_auto_id_prefix (db_config db) of None \<Rightarrow> [] | Some pre \<Rightarrow> pre)
              @ map (\<lambda>i. char_of (rand i mod 73 + 48)) [0..<64])"

definition connect_client_id :: "mosq_db \<Rightarrow> nat \<Rightarrow> (nat \<Rightarrow> nat) \<Rightarrow> bool \<Rightarrow> (int + cstring) \<times> mosq_db" where
  "connect_client_id db c rand clean_session =
     (case read_in c mosquitto_read_string db of
        None \<Rightarrow> (Inl 1, db)
      | Some (client_id, db) \<Rightarrow>
          if client_id = [] \<and> (m_protocol (db_ctx db c) = mosq_p_mqtt31 \<or> \<not> clean_session
                                \<or> \<not> cf_allow_zero_length_clientid (db_config db))
          then (Inl MOSQ_ERR_PROTOCOL, refuse c CONNACK_REFUSED_IDENTIFIER_REJECTED db)
          else let client_id = (if client_id = [] then client_id_gen db rand else client_id)
               in case cf_clientid_prefixes (db_config db) of
                    None \<Rightarrow> (Inr client_id, db)
                  | Some pre \<Rightarrow>
                      if take (length pre) client_id \<noteq> pre then (Inl 1, refuse c CONNACK_REFUSED_NOT_AUTHORIZED db)
                      else (Inr client_id, db))"

definition connect_will :: "mosq_db \<Rightarrow> nat \<Rightarrow> connect_flags \<Rightarrow> (int + will_msg option) \<times> mosq_db" where
  "connect_will db c fl =
     (if fl_will fl
      then case read_in c mosquitto_read_string db of
             None \<Rightarrow> (Inl 1, db)
           | Some (topic, db) \<Rightarrow>
               if topic = [] \<or> mosquitto_pub_topic_check topic \<noteq> MOSQ_ERR_SUCCESS then (Inl 1, db)
               else case read_in c mosquitto_read_uint16 db of
                      None \<Rightarrow> (Inl 1, db)
                    | Some (len, db) \<Rightarrow>
                        (case (if len \<noteq> 0 then read_in c (\<lambda>p. mosquitto_read_bytes p (unat len)) db else Some ([], db)) of
                           None \<Rightarrow> (Inl 1, db)
                         | Some (payload, db) \<Rightarrow>
                             (Inr (Some \<lparr>will_topic = topic, will_payload = payload, will_qos = fl_will_qos fl,
                                         will_retain = fl_will_retain fl\<rparr>), db))
      else if m_protocol (db_ctx db c) = mosq_p_mqtt311 \<and> (fl_will_qos fl \<noteq> 0 \<or> fl_will_retain fl)
      then (Inl MOSQ_ERR_PROTOCOL, db)
      else (Inr None, db))"

definition connect_user :: "mosq_db \<Rightarrow> nat \<Rightarrow> connect_flags \<Rightarrow> (int + cstring option \<times> cstring option) \<times> mosq_db" where
  "connect_user db c fl =
     (if fl_username fl
      then case read_in c mosquitto_read_string db of
             None \<Rightarrow>
               (if m_protocol (db_ctx db c) = mosq_p_mqtt311 then Inl MOSQ_ERR_PROTOCOL else Inr (None, None), db)
           | Some (username, db) \<Rightarrow>
               if fl_password fl
               then case read_in c mosquitto_read_string db of
                      None \<Rightarrow>
                        (if m_protocol (db_ctx db c) = mosq_p_mqtt311 then Inl MOSQ_ERR_PROTOCOL
                         else Inr (Some username, None), db)
                    | Some (password, db) \<Rightarrow> (Inr (Some username, Some password), db)
               else (Inr (Some username, None), db)
      else if m_protocol (db_ctx db c) = mosq_p_mqtt311 \<and> fl_password fl then (Inl MOSQ_ERR_PROTOCOL, db)
      else (Inr (None, None), db))"

text \<open>A missing name or password is taken as the empty string, and \<open>username_flag\<close> is set: the test of
  \<open>allow_anonymous\<close> behind it never holds.\<close>

definition connect_auth :: "mosq_db \<Rightarrow> nat \<Rightarrow> cstring option \<times> cstring option \<Rightarrow> (int + unit) \<times> mosq_db" where
  "connect_auth db c user =
     (let username = (case fst user of None \<Rightarrow> [] | Some u \<Rightarrow> u); password = (case snd user of None \<Rightarrow> [] | Some p \<Rightarrow> p);
          rc = mosquitto_unpwd_check db username password
      in if rc = MOSQ_ERR_SUCCESS
         then (Inr (), upd_ctx c (\<lambda>m. m\<lparr>m_username := Some username, m_password := Some password\<rparr>) db)
         else if rc = MOSQ_ERR_AUTH
         then (Inl 1, mqtt3_context_disconnect (refuse c CONNACK_REFUSED_NOT_AUTHORIZED db) c)
         else (Inl 1, mqtt3_context_disconnect db c))"

text \<open>A listener may make the user name the client identifier.\<close>

definition connect_rename :: "mosq_db \<Rightarrow> nat \<Rightarrow> cstring \<Rightarrow> (int + cstring) \<times> mosq_db" where
  "connect_rename db c client_id =
     (case m_listener (db_ctx db c) of
        Some l \<Rightarrow>
          if li_use_username_as_clientid (cf_listeners (db_config db) ! l)
          then case m_username (db_ctx db c) of
                 Some u \<Rightarrow> (Inr u, db)
               | None \<Rightarrow> (Inl 1, refuse c CONNACK_REFUSED_NOT_AUTHORIZED db)
          else (Inr client_id, db)
      | None \<Rightarrow> (Inr client_id, db))"

text \<open>The leaves of the client \<open>f\<close> at the nodes of the array are given to \<open>c\<close>.\<close>

definition rename_leaves :: "nat \<Rightarrow> nat \<Rightarrow> (nat \<times> nat) list \<Rightarrow> (nat \<times> nat) list" where
  "rename_leaves f c ls = map (\<lambda>(d, q). (if d = f then c else d, q)) ls"

fun rename_at :: "nat \<Rightarrow> nat \<Rightarrow> cstring list \<Rightarrow> subhier list \<Rightarrow> subhier list option" where
  "rename_at f c [] hs = None"
| "rename_at f c (tok # toks) hs =
     (case find_branch tok hs of
        None \<Rightarrow> None
      | Some (l, b, r) \<Rightarrow>
          if toks = [] then Some (l @ set_subs (rename_leaves f c (h_subs b)) b # r)
          else map_option (\<lambda>ch. l @ set_children ch b # r) (rename_at f c toks (h_children b)))"

definition rename_slot :: "nat \<Rightarrow> nat \<Rightarrow> mosq_db \<Rightarrow> cstring list option \<Rightarrow> mosq_db" where
  "rename_slot f c db slot =
     (case slot of
        None \<Rightarrow> db
      | Some path \<Rightarrow> (case rename_at f c path (db_subs db) of None \<Rightarrow> set_ub db | Some hs \<Rightarrow> db\<lparr>db_subs := hs\<rparr>))"

text \<open>The session of the client \<open>f\<close> with the same identifier: it is taken over if both are persistent, and \<open>f\<close> is
  disconnected without its will.\<close>

definition inherit_session :: "mosq_db \<Rightarrow> nat \<Rightarrow> nat \<Rightarrow> mosq_db" where
  "inherit_session db c f =
     (let db = (if m_msgs (db_ctx db f) \<noteq> []
                then snd (mqtt3_db_message_reconnect_reset
                            (upd_ctx f (\<lambda>m. m\<lparr>m_msgs := []\<rparr>) (set_msgs c (m_msgs (db_ctx db f)) db)) c)
                else db);
          subs = m_subs (db_ctx db f);
          db = upd_ctx f (\<lambda>m. m\<lparr>m_subs := []\<rparr>) (upd_ctx c (\<lambda>m. m\<lparr>m_subs := subs\<rparr>) db)
      in foldl (rename_slot f c) db subs)"

definition connect_takeover :: "mosq_db \<Rightarrow> nat \<Rightarrow> cstring \<Rightarrow> bool \<Rightarrow> byte \<times> mosq_db" where
  "connect_takeover db c client_id clean_session =
     (case hash_find_id client_id db of
        None \<Rightarrow> (0, db)
      | Some f \<Rightarrow>
          let db = touch_ctx f db;
              ack = (if m_protocol (db_ctx db c) = mosq_p_mqtt311 \<and> \<not> clean_session then 1 else 0);
              db = upd_ctx c (\<lambda>m. m\<lparr>m_clean_session := clean_session\<rparr>) db;
              db = (if \<not> clean_session \<and> \<not> m_clean_session (db_ctx db f) then inherit_session db c f else db);
              db = upd_ctx f (\<lambda>m. m\<lparr>m_clean_session := True, m_state := mosq_cs_disconnecting\<rparr>) db
          in (ack, do_disconnect db f))"

text \<open>The ACL of the client: with no list at all it is taken away.\<close>

definition connect_acl :: "mosq_db \<Rightarrow> nat \<Rightarrow> mosq_db" where
  "connect_acl db c =
     (if db_acl_list db = [] then upd_ctx c (\<lambda>m. m\<lparr>m_acl_list := None\<rparr>) db
      else case find_acl_user (db_acl_list db) (m_username (db_ctx db c)) of
             None \<Rightarrow> db | Some u \<Rightarrow> upd_ctx c (\<lambda>m. m\<lparr>m_acl_list := Some u\<rparr>) db)"

text \<open>The outgoing messages the client may no longer read are taken out; \<open>msg_count\<close>, \<open>msg_count12\<close> and \<open>last_msg\<close> stay.\<close>

fun purge_loop :: "mosq_db \<Rightarrow> nat \<Rightarrow> client_msg list \<Rightarrow> client_msg list \<Rightarrow> mosq_db" where
  "purge_loop db c pre [] = set_msgs c pre db"
| "purge_loop db c pre (x # rest) =
     (if cm_direction x = mosq_md_out
      then let db = touch_store (cm_store x) db
           in case st_topic (db_store db (cm_store x)) of
                None \<Rightarrow> purge_loop (set_ub db) c (pre @ [x]) rest
              | Some topic \<Rightarrow>
                  if mosquitto_acl_check db (db_ctx db c) topic MOSQ_ACL_READ \<noteq> MOSQ_ERR_SUCCESS
                  then let db = db_msg_store_deref db (cm_store x);
                           db = (if rest = [] then upd_ctx c (\<lambda>m. m\<lparr>m_last_msg := LFreed\<rparr>) db else db)
                       in purge_loop db c pre rest
                  else purge_loop db c (pre @ [x]) rest
      else purge_loop db c (pre @ [x]) rest)"

text \<open>From the ACL on the connection is accepted.\<close>

definition connect_accept :: "mosq_db \<Rightarrow> nat \<Rightarrow> cstring \<Rightarrow> bool \<Rightarrow> will_msg option \<Rightarrow> byte \<Rightarrow> byte \<Rightarrow> int \<times> mosq_db" where
  "connect_accept db c client_id clean_session will version ack =
     (let db = connect_acl db c;
          db = upd_ctx c (\<lambda>m. m\<lparr>m_will := (case will of None \<Rightarrow> m_will m | Some w \<Rightarrow> Some w), m_id := Some client_id,
                              m_clean_session := clean_session, m_ping_t := 0, m_is_dropping := False,
                              m_is_bridge := (m_is_bridge m \<or> version AND 0x80 = 0x80)\<rparr>) db;
          db = purge_loop db c [] (m_msgs (db_ctx db c));
          db = hash_add_id client_id c db;
          db = (if \<not> clean_session then db\<lparr>db_persistence_changes := db_persistence_changes db + 1\<rparr> else db);
          db = upd_ctx c (\<lambda>m. m\<lparr>m_state := mosq_cs_connected\<rparr>) db
      in send_ctx c (\<lambda>now m. mosquitto_send_connack now m ack CONNACK_ACCEPTED) db)"

definition mqtt3_handle_connect :: "(nat \<Rightarrow> nat) \<Rightarrow> mosq_db \<Rightarrow> nat \<Rightarrow> int \<times> mosq_db" where
  "mqtt3_handle_connect rand db c =
     (if m_state (db_ctx db c) \<noteq> mosq_cs_new then (MOSQ_ERR_PROTOCOL, db)
      else case connect_protocol db c of
        (Inl rc, db) \<Rightarrow> (rc, db)
      | (Inr version, db) \<Rightarrow>
      case read_in c mosquitto_read_byte db of
        None \<Rightarrow> (1, db)
      | Some (connect_flags, db) \<Rightarrow>
      let fl = flags_of connect_flags
      in if fl_will_qos fl = 3 then (MOSQ_ERR_PROTOCOL, db)
      else case read_in c mosquitto_read_uint16 db of
        None \<Rightarrow> (1, db)
      | Some (keepalive, db) \<Rightarrow>
      case connect_client_id (upd_ctx c (\<lambda>m. m\<lparr>m_keepalive := keepalive\<rparr>) db) c rand (fl_clean_session fl) of
        (Inl rc, db) \<Rightarrow> (rc, db)
      | (Inr client_id, db) \<Rightarrow>
      case connect_will db c fl of
        (Inl rc, db) \<Rightarrow> (rc, db)
      | (Inr will, db) \<Rightarrow>
      case connect_user db c fl of
        (Inl rc, db) \<Rightarrow> (rc, db)
      | (Inr user, db) \<Rightarrow>
      case connect_auth db c user of
        (Inl rc, db) \<Rightarrow> (rc, db)
      | (Inr _, db) \<Rightarrow>
      case connect_rename db c client_id of
        (Inl rc, db) \<Rightarrow> (rc, db)
      | (Inr client_id, db) \<Rightarrow>
      case connect_takeover db c client_id (fl_clean_session fl) of
        (ack, db) \<Rightarrow> connect_accept db c client_id (fl_clean_session fl) will version ack)"

section \<open>Dispatch\<close>

definition mqtt3_packet_handle :: "nat \<Rightarrow> (nat \<Rightarrow> nat) \<Rightarrow> mosq_db \<Rightarrow> nat \<Rightarrow> (int \<times> mosq_db) option" where
  "mqtt3_packet_handle fuel rand db c =
     (let command = pk_command (m_in_packet (db_ctx db c)) AND 0xF0
      in if command = PINGREQ then Some (mosquitto_handle_pingreq db c)
         else if command = PINGRESP then Some (mosquitto_handle_pingresp db c)
         else if command = PUBACK \<or> command = PUBCOMP then Some (mosquitto_handle_pubackcomp db c)
         else if command = PUBLISH then Some (mqtt3_handle_publish db c)
         else if command = PUBREC then Some (mosquitto_handle_pubrec db c)
         else if command = PUBREL then mosquitto_handle_pubrel fuel db c
         else if command = CONNECT then Some (mqtt3_handle_connect rand db c)
         else if command = DISCONNECT then Some (mqtt3_handle_disconnect db c)
         else if command = SUBSCRIBE then Some (mqtt3_handle_subscribe db c)
         else if command = UNSUBSCRIBE then Some (mqtt3_handle_unsubscribe db c)
         else Some (MOSQ_ERR_PROTOCOL, db))"

text \<open>\<open>_mosquitto_packet_read\<close>: a complete packet is handled and thrown away.\<close>

definition mosquitto_packet_read :: "nat \<Rightarrow> (nat \<Rightarrow> nat) \<Rightarrow> mosq_db \<Rightarrow> nat \<Rightarrow> (int \<times> mosq_db) option" where
  "mosquitto_packet_read fuel rand db c =
     (case mosquitto_packet_recv (db_now db) (db_ctx db c) of
        (Some rc, m) \<Rightarrow> Some (rc, upd_ctx c (\<lambda>_. m) db)
      | (None, m) \<Rightarrow>
          (case mqtt3_packet_handle fuel rand (upd_ctx c (\<lambda>_. m) db) c of
             None \<Rightarrow> None
           | Some (rc, db) \<Rightarrow>
               Some (rc, upd_ctx c (\<lambda>m. m\<lparr>m_in_packet := mosquitto_packet_cleanup (m_in_packet m),
                                          m_last_msg_in := db_now db\<rparr>) db)))"

section \<open>The main loop\<close>

text \<open>One round of \<open>mosquitto_main_loop\<close> is a sequence of the following steps. What the clients of the table get done
  before \<open>poll\<close>: the ones silent for too long and those whose queue cannot be written are disconnected.\<close>

definition loop_client :: "mosq_db \<Rightarrow> nat \<Rightarrow> mosq_db option" where
  "loop_client db c =
     (let m = db_ctx db c
      in if m_sock m = None then Some db
         else if m_keepalive m = 0 \<or> db_now db - m_last_msg_in m < int (unat (m_keepalive m)) * 3 div 2
         then case mqtt3_db_message_write db c of
                None \<Rightarrow> None
              | Some (rc, db) \<Rightarrow> Some (if rc = MOSQ_ERR_SUCCESS then db else do_disconnect db c)
         else Some (do_disconnect db c))"

text \<open>A persistent client that has been away for too long.\<close>

definition loop_expire :: "mosq_db \<Rightarrow> nat \<Rightarrow> mosq_db" where
  "loop_expire db c =
     (let m = db_ctx db c
      in if m_sock m = None \<and> \<not> m_clean_session m
            \<and> db_now db > m_disconnect_t m + cf_persistent_client_expiration (db_config db)
         then do_disconnect (upd_ctx c (\<lambda>m. m\<lparr>m_clean_session := True, m_state := mosq_cs_expiring\<rparr>) db) c
         else db)"

text \<open>\<open>loop_handle_reads_writes\<close> for a client whose socket accepts bytes, and for one that has bytes; \<open>err\<close> is what
  \<open>getsockopt\<close> gives for a connection that is still being made.\<close>

definition loop_write :: "int option \<Rightarrow> mosq_db \<Rightarrow> nat \<Rightarrow> mosq_db" where
  "loop_write err db c =
     (if m_state (db_ctx db c) = mosq_cs_connect_pending \<and> err = None then do_disconnect db c
      else let db = (if m_state (db_ctx db c) = mosq_cs_connect_pending \<and> err = Some 0
                     then upd_ctx c (\<lambda>m. m\<lparr>m_state := mosq_cs_new\<rparr>) db else db)
           in case on_ctx c (mosquitto_packet_write (db_now db)) db of
                (rc, db) \<Rightarrow> if rc \<noteq> MOSQ_ERR_SUCCESS then do_disconnect db c else db)"

definition loop_read :: "nat \<Rightarrow> (nat \<Rightarrow> nat) \<Rightarrow> mosq_db \<Rightarrow> nat \<Rightarrow> mosq_db option" where
  "loop_read fuel rand db c =
     (case mosquitto_packet_read fuel rand db c of
        None \<Rightarrow> None
      | Some (rc, db) \<Rightarrow> Some (if rc \<noteq> MOSQ_ERR_SUCCESS then do_disconnect db c else db))"

text \<open>\<open>loop_handle_errors\<close>: the clients with an error are disconnected.\<close>

definition loop_handle_errors :: "(nat \<Rightarrow> bool) \<Rightarrow> mosq_db \<Rightarrow> mosq_db" where
  "loop_handle_errors err db = foldl (\<lambda>db c. if err c then do_disconnect db c else db) db (db_contexts_by_sock db)"

end
