(* ===== verification/Mqtt_Tree_Laws.thy ===== *)
theory Mqtt_Tree_Laws
  imports Mqtt_Subs_Laws Mqtt_Handlers
begin

text \<open>
  How the operations on the subscription tree (\<^verbatim>\<open>src/subs.c\<close>, and the renaming of leaves in
  \<^verbatim>\<open>mqtt3_handle_connect\<close>) act on what the tree points at: the references of its retained messages stay, its leaves
  stay with allocated clients. With this every operation on the tree keeps the invariant of the database. Besides: publishing and sending retained messages
  put only messages into queues that have a topic, and leave the queues of clients without an identifier alone.
\<close>

section \<open>References and leaves under the operations on the tree\<close>

text \<open>\<open>holds A hs\<close>: every leaf in a forest belongs to a client of \<open>A\<close> and has a quality.\<close>

definition leaf_in :: "nat set \<Rightarrow> nat \<times> nat \<Rightarrow> bool" where
  "leaf_in A l \<longleftrightarrow> fst l \<in> A \<and> snd l \<le> 2"

lemma leaf_in_Pair [simp]: "leaf_in A (d, q) \<longleftrightarrow> d \<in> A \<and> q \<le> 2"
  by (simp add: leaf_in_def)

definition refs :: "subhier \<Rightarrow> nat \<Rightarrow> nat" where
  "refs h s = oref (h_retained h) s + tree_refs (h_children h) s"

definition holds :: "nat set \<Rightarrow> subhier list \<Rightarrow> bool" where
  "holds A hs \<longleftrightarrow> (\<forall>l \<in> set (tree_leaves hs). leaf_in A l)"

lemma refs_Cons: "tree_refs (h # hs) s = refs h s + tree_refs hs s"
  by (simp add: refs_def tree_refs_Cons)

lemma holds_simps [simp]:
  "holds A []" "holds A (hs @ gs) \<longleftrightarrow> holds A hs \<and> holds A gs"
  "holds A (h # hs) \<longleftrightarrow> (\<forall>l \<in> set (h_subs h). leaf_in A l) \<and> holds A (h_children h) \<and> holds A hs"
  by (auto simp: holds_def tree_leaves_Cons)

lemma refs_set [simp]:
  "refs (set_children ch h) s = oref (h_retained h) s + tree_refs ch s" "refs (set_subs ls h) s = refs h s"
  by (simp_all add: refs_def)

lemma resubscribe_holds:
  "resubscribe db cid qos ls = (Some ls', db') \<Longrightarrow> \<forall>l \<in> set ls. leaf_in A l \<Longrightarrow> qos \<le> 2 \<Longrightarrow> \<forall>l \<in> set ls'. leaf_in A l"
proof (induction db cid qos ls arbitrary: ls' rule: resubscribe.induct)
  case (2 db cid qos c q ls)
  let ?d = "touch_ctx c db"
  show ?case
  proof (cases "m_id (db_ctx ?d c) = Some cid")
    case True
    then show ?thesis using "2.prems" by (auto simp: Let_def)
  next
    case False
    then obtain ls1 where l1: "resubscribe ?d cid qos ls = (Some ls1, db')" "ls' = (c, q) # ls1"
      using "2.prems"(1) by (auto simp: Let_def split: option.splits prod.splits)
    then show ?thesis using "2.IH" [OF refl False l1(1)] "2.prems" by simp
  qed
qed simp

lemma sub_add_leaf_refs:
  assumes "sub_add_leaf db c qos path h = (rc, h', db')" "\<forall>l \<in> set (h_subs h). leaf_in A l" "c \<in> A" "qos \<le> 2"
  shows "refs h' s = refs h s \<and> h_children h' = h_children h \<and> (\<forall>l \<in> set (h_subs h'). leaf_in A l)"
proof (cases "m_id (db_ctx (touch_ctx c db) c)")
  case None
  then show ?thesis using assms(1,2) by (simp add: sub_add_leaf_def Let_def)
next
  case (Some cid)
  obtain r d where r: "resubscribe (touch_ctx c db) cid qos (h_subs h) = (r, d)" by fastforce
  show ?thesis
  proof (cases r)
    case None
    then show ?thesis using assms Some r by (auto simp: sub_add_leaf_def Let_def)
  next
    case ls: (Some ls)
    have "\<forall>l \<in> set ls. leaf_in A l" using resubscribe_holds [OF r [unfolded ls] assms(2,4)] .
    moreover have "h' = set_subs ls h" using assms(1) r ls Some by (simp add: sub_add_leaf_def Let_def)
    ultimately show ?thesis by simp
  qed
qed

lemma sub_add_node_refs:
  "\<lbrakk>sub_add_node db (Some c) qos path h toks = (rc, h', db'); holds A [h]; c \<in> A; qos \<le> 2\<rbrakk> \<Longrightarrow>
   refs h' s = refs h s \<and> holds A [h']"
proof (induction toks arbitrary: db path h rc h' db')
  case Nil
  then show ?case using sub_add_leaf_refs [of db c qos path h rc h' db' A s] by simp
next
  case (Cons tok toks)
  show ?case
  proof (cases "find_branch tok (h_children h)")
    case None
    obtain rc1 b d where b: "sub_add_node db (Some c) qos (path @ [tok]) (Subhier tok [] None []) toks = (rc1, b, d)"
      by (metis prod_cases3)
    have "refs b s = 0 \<and> holds A [b]" using Cons.IH [OF b _ Cons.prems(3,4)] by (simp add: refs_def oref_def)
    then show ?thesis using Cons.prems None b by (auto simp: refs_Cons refs_def)
  next
    case (Some t)
    obtain l b r where t: "t = (l, b, r)" by (metis prod_cases3)
    obtain rc1 b' d where b: "sub_add_node db (Some c) qos (path @ [tok]) b toks = (rc1, b', d)" by (metis prod_cases3)
    have hs: "h_children h = l @ b # r" using find_branch_Some Some t by blast
    then have "refs b' s = refs b s \<and> holds A [b']" using Cons.prems by (intro Cons.IH [OF b]) auto
    then show ?thesis using Cons.prems Some t b hs by (auto simp: refs_Cons refs_def)
  qed
qed

lemma sub_add_refs:
  assumes r: "mqtt3_sub_add db c sub qos = (rc, db')" and A: "holds A (db_subs db)" "c \<in> A" "qos \<le> 2"
  shows "tree_refs (db_subs db') s = tree_refs (db_subs db) s \<and> holds A (db_subs db')"
proof -
  let ?t = "sub_topic_tokenise sub"
  show ?thesis
  proof (cases "find_branch (hd ?t) (db_subs db)")
    case None
    obtain rc1 b d where b: "sub_add_node db (Some c) qos [hd ?t] (Subhier (hd ?t) [] None []) ?t = (rc1, b, d)" by (metis prod_cases3)
    have "refs b s = 0 \<and> holds A [b]" using sub_add_node_refs [OF b _ A(2,3), of s] by (simp add: refs_def oref_def)
    moreover have "db_subs db' = b # db_subs d"
      using r None b by (auto simp: mqtt3_sub_add_def Let_def split: if_splits)
    moreover have "db_subs d = db_subs db" by (rule sub_add_node_subs [OF b])
    ultimately show ?thesis using A(1) by (simp add: refs_Cons)
  next
    case (Some t)
    obtain l b r' where t: "t = (l, b, r')" by (metis prod_cases3)
    obtain rc1 b' d where b: "sub_add_node db (Some c) qos [hd ?t] b ?t = (rc1, b', d)" by (metis prod_cases3)
    have hs: "db_subs db = l @ b # r'" using find_branch_Some Some t by blast
    have "refs b' s = refs b s \<and> holds A [b']" using A hs by (intro sub_add_node_refs [OF b]) auto
    moreover have "db_subs db' = l @ b' # r'" using r Some t b by (auto simp: mqtt3_sub_add_def Let_def split: if_splits)
    ultimately show ?thesis using A(1) hs by (simp add: refs_Cons)
  qed
qed

lemma drop_leaf_holds: "drop_leaf c ls = Some ls' \<Longrightarrow> set ls' \<subseteq> set ls"
proof (induction ls arbitrary: ls')
  case (Cons l ls)
  then show ?case by (cases l) (auto split: if_splits)
qed simp

lemma sub_remove_node_refs:
  "sub_remove_node db c path h toks = (h', db') \<Longrightarrow> holds A [h] \<Longrightarrow> refs h' s = refs h s \<and> holds A [h']"
proof (induction toks arbitrary: db path h h' db')
  case Nil
  then show ?case using drop_leaf_holds by (fastforce split: option.splits)
next
  case (Cons tok toks)
  show ?case
  proof (cases "find_branch tok (h_children h)")
    case None
    then show ?thesis using Cons.prems by simp
  next
    case (Some t)
    obtain l b r where t: "t = (l, b, r)" by (metis prod_cases3)
    obtain b' d where b: "sub_remove_node db c (path @ [tok]) b toks = (b', d)" by fastforce
    have hs: "h_children h = l @ b # r" using find_branch_Some Some t by blast
    then have "refs b' s = refs b s \<and> holds A [b']" using Cons.prems by (intro Cons.IH [OF b]) auto
    moreover have "is_unused b' \<Longrightarrow> refs b' s = 0" by (simp add: is_unused_def refs_def oref_def)
    ultimately show ?thesis using Cons.prems Some t b hs by (cases "is_unused b'") (auto simp: refs_Cons refs_def)
  qed
qed

lemma sub_remove_node_subs: "sub_remove_node db c path h toks = (h', db') \<Longrightarrow> db_subs db' = db_subs db"
  by (induction toks arbitrary: path h h' db') (fastforce split: option.splits prod.splits)+

lemma sub_remove_refs:
  assumes r: "mqtt3_sub_remove db c sub = (rc, db')" and A: "holds A (db_subs db)"
  shows "tree_refs (db_subs db') s = tree_refs (db_subs db) s \<and> holds A (db_subs db')"
proof -
  let ?t = "sub_topic_tokenise sub"
  show ?thesis
  proof (cases "find_branch (hd ?t) (db_subs db)")
    case None
    then show ?thesis using r A by (simp add: mqtt3_sub_remove_def Let_def)
  next
    case (Some t)
    obtain l b r' where t: "t = (l, b, r')" by (metis prod_cases3)
    obtain b' d where b: "sub_remove_node db c [hd ?t] b ?t = (b', d)" by fastforce
    have hs: "db_subs db = l @ b # r'" using find_branch_Some Some t by blast
    have "refs b' s = refs b s \<and> holds A [b']" using A hs by (intro sub_remove_node_refs [OF b]) auto
    moreover have "db_subs db' = l @ b' # r'" using r Some t b by (auto simp: mqtt3_sub_remove_def Let_def)
    ultimately show ?thesis using A(1) hs by (simp add: refs_Cons)
  qed
qed

text \<open>Cleaning and renaming at a path.\<close>

lemma clean_at_refs:
  "clean_at c p hs = Some hs' \<Longrightarrow> holds A hs \<Longrightarrow> tree_refs hs' s = tree_refs hs s \<and> holds A hs'"
proof (induction c p hs arbitrary: hs' rule: clean_at.induct)
  case (2 c tok toks hs)
  obtain l b r where f: "find_branch tok hs = Some (l, b, r)" using "2.prems"(1) by (auto split: option.splits)
  have hs: "hs = l @ b # r" using find_branch_Some f by blast
  show ?case
  proof (cases "toks = []")
    case True
    then show ?thesis using "2.prems" f hs drop_leaf_holds
      by (fastforce simp: refs_Cons split: option.splits)
  next
    case False
    then obtain ch where ch: "clean_at c toks (h_children b) = Some ch" "hs' = l @ set_children ch b # r"
      using "2.prems"(1) f by auto
    have "tree_refs ch s = tree_refs (h_children b) s \<and> holds A ch"
      using "2.IH" [OF f refl refl False ch(1)] "2.prems"(2) hs by simp
    then show ?thesis using ch(2) hs "2.prems"(2) by (simp add: refs_Cons refs_def)
  qed
qed simp

lemma rename_leaves_in: "\<forall>l \<in> set ls. leaf_in A l \<Longrightarrow> c \<in> A \<Longrightarrow> \<forall>l \<in> set (rename_leaves f c ls). leaf_in A l"
  by (fastforce simp: rename_leaves_def leaf_in_def)

lemma rename_at_refs:
  "rename_at f c p hs = Some hs' \<Longrightarrow> holds A hs \<Longrightarrow> c \<in> A \<Longrightarrow> tree_refs hs' s = tree_refs hs s \<and> holds A hs'"
proof (induction f c p hs arbitrary: hs' rule: rename_at.induct)
  case (2 f c tok toks hs)
  obtain l b r where fb: "find_branch tok hs = Some (l, b, r)" using "2.prems"(1) by (auto split: option.splits)
  have hs: "hs = l @ b # r" using find_branch_Some fb by blast
  show ?case
  proof (cases "toks = []")
    case True
    then show ?thesis using "2.prems" fb hs rename_leaves_in by (auto simp: refs_Cons)
  next
    case False
    then obtain ch where ch: "rename_at f c toks (h_children b) = Some ch" "hs' = l @ set_children ch b # r"
      using "2.prems"(1) fb by auto
    have "tree_refs ch s = tree_refs (h_children b) s \<and> holds A ch"
      using "2.IH" [OF fb refl refl False ch(1) _ "2.prems"(3)] "2.prems"(2) hs by simp
    then show ?thesis using ch(2) hs "2.prems"(2) by (simp add: refs_Cons refs_def)
  qed
qed simp

section \<open>The invariant under the operations on the tree\<close>

definition clients :: "mosq_db \<Rightarrow> nat set" where
  "clients db = {c. c < db_next_ctx db \<and> m_live (db_ctx db c)}"

lemma tree_ok_holds: "tree_ok db \<longleftrightarrow> queues_ok db (tree_refs (db_subs db)) \<and> holds (clients db) (db_subs db)"
  by (auto simp: tree_ok_def holds_def leaf_ok_def leaf_in_def clients_def)

lemma clients_upd [simp]:
  "clients (db\<lparr>db_subs := hs\<rparr>) = clients db" "m_live (f (db_ctx db c)) = m_live (db_ctx db c) \<Longrightarrow> clients (upd_ctx c f db) = clients db"
  by (auto simp: clients_def)

lemma tree_ok_subs:
  assumes t: "tree_ok db" and r: "\<And>s. tree_refs hs s = tree_refs (db_subs db) s" and h: "holds (clients db) hs"
  shows "tree_ok (upd_ctx c (\<lambda>m. m\<lparr>m_subs := f m\<rparr>) (db\<lparr>db_subs := hs\<rparr>))" "tree_ok (db\<lparr>db_subs := hs\<rparr>)"
proof -
  have e: "tree_refs hs = tree_refs (db_subs db)" using r by (rule ext)
  show s: "tree_ok (db\<lparr>db_subs := hs\<rparr>)" using t h by (simp add: tree_ok_holds e queues_ok_upd)
  then show "tree_ok (upd_ctx c (\<lambda>m. m\<lparr>m_subs := f m\<rparr>) (db\<lparr>db_subs := hs\<rparr>))"
    by (simp add: tree_ok_holds queues_ok_ctx)
qed

text \<open>Subscribing, unsubscribing and cleaning change the tree and the array of the client.\<close>

definition subs_step :: "nat \<Rightarrow> mosq_db \<Rightarrow> mosq_db \<Rightarrow> bool" where
  "subs_step c db db' \<longleftrightarrow> (\<exists>f hs. db' = upd_ctx c (\<lambda>m. m\<lparr>m_subs := f m\<rparr>) (db\<lparr>db_subs := hs\<rparr>))"

lemma subs_stepI:
  assumes "db' = (if b then upd_ctx c (\<lambda>m. m\<lparr>m_subs := g (m_subs m)\<rparr>) db else db)\<lparr>db_subs := hs\<rparr>"
  shows "subs_step c db db'"
proof (cases b)
  case True
  then show ?thesis
    unfolding subs_step_def assms by (intro exI [of _ "\<lambda>m. g (m_subs m)"] exI [of _ hs]) (simp add: upd_ctx_def)
next
  case False
  then show ?thesis unfolding subs_step_def assms by (intro exI [of _ m_subs] exI [of _ hs]) (simp add: upd_ctx_def)
qed

lemma subs_stepI':
  assumes "db' = (if b then db else upd_ctx c (\<lambda>m. m\<lparr>m_subs := g (m_subs m)\<rparr>) db)\<lparr>db_subs := hs\<rparr>"
  shows "subs_step c db db'"
  by (rule subs_stepI [where b = "\<not> b" and g = g and hs = hs]) (cases b; simp add: assms)

lemma subs_step_tree_ok:
  assumes s: "subs_step c db db'" and t: "tree_ok db"
    and a: "\<And>s. tree_refs (db_subs db') s = tree_refs (db_subs db) s \<and> holds (clients db) (db_subs db')"
  shows "tree_ok db'"
proof -
  obtain f hs where u: "db' = upd_ctx c (\<lambda>m. m\<lparr>m_subs := f m\<rparr>) (db\<lparr>db_subs := hs\<rparr>)" using s by (auto simp: subs_step_def)
  then have "db_subs db' = hs" by simp
  then show ?thesis using a unfolding u by (intro tree_ok_subs(1) [OF t]) simp_all
qed

lemma sub_add_step:
  assumes t: "tree_ok db" and ok: "subs_ok db" and c: "c \<in> clients db" "m_id (db_ctx db c) = Some cid"
    and q: "qos \<le> 2" and r: "mqtt3_sub_add db c sub qos = (rc, db')"
  shows "tree_ok db'" "subs_step c db db'" "rc = 0"
proof -
  have cl: "m_live (db_ctx db c)" using c by (simp add: clients_def)
  have i: "ids_of db c = Some cid" using c by (simp add: ids_of_def)
  have l: "live_leaves db (root_of db)" using ok by (simp add: subs_ok_def)
  have a: "tree_refs (db_subs db') s = tree_refs (db_subs db) s \<and> holds (clients db) (db_subs db')" for s
    using t c(1) q by (intro sub_add_refs [OF r]) (auto simp: tree_ok_holds)
  note sp = sub_add_spec [OF l cl i r, of "[]"]
  show st: "subs_step c db db'" using sp by (elim conjE) (rule subs_stepI)
  show "rc = 0" using sp by blast
  show "tree_ok db'" by (rule subs_step_tree_ok [OF st t a])
qed

lemma sub_remove_step:
  assumes t: "tree_ok db" and ok: "subs_ok db" and r: "mqtt3_sub_remove db c sub = (rc, db')"
  shows "tree_ok db'" "subs_step c db db'"
proof -
  have w: "wf_node (root_of db)" using ok by (simp add: subs_ok_def)
  have a: "tree_refs (db_subs db') s = tree_refs (db_subs db) s \<and> holds (clients db) (db_subs db')" for s
    using t by (intro sub_remove_refs [OF r]) (simp add: tree_ok_holds)
  note sp = sub_remove_spec [OF w r, of "[]"]
  show st: "subs_step c db db'"
    using sp by (elim conjE) (rule subs_stepI')
  show "tree_ok db'" by (rule subs_step_tree_ok [OF st t a])
qed

lemma clean_session_refs:
  assumes r: "mqtt3_subs_clean_session db c = (rc, db')" and h: "holds A (db_subs db)"
  shows "tree_refs (db_subs db') s = tree_refs (db_subs db) s \<and> holds A (db_subs db')"
proof -
  have cl: "tree_refs (db_subs (clean_slot c d x)) t = tree_refs (db_subs d) t \<and> holds A (db_subs (clean_slot c d x))"
    if "holds A (db_subs d)" for d t x
    using that clean_at_refs [of c "the x" "db_subs d"] by (auto simp: clean_slot_def set_ub_def split: option.split)
  have "holds A (db_subs d) \<Longrightarrow> tree_refs (db_subs (foldl (clean_slot c) d ss)) t = tree_refs (db_subs d) t \<and> holds A (db_subs (foldl (clean_slot c) d ss))"
    for d t ss
    by (induction ss arbitrary: d) (simp_all add: cl)
  then show ?thesis using r h by (auto simp: mqtt3_subs_clean_session_def)
qed

lemma clean_session_step:
  assumes t: "tree_ok db" and ok: "subs_ok db" and r: "mqtt3_subs_clean_session db c = (rc, db')"
  shows "tree_ok db'" "subs_step c db db'"
proof -
  obtain hs where e: "db' = upd_ctx c (\<lambda>m. m\<lparr>m_subs := []\<rparr>) (db\<lparr>db_subs := hs\<rparr>)" using clean_session_spec(1) [OF ok r] by blast
  show st: "subs_step c db db'" unfolding subs_step_def e by (intro exI) (rule refl)
  have "tree_refs (db_subs db') u = tree_refs (db_subs db) u \<and> holds (clients db) (db_subs db')" for u
    using clean_session_refs [OF r] t unfolding tree_ok_holds by blast
  then show "tree_ok db'" by (rule subs_step_tree_ok [OF st t])
qed

section \<open>Topics of queued messages\<close>

text \<open>What an operation that publishes does to the queues: a message it leaves in a queue has the store and direction of one
  that was there, or is outgoing and its store has a topic. Clients without an identifier keep their queue.\<close>

definition quad :: "mosquitto \<Rightarrow> client_msg list \<times> last_ptr \<times> int \<times> int" where
  "quad m = (m_msgs m, m_last_msg m, m_msg_count m, m_msg_count12 m)"

definition has_topic :: "mosq_db \<Rightarrow> nat \<Rightarrow> bool" where
  "has_topic db s \<longleftrightarrow> st_topic (db_store db s) \<noteq> None"

definition tstep :: "mosq_db \<Rightarrow> mosq_db \<Rightarrow> bool" where
  "tstep db db' \<longleftrightarrow> (\<forall>s. st_topic (db_store db' s) = st_topic (db_store db s)) \<and>
     (\<forall>d. m_id (db_ctx db' d) = m_id (db_ctx db d)) \<and>
     (\<forall>d. \<forall>x \<in> set (m_msgs (db_ctx db' d)). x \<in> set (m_msgs (db_ctx db d)) \<or> cm_direction x = mosq_md_out \<and> has_topic db (cm_store x)) \<and>
     (\<forall>d. m_id (db_ctx db d) = None \<longrightarrow> quad (db_ctx db' d) = quad (db_ctx db d))"

lemma tstepI:
  assumes "\<And>s. st_topic (db_store db' s) = st_topic (db_store db s)" "\<And>d. m_id (db_ctx db' d) = m_id (db_ctx db d)"
    "\<And>d x. x \<in> set (m_msgs (db_ctx db' d)) \<Longrightarrow> x \<in> set (m_msgs (db_ctx db d)) \<or> cm_direction x = mosq_md_out \<and> has_topic db (cm_store x)"
    "\<And>d. m_id (db_ctx db d) = None \<Longrightarrow> quad (db_ctx db' d) = quad (db_ctx db d)"
  shows "tstep db db'"
  unfolding tstep_def using assms by blast

lemma tstepD:
  assumes "tstep db db'"
  shows "st_topic (db_store db' s) = st_topic (db_store db s)" "m_id (db_ctx db' d) = m_id (db_ctx db d)"
    "x \<in> set (m_msgs (db_ctx db' d)) \<Longrightarrow> x \<in> set (m_msgs (db_ctx db d)) \<or> cm_direction x = mosq_md_out \<and> has_topic db (cm_store x)"
    "m_id (db_ctx db d) = None \<Longrightarrow> quad (db_ctx db' d) = quad (db_ctx db d)" "has_topic db' s = has_topic db s"
  using assms unfolding tstep_def has_topic_def by auto

lemma tstep_refl [simp]: "tstep db db"
  by (rule tstepI) simp_all

lemma tstep_trans:
  assumes a: "tstep a b" and b: "tstep b c"
  shows "tstep a c"
proof (rule tstepI)
  fix d x assume "x \<in> set (m_msgs (db_ctx c d))"
  then show "x \<in> set (m_msgs (db_ctx a d)) \<or> cm_direction x = mosq_md_out \<and> has_topic a (cm_store x)"
    using tstepD(3) [OF b, of x d] tstepD(3) [OF a, of x d] tstepD(5) [OF a] by blast
qed (simp_all add: tstepD [OF a] tstepD [OF b])

text \<open>Operations that touch neither queues nor topics.\<close>

lemma tstep_same:
  assumes "\<And>s. st_topic (db_store db' s) = st_topic (db_store db s)" "\<And>d. m_id (db_ctx db' d) = m_id (db_ctx db d)"
    "\<And>d. quad (db_ctx db' d) = quad (db_ctx db d)"
  shows "tstep db db'"
proof (rule tstepI)
  fix d x assume "x \<in> set (m_msgs (db_ctx db' d))"
  then show "x \<in> set (m_msgs (db_ctx db d)) \<or> cm_direction x = mosq_md_out \<and> has_topic db (cm_store x)"
    using assms(3) [of d] by (simp add: quad_def)
qed (simp_all add: assms)

lemma tstep_keep:
  assumes "keep db' = keep db" "\<And>d. quad (db_ctx db' d) = quad (db_ctx db d)"
  shows "tstep db db'"
  by (rule tstep_same) (rule keep_store_sel(1) [OF keep_sel(2) [OF assms(1)]] keep_ctx_sel(2) [OF keep_sel(1) [OF assms(1)]] assms(2))+

lemma tstep_counted [simp]:
  "tstep db (db_msg_store_ref db s)" "tstep db (db_msg_store_deref db s)" "tstep db (touch_store s db)" "tstep db (touch_ctx c db)"
  "tstep db (set_ub db)" "tstep db (db\<lparr>db_persistence_changes := n\<rparr>)"
  by (rule tstep_keep; simp)+

lemma tstep_subs [simp]: "tstep db (db\<lparr>db_subs := hs\<rparr>)"
  by (rule tstep_same) simp_all

lemma insert_link_msgs:
  "x \<in> set (m_msgs (db_ctx (insert_link db c cid dedup y) d)) \<Longrightarrow> x \<in> set (m_msgs (db_ctx db d)) \<or> x = y"
proof -
  assume x: "x \<in> set (m_msgs (db_ctx (insert_link db c cid dedup y) d))"
  have a: "x \<in> set (m_msgs (db_ctx (append_msg c y e) d)) \<Longrightarrow> x \<in> set (m_msgs (db_ctx e d)) \<or> x = y" for e
    by (auto simp: append_msg_def split: last_ptr.splits if_splits)
  define e where "e = db_msg_store_ref (if cm_state y = mosq_ms_queued then db\<lparr>db_persistence_changes := db_persistence_changes db + 1\<rparr> else db) (cm_store y)"
  have "x \<in> set (m_msgs (db_ctx (append_msg c y e) d))"
    using x unfolding insert_link_def Let_def e_def [symmetric] by (cases "d = c") (auto split: if_splits)
  then have "x \<in> set (m_msgs (db_ctx e d)) \<or> x = y" by (rule a)
  then show ?thesis by (auto simp: e_def split: if_splits)
qed

lemma insert_tstep:
  assumes "has_topic db s"
  shows "tstep db (snd (mqtt3_db_message_insert db c mid mosq_md_out qos retain s))"
proof -
  let ?r = "snd (mqtt3_db_message_insert db c mid mosq_md_out qos retain s)"
  have k: "keep ?r = keep db" by simp
  have id: "m_id (db_ctx ?r d) = m_id (db_ctx db d)" for d by (rule keep_ctx_sel(2) [OF keep_sel(1) [OF k]])
  have msgs: "x \<in> set (m_msgs (db_ctx ?r d)) \<Longrightarrow> x \<in> set (m_msgs (db_ctx db d)) \<or> cm_direction x = mosq_md_out \<and> cm_store x = s" for x d
    unfolding mqtt3_db_message_insert_def Let_def
    by (auto split: option.splits insert_plan.splits if_splits dest!: insert_link_msgs)
  have none: "m_id (db_ctx db c) = None \<Longrightarrow> quad (db_ctx ?r c) = quad (db_ctx db c)"
    by (simp add: mqtt3_db_message_insert_def)
  show ?thesis
  proof (rule tstepI)
    show "st_topic (db_store ?r t) = st_topic (db_store db t)" for t by (rule keep_store_sel(1) [OF keep_sel(2) [OF k]])
    show "m_id (db_ctx db d) = None \<Longrightarrow> quad (db_ctx ?r d) = quad (db_ctx db d)" for d using none by (cases "d = c") simp_all
    show "x \<in> set (m_msgs (db_ctx ?r d)) \<Longrightarrow> x \<in> set (m_msgs (db_ctx db d)) \<or> cm_direction x = mosq_md_out \<and> has_topic db (cm_store x)" for d x
      using msgs [of x d] assms by auto
  qed (rule id)
qed

lemma next_mid_tstep: "tstep db (snd (next_mid c q db))"
proof -
  have e: "snd (next_mid c q db) = (if q \<noteq> 0 then upd_ctx c (\<lambda>m. snd (mosquitto_mid_generate m)) db else db)"
    by (simp add: next_mid_def on_ctx_def upd_ctx_def split: prod.split)
  show ?thesis unfolding e by (rule tstep_same) (simp_all add: mid_generate_sel quad_def)
qed

lemma process_leaves_tstep: "has_topic db (pub_store p) \<Longrightarrow> tstep db (snd (process_leaves db p src rc ls))"
proof (induction db p src rc ls rule: process_leaves.induct)
  case (2 db p source rc c q ls)
  let ?d0 = "touch_ctx c db" and ?mq = "message_qos (touch_ctx c db) q (pub_qos p)"
  let ?m = "db_ctx ?d0 c"
  obtain mid d1 where m: "next_mid c ?mq ?d0 = (mid, d1)" by fastforce
  obtain rc3 d2 where i: "mqtt3_db_message_insert d1 c mid mosq_md_out ?mq (m_is_bridge ?m \<and> pub_retain p) (pub_store p) = (rc3, d2)" by fastforce
  have t0: "tstep db ?d0" by simp
  have t1: "tstep db d1" using tstep_trans [OF t0 next_mid_tstep [of ?d0 c ?mq]] m by simp
  have h1: "has_topic d1 (pub_store p)" using "2.prems" tstepD(5) [OF t1] by simp
  have t2: "tstep db d2" using tstep_trans [OF t1 insert_tstep [OF h1]] i by (metis snd_conv)
  have h2: "has_topic d2 (pub_store p)" "has_topic ?d0 (pub_store p)"
    using "2.prems" tstepD(5) [OF t2] tstepD(5) [OF t0] by simp_all
  show ?case
  proof (cases "m_id ?m = None \<or> m_is_bridge ?m \<and> m_id ?m = Some source \<or> mosquitto_acl_check ?d0 ?m (pub_topic p) MOSQ_ACL_READ = MOSQ_ERR_ACL_DENIED")
    case True
    then have e: "process_leaves db p source rc ((c, q) # ls) = process_leaves ?d0 p source rc ls"
      by (auto simp: Let_def)
    have "tstep ?d0 (snd (process_leaves ?d0 p source rc ls))"
    proof (cases "m_id ?m = None \<or> m_is_bridge ?m \<and> m_id ?m = Some source")
      case True
      then show ?thesis using "2.IH"(1) [OF refl refl True h2(2)] by simp
    next
      case False
      then show ?thesis using True "2.IH"(2) [OF refl refl False refl _ h2(2)] by blast
    qed
    then show ?thesis unfolding e by (rule tstep_trans [OF t0])
  next
    case False
    then show ?thesis
    proof (cases "mosquitto_acl_check ?d0 ?m (pub_topic p) MOSQ_ACL_READ = MOSQ_ERR_SUCCESS")
      case True
      have e: "process_leaves db p source rc ((c, q) # ls) = process_leaves d2 p source (if rc3 = 1 then 1 else rc) ls"
        using False True m i by (auto simp: Let_def mosq_err_defs)
      have "tstep d2 (snd (process_leaves d2 p source (if rc3 = 1 then 1 else rc) ls))"
        using "2.IH"(3) [OF refl refl _ refl _ True refl m [symmetric] i [symmetric] h2(1)] False by blast
      then show ?thesis unfolding e by (rule tstep_trans [OF t2])
    next
      case ns: False
      then have "process_leaves db p source rc ((c, q) # ls) = (1, ?d0)" using False by (auto simp: Let_def)
      then show ?thesis by simp
    qed
  qed
qed simp

text \<open>A search replaces retained messages by the published one at most.\<close>

definition kept_refs :: "mosq_db \<Rightarrow> subhier list \<Rightarrow> subhier list \<Rightarrow> bool" where
  "kept_refs db hs hs' \<longleftrightarrow> (\<forall>s. 0 < tree_refs hs' s \<longrightarrow> 0 < tree_refs hs s \<or> has_topic db s)"

lemma kept_refs_trans: "kept_refs db a b \<Longrightarrow> kept_refs db b c \<Longrightarrow> kept_refs db a c"
  unfolding kept_refs_def by blast

lemma process_retain_tstep:
  assumes "has_topic db (pub_store p)"
  shows "tstep db (snd (process_retain db p r))" "0 < oref (fst (process_retain db p r)) s \<Longrightarrow> has_topic db s"
proof -
  define d0 where "d0 = (if take 4 (pub_topic p) \<noteq> ''$SYS'' then db\<lparr>db_persistence_changes := db_persistence_changes db + 1\<rparr> else db)"
  define d1 where "d1 = (case r of None \<Rightarrow> d0 | Some s \<Rightarrow> db_msg_store_deref d0 s)"
  have t: "tstep db d0" "tstep d0 d1" "tstep d1 (touch_store (pub_store p) d1)" by (simp_all add: d0_def d1_def split: option.split)
  have e: "process_retain db p r = (let d = touch_store (pub_store p) d1 in
      if st_payload (db_store d (pub_store p)) \<noteq> [] then (Some (pub_store p), db_msg_store_ref d (pub_store p)) else (None, d))"
    by (simp add: process_retain_def Let_def d0_def [symmetric] d1_def [symmetric])
  have t1: "tstep db (touch_store (pub_store p) d1)" using tstep_trans [OF t(1) tstep_trans [OF t(2,3)]] .
  then show "tstep db (snd (process_retain db p r))" by (auto simp: e Let_def intro: tstep_trans)
  show "0 < oref (fst (process_retain db p r)) s \<Longrightarrow> has_topic db s"
    using assms by (auto simp: e Let_def oref_def split: if_splits)
qed

lemma subs_process_tstep:
  assumes h: "has_topic db (pub_store p)" and r: "subs_process db p sr ls r = (rc, r', db')"
  shows "tstep db db' \<and> (\<forall>s. 0 < oref r' s \<longrightarrow> 0 < oref r s \<or> has_topic db s)"
proof -
  obtain r1 d1 where pr: "(if pub_retain p \<and> sr then process_retain db p r else (r, db)) = (r1, d1)" by fastforce
  have t1: "tstep db d1 \<and> (\<forall>s. 0 < oref r1 s \<longrightarrow> 0 < oref r s \<or> has_topic db s)"
    using process_retain_tstep [OF h, of r] pr by (cases "pub_retain p \<and> sr") auto
  then have "has_topic d1 (pub_store p)" using h tstepD(5) by blast
  from process_leaves_tstep [OF this] show ?thesis
    using r t1 pr by (auto simp: subs_process_def split: option.splits prod.splits intro: tstep_trans)
       (metis snd_conv tstep_trans)+
qed

lemma kept_node:
  "kept_refs db ch ch' \<Longrightarrow> \<forall>s. 0 < oref r' s \<longrightarrow> 0 < oref r s \<or> has_topic db s \<Longrightarrow>
   kept_refs db [Subhier topic leaves r ch] [Subhier topic' leaves' r' ch']"
  by (simp only: kept_refs_def tree_refs.simps add_gr_0 less_irrefl simp_thms) metis

lemma kept_Cons: "kept_refs db [h] [h'] \<Longrightarrow> kept_refs db hs hs' \<Longrightarrow> kept_refs db (h # hs) (h' # hs')"
  by (simp only: kept_refs_def tree_refs_Cons tree_refs.simps(1) add_gr_0 less_irrefl simp_thms) metis

lemma kept_refl [simp]: "kept_refs db hs hs"
  by (simp add: kept_refs_def)

lemma kept_tstep: "tstep a b \<Longrightarrow> kept_refs b hs hs' = kept_refs a hs hs'"
  by (simp add: kept_refs_def tstepD(5))

lemma sub_search_tstep:
  "has_topic db (pub_store p) \<Longrightarrow> sub_search db p sr toks hs = (hs', db') \<Longrightarrow> tstep db db' \<and> kept_refs db hs hs'"
proof (induction db p sr toks hs arbitrary: hs' db' rule: sub_search.induct)
  case (2 db p set_retain tokens topic leaves retained children hs)
  let ?in = "tokens \<noteq> [] \<and> (topic = hd tokens \<or> topic = ''+'')" and ?sr = "set_retain \<and> topic \<noteq> ''+''"
  define here where "here = (if ?in
         then let sr = ?sr
              in case sub_search db p sr (tl tokens) children of
                   (children, db) \<Rightarrow>
                     if tl tokens = []
                     then (case subs_process db p sr leaves retained of
                             (rc, retained, db) \<Rightarrow> (Subhier topic leaves retained children, db))
                     else (Subhier topic leaves retained children, db)
         else if topic = ''#'' \<and> children = []
         then (case subs_process db p False leaves retained of
                 (rc, retained, db) \<Rightarrow> (Subhier topic leaves retained children, db))
         else (Subhier topic leaves retained children, db))"
  obtain h d1 where hd1: "here = (h, d1)" by fastforce
  obtain hs1 d2 where rest: "sub_search d1 p set_retain tokens hs = (hs1, d2)" by fastforce
  have res: "hs' = h # hs1" "db' = d2"
    using "2.prems"(2) unfolding sub_search.simps(2) here_def [symmetric] by (simp_all add: hd1 rest)
  note ht = "2.prems"(1)
  have one: "tstep db d1 \<and> kept_refs db [Subhier topic leaves retained children] [h]"
  proof (cases ?in)
    case True
    obtain ch e1 where ss: "sub_search db p ?sr (tl tokens) children = (ch, e1)" by fastforce
    have i: "tstep db e1 \<and> kept_refs db children ch" by (rule "2.IH"(1) [OF True refl ht ss])
    show ?thesis
    proof (cases "tl tokens = []")
      case last: True
      obtain rc r e2 where sp: "subs_process e1 p ?sr leaves retained = (rc, r, e2)" by (metis prod_cases3)
      have t1: "tstep db e1" using i by blast
      have "has_topic e1 (pub_store p)" using ht tstepD(5) [OF t1] by simp
      from subs_process_tstep [OF this sp] have "tstep e1 e2 \<and> (\<forall>s. 0 < oref r s \<longrightarrow> 0 < oref retained s \<or> has_topic db s)"
        by (simp add: tstepD(5) [OF t1])
      moreover have "h = Subhier topic leaves r ch" "d1 = e2"
        using hd1 True last by (simp_all add: here_def ss [unfolded last] sp Let_def)
      ultimately show ?thesis using i kept_node tstep_trans [OF t1] by simp
    next
      case False
      then have "h = Subhier topic leaves retained ch" "d1 = e1"
        using hd1 True by (simp_all add: here_def ss Let_def)
      then show ?thesis using i kept_node by simp
    qed
  next
    case no: False
    show ?thesis
    proof (cases "topic = ''#'' \<and> children = []")
      case True
      obtain rc r e2 where sp: "subs_process db p False leaves retained = (rc, r, e2)" by (metis prod_cases3)
      moreover have "h = Subhier topic leaves r children" "d1 = e2"
        using hd1 no True by (auto simp: here_def sp)
      ultimately show ?thesis using subs_process_tstep [OF ht sp] kept_node by simp
    next
      case False
      then show ?thesis using hd1 no by (auto simp: here_def)
    qed
  qed
  then have t1: "tstep db d1" by blast
  then have "has_topic d1 (pub_store p)" using ht tstepD(5) by simp
  then have "tstep d1 d2 \<and> kept_refs d1 hs hs1"
    by (rule "2.IH"(2) [OF hd1 [unfolded here_def, symmetric] _ rest])
  then show ?case using one kept_Cons tstep_trans [OF t1] by (simp add: res kept_tstep [OF t1])
qed simp

lemma queue_loop_tstep:
  "has_topic db (pub_store p) \<Longrightarrow> queue_loop db p toks hs = (hs', db') \<Longrightarrow> tstep db db' \<and> kept_refs db hs hs'"
proof (induction hs arbitrary: db hs' db')
  case (Cons h hs)
  define g where "g = (if pub_retain p then fst (snd (sub_add_node db None 0 [h_topic h] h toks)) else h)"
  have g: "kept_refs db [h] [g]"
  proof -
    obtain rc h1 d1 where s: "sub_add_node db None 0 [h_topic h] h toks = (rc, h1, d1)" by (metis prod_cases3)
    show ?thesis using sub_add_node_None [OF s] by (auto simp: g_def s kept_refs_def tree_refs_Cons)
  qed
  obtain h1 d1 where one: "(if h_topic h = hd toks then case sub_search db p True toks (h_children g) of (ch, db) \<Rightarrow> (set_children ch g, db)
      else (h, db)) = (h1, d1)" by fastforce
  obtain hs1 d2 where rest: "queue_loop d1 p toks hs = (hs1, d2)" by fastforce
  have res: "hs' = h1 # hs1" "db' = d2" using Cons.prems(2) unfolding queue_loop.simps Let_def g_def [symmetric] one by (simp_all add: rest)
  have "tstep db d1 \<and> kept_refs db [h] [h1]"
  proof (cases "h_topic h = hd toks")
    case True
    obtain ch e where s: "sub_search db p True toks (h_children g) = (ch, e)" by fastforce
    have "tstep db e \<and> kept_refs db (h_children g) ch" by (rule sub_search_tstep [OF Cons.prems(1) s])
    moreover have "kept_refs db [g] [set_children ch g]" if "kept_refs db (h_children g) ch"
      using kept_node [OF that, of "h_retained g" "h_retained g" "h_topic g" "h_subs g" "h_topic g" "h_subs g"] by (cases g) (simp add: set_children_def)
    moreover have "h1 = set_children ch g" "d1 = e" using one True s by simp_all
    ultimately show ?thesis using kept_refs_trans [OF g] by blast
  next
    case False
    then show ?thesis using one by auto
  qed
  then have t1: "tstep db d1" and k1: "kept_refs db [h] [h1]" by simp_all
  have "has_topic d1 (pub_store p)" using Cons.prems(1) tstepD(5) [OF t1] by simp
  then have r: "tstep d1 d2" "kept_refs db hs hs1" using Cons.IH [OF _ rest] kept_tstep [OF t1] by blast+
  show ?case unfolding res using kept_Cons [OF k1 r(2)] tstep_trans [OF t1 r(1)] by blast
qed simp

lemma messages_queue_tstep:
  assumes h: "has_topic db stored" and r: "mqtt3_db_messages_queue db source topic qos retain stored = (rc, db')"
  shows "tstep db db'" "kept_refs db (db_subs db) (db_subs db')"
proof -
  let ?p = "\<lparr>pub_source = source, pub_topic = topic, pub_qos = qos, pub_retain = retain, pub_store = stored\<rparr>"
  let ?d0 = "db_msg_store_ref db stored"
  obtain hs d1 where ql: "queue_loop ?d0 ?p (sub_topic_tokenise topic) (db_subs db) = (hs, d1)" by fastforce
  have s0: "db_subs ?d0 = db_subs db" by (rule keep_sel(3)) simp
  have r: "db' = db_msg_store_deref (d1\<lparr>db_subs := hs\<rparr>) stored"
    using r by (simp add: mqtt3_db_messages_queue_def Let_def s0 ql)
  have t0: "tstep db ?d0" by simp
  have "has_topic ?d0 (pub_store ?p)" using h tstepD(5) [OF t0] by simp
  from queue_loop_tstep [OF this ql] have q: "tstep ?d0 d1" "kept_refs db (db_subs db) hs" by (simp_all add: kept_tstep [OF t0])
  show "tstep db db'" unfolding r
    by (rule tstep_trans [OF tstep_trans [OF t0 q(1)] tstep_trans [OF tstep_subs tstep_counted(2)]])
  have "db_subs db' = hs" unfolding r by (subst keep_sel(3) [OF keep_counted(3)]) simp
  then show "kept_refs db (db_subs db) (db_subs db')" using q(2) by simp
qed

section \<open>Retained messages for a new subscription\<close>

text \<open>A client may be sent the messages of \<open>S\<close>: they are in memory and have topics.\<close>

definition offers :: "(nat \<Rightarrow> nat) \<Rightarrow> nat \<Rightarrow> nat set \<Rightarrow> mosq_db \<Rightarrow> bool" where
  "offers E c S db \<longleftrightarrow> queues_ok db E \<and> c \<in> clients db \<and> (\<forall>s \<in> S. 0 < E s \<and> has_topic db s)"

definition moves :: "(nat \<Rightarrow> nat) \<Rightarrow> nat \<Rightarrow> nat set \<Rightarrow> mosq_db \<Rightarrow> mosq_db \<Rightarrow> bool" where
  "moves E c S db db' \<longleftrightarrow> offers E c S db' \<and> keep db' = keep db \<and> tstep db db'"

lemma moves_trans: "moves E c S a b \<Longrightarrow> moves E c S b d \<Longrightarrow> moves E c S a d"
  unfolding moves_def using tstep_trans by auto

lemma moves_refl: "offers E c S db \<Longrightarrow> moves E c S db db"
  by (simp add: moves_def)

lemma clients_keep: "keep db' = keep db \<Longrightarrow> clients db' = clients db"
  unfolding clients_def using keep_sel(5) [of db' db] keep_ctx_sel(1) [OF keep_sel(1) [of db' db]] by simp

lemma movesI:
  assumes "offers E c S db" "queues_ok db' E" "keep db' = keep db" "tstep db db'"
  shows "moves E c S db db'"
  using assms clients_keep [OF assms(3)] tstepD(5) [OF assms(4)] by (simp add: moves_def offers_def)

lemma insert_moves:
  assumes o: "offers E c S db" and s: "s \<in> S" and q: "qos \<le> 2"
  shows "moves E c S db (snd (mqtt3_db_message_insert db c mid mosq_md_out qos retain s))"
proof -
  have e: "queues_ok db E" "0 < E s" "c < db_next_ctx db" "m_live (db_ctx db c)" "has_topic db s"
    using o s by (auto simp: offers_def clients_def)
  then show ?thesis
    using queues_ok_live [OF e(1,2)] q by (intro movesI [OF o] insert_queues_ok insert_tstep) simp_all
qed

lemma retain_process_moves:
  assumes o: "offers E c S db" and s: "s \<in> S" and q: "qos \<le> 2"
  shows "moves E c S db (snd (retain_process db s c qos))"
proof -
  have e: "queues_ok db E" "0 < E s" "has_topic db s" using o s by (auto simp: offers_def)
  have l: "touch_store s db = db" using queues_ok_live [OF e(1,2)] by simp
  obtain topic where t: "st_topic (db_store db s) = Some topic" using e(3) by (auto simp: has_topic_def)
  let ?q = "min (st_qos (db_store db s)) qos"
  obtain mid d where m: "next_mid c ?q db = (mid, d)" by fastforce
  have "moves E c S db d"
    using movesI [OF o next_mid_facts(1,2) next_mid_tstep, of c ?q] e(1) m by simp
  moreover from this have "moves E c S d (snd (mqtt3_db_message_insert d c mid mosq_md_out ?q True s))"
    using s q by (intro insert_moves) (auto simp: moves_def)
  ultimately have "moves E c S db (snd (mqtt3_db_message_insert d c mid mosq_md_out ?q True s))" by (rule moves_trans)
  then show ?thesis using moves_refl [OF o] by (simp add: retain_process_def Let_def l t m)
qed

lemma retain_node_moves:
  "offers E c S db \<Longrightarrow> (\<And>s. 0 < oref r s \<Longrightarrow> s \<in> S) \<Longrightarrow> qos \<le> 2 \<Longrightarrow> moves E c S db (retain_process_node db r c qos)"
  by (cases r) (simp_all add: retain_process_node_def moves_refl retain_process_moves oref_def)

lemma moves_offers: "moves E c S db db' \<Longrightarrow> offers E c S db'"
  by (simp add: moves_def)

lemma retain_search_moves:
  "\<lbrakk>offers E c S db; \<And>s. 0 < tree_refs hs s \<Longrightarrow> s \<in> S; qos \<le> 2\<rbrakk> \<Longrightarrow> moves E c S db (snd (retain_search db c qos level flag toks hs))"
proof (induction db c qos level flag toks hs rule: retain_search.induct)
  case (1 db c qos level flag toks)
  then show ?case by (simp add: moves_refl)
next
  case (2 db c qos level flag toks topic leaves retained children hs)
  have S: "\<And>s. 0 < oref retained s \<Longrightarrow> s \<in> S" "\<And>s. 0 < tree_refs children s \<Longrightarrow> s \<in> S" "\<And>s. 0 < tree_refs hs s \<Longrightarrow> s \<in> S"
    using "2.prems"(2) by auto
  note node = retain_node_moves [OF _ S(1) "2.prems"(3)]
  let ?last = "hd toks = ''#'' \<and> tl toks = []" and ?hit = "topic \<noteq> ''+'' \<and> (topic = hd toks \<or> hd toks = ''+'')"
  show ?case
  proof (cases ?last)
    case True
    let ?d = "retain_process_node db retained c qos"
    obtain f d1 where d1: "retain_search ?d c qos (level + 1) 0 toks children = (f, d1)" by fastforce
    have a: "moves E c S db ?d" by (rule node [OF "2.prems"(1)])
    have b: "moves E c S ?d d1" using "2.IH"(1) [OF True refl moves_offers [OF a] S(2) "2.prems"(3)] d1 by simp
    have c: "moves E c S d1 (snd (retain_search d1 c qos level (-1) toks hs))"
      by (rule "2.IH"(2) [OF True refl d1 [symmetric] moves_offers [OF b] S(3) "2.prems"(3)])
    show ?thesis using moves_trans [OF a moves_trans [OF b c]] True d1 by (simp add: Let_def)
  next
    case nl: False
    show ?thesis
    proof (cases ?hit)
      case hit: True
      show ?thesis
      proof (cases "tl toks \<noteq> []")
        case True
        obtain f d1 where d1: "retain_search db c qos (level + 1) 0 (tl toks) children = (f, d1)" by fastforce
        have a: "moves E c S db d1" using "2.IH"(3) [OF nl hit True "2.prems"(1) S(2) "2.prems"(3)] d1 by simp
        define d2 where "d2 = (if f = -1 \<or> (hs = [] \<and> hd (tl toks) = ''#'' \<and> level > 0) then retain_process_node d1 retained c qos else d1)"
        have b: "moves E c S d1 d2" using node [OF moves_offers [OF a]] moves_refl [OF moves_offers [OF a]] by (simp add: d2_def)
        have c: "moves E c S d2 (snd (retain_search d2 c qos level flag toks hs))"
          by (rule "2.IH"(4) [OF nl hit True d1 [symmetric] d2_def moves_offers [OF b] S(3) "2.prems"(3)])
        have "retain_search db c qos level flag toks (Subhier topic leaves retained children # hs) = retain_search d2 c qos level flag toks hs"
          unfolding retain_search.simps(2) if_not_P [OF nl] if_P [OF hit] if_P [OF True] d1 prod.case Let_def d2_def by (rule refl)
        then show ?thesis using moves_trans [OF a moves_trans [OF b c]] by simp
      next
        case False
        let ?d = "retain_process_node db retained c qos"
        have a: "moves E c S db ?d" by (rule node [OF "2.prems"(1)])
        have c: "moves E c S ?d (snd (retain_search ?d c qos level flag toks hs))"
          by (rule "2.IH"(5) [OF nl hit False moves_offers [OF a] S(3) "2.prems"(3)])
        have "retain_search db c qos level flag toks (Subhier topic leaves retained children # hs) = retain_search ?d c qos level flag toks hs"
          unfolding retain_search.simps(2) if_not_P [OF nl] if_P [OF hit] if_not_P [OF False] by (rule refl)
        then show ?thesis using moves_trans [OF a c] by simp
      qed
    next
      case miss: False
      have "retain_search db c qos level flag toks (Subhier topic leaves retained children # hs) = retain_search db c qos level flag toks hs"
        unfolding retain_search.simps(2) if_not_P [OF nl] if_not_P [OF miss] by (rule refl)
      then show ?thesis using "2.IH"(6) [OF nl miss "2.prems"(1) S(3) "2.prems"(3)] by simp
    qed
  qed
qed

lemma retain_queue_ok:
  assumes t: "tree_ok db" and c: "c \<in> clients db" and q: "qos \<le> 2" and h: "\<And>s. 0 < tree_refs (db_subs db) s \<Longrightarrow> has_topic db s"
    and r: "mqtt3_retain_queue db c sub qos = (rc, db')"
  shows "tree_ok db'" "keep db' = keep db" "tstep db db'" "rc = 0"
proof -
  let ?S = "{s. 0 < tree_refs (db_subs db) s}"
  have o: "offers (tree_refs (db_subs db)) c ?S db" using t c h by (simp add: offers_def tree_ok_holds)
  have m: "moves (tree_refs (db_subs db)) c ?S db db'"
  proof (cases "find_branch (hd (sub_topic_tokenise sub)) (db_subs db)")
    case None
    then show ?thesis using r moves_refl [OF o] by (simp add: mqtt3_retain_queue_def Let_def)
  next
    case (Some x)
    obtain l b rr where x: "x = (l, b, rr)" by (metis prod_cases3)
    have "db_subs db = l @ b # rr" using find_branch_Some Some x by blast
    then have "moves (tree_refs (db_subs db)) c ?S db (snd (retain_search db c qos 0 0 (sub_topic_tokenise sub) (h_children b)))"
      using q by (intro retain_search_moves [OF o]) (simp_all add: tree_refs_Cons)
    then show ?thesis using r Some x by (simp add: mqtt3_retain_queue_def Let_def)
  qed
  show k: "keep db' = keep db" and "tstep db db'" using m by (simp_all add: moves_def)
  show "rc = 0" using r by (auto simp: mqtt3_retain_queue_def Let_def mosq_err_defs split: option.splits prod.splits)
  show "tree_ok db'"
    using m t clients_keep [OF k] by (simp add: tree_ok_holds moves_def offers_def keep_sel(3) [OF k])
qed

end
