(* ===== verification/Mqtt_Broker_Inv.thy ===== *)
theory Mqtt_Broker_Inv
  imports Mqtt_Tree_Laws
begin

text \<open>
  The invariant of a whole broker: the database and the subscription tree are consistent (\<open>tree_ok\<close>,
  \<open>subs_ok\<close>), the two hash tables of \<^verbatim>\<open>src/context.c\<close> name exactly the clients with an identifier and with a
  socket, the listeners count their clients, a client before its CONNECT has no session, and every message has a topic.
  Then: the operations of the database and of the tree keep it.
\<close>

section \<open>The invariant\<close>

definition wild_free :: "cstring \<Rightarrow> bool" where
  "wild_free t \<longleftrightarrow> PLUS \<notin> set t \<and> HASH \<notin> set t"

definition will_ok :: "will_msg \<Rightarrow> bool" where
  "will_ok w \<longleftrightarrow> will_qos w \<le> 2 \<and> wild_free (will_topic w)"

text \<open>A client that has not sent its CONNECT has no session; a client whose freeing is pending has nothing left but its
  memory, its queue and its subscriptions.\<close>

definition fresh :: "mosquitto \<Rightarrow> bool" where
  "fresh m \<longleftrightarrow> m_id m = None \<and> m_subs m = [] \<and> m_will m = None \<and> quad m = ([], LNull, 0, 0)"

definition disused :: "mosquitto \<Rightarrow> bool" where
  "disused m \<longleftrightarrow> m_id m = None \<and> m_sock m = None \<and> m_listener m = None \<and> m_will m = None \<and> m_state m = mosq_cs_disconnected"

text \<open>\<open>N\<close>: the client whose CONNECT is being handled.\<close>

definition client_ok :: "nat set \<Rightarrow> nat \<Rightarrow> mosquitto \<Rightarrow> bool" where
  "client_ok N c m \<longleftrightarrow> (m_state m = mosq_cs_new \<and> c \<notin> N \<longrightarrow> fresh m) \<and> m_state m \<noteq> mosq_cs_connect_pending \<and>
     (\<forall>w. m_will m = Some w \<longrightarrow> will_ok w)"

text \<open>The tables name exactly the clients with an identifier and those with a socket, each once; \<open>L\<close> is the
  list of the clients to be freed.\<close>

definition tables_ok :: "nat list \<Rightarrow> nat set \<Rightarrow> mosq_db \<Rightarrow> bool" where
  "tables_ok L N db \<longleftrightarrow>
     distinct (map fst (db_contexts_by_id db)) \<and> distinct (db_contexts_by_sock db) \<and> distinct L \<and>
     (\<forall>i c. (i, c) \<in> set (db_contexts_by_id db) \<longleftrightarrow> c \<in> clients db \<and> m_id (db_ctx db c) = Some i) \<and>
     (\<forall>c. c \<in> set (db_contexts_by_sock db) \<longleftrightarrow> c \<in> clients db \<and> m_sock (db_ctx db c) \<noteq> None) \<and>
     (\<forall>c \<in> set L. c \<in> clients db \<and> disused (db_ctx db c)) \<and>
     (\<forall>c \<in> clients db. client_ok N c (db_ctx db c)) \<and>
     (\<forall>c. m_live (db_ctx db c) \<longrightarrow> c < db_next_ctx db)"

text \<open>Every listener counts its clients.\<close>

definition members :: "mosq_db \<Rightarrow> nat \<Rightarrow> nat set" where
  "members db l = {c \<in> clients db. m_listener (db_ctx db c) = Some l}"

definition listeners_ok :: "mosq_db \<Rightarrow> bool" where
  "listeners_ok db \<longleftrightarrow>
     (\<forall>c \<in> clients db. \<forall>l. m_listener (db_ctx db c) = Some l \<longrightarrow> l < length (cf_listeners (db_config db))) \<and>
     (\<forall>l < length (cf_listeners (db_config db)). li_client_count (cf_listeners (db_config db) ! l) = int (card (members db l))) \<and>
     (\<forall>li \<in> set (cf_listeners (db_config db)). \<forall>mp. li_mount_point li = Some mp \<longrightarrow> wild_free mp)"

text \<open>Every message in a queue or in the tree has a topic, and topics have no wildcards.\<close>

definition topics_ok :: "mosq_db \<Rightarrow> bool" where
  "topics_ok db \<longleftrightarrow> (\<forall>s. st_qos (db_store db s) \<le> 2) \<and>
     (\<forall>s t. st_topic (db_store db s) = Some t \<longrightarrow> wild_free t) \<and>
     (\<forall>s. 0 < tree_refs (db_subs db) s \<longrightarrow> has_topic db s) \<and>
     (\<forall>c \<in> clients db. \<forall>x \<in> set (m_msgs (db_ctx db c)). has_topic db (cm_store x))"

text \<open>No access control and no limit on the size of messages: no message is refused.\<close>

definition open_db :: "mosq_db \<Rightarrow> bool" where
  "open_db db \<longleftrightarrow> db_acl_list db = [] \<and> db_acl_patterns db = [] \<and> db_auth_plugin db = None \<and> cf_message_size_limit (db_config db) = 0"

definition broker_inv :: "nat list \<Rightarrow> nat set \<Rightarrow> mosq_db \<Rightarrow> bool" where
  "broker_inv L N db \<longleftrightarrow> tree_ok db \<and> subs_ok db \<and> tables_ok L N db \<and> listeners_ok db \<and> topics_ok db \<and> open_db db"

definition broker_ok :: "mosq_db \<Rightarrow> bool" where
  "broker_ok db \<longleftrightarrow> broker_inv (db_ll_for_free db) {} db"

lemma broker_invD:
  assumes "broker_inv L N db"
  shows "tree_ok db" "subs_ok db" "tables_ok L N db" "listeners_ok db" "topics_ok db" "open_db db" "\<not> db_ub db"
  using assms queues_ok_sel(1) by (auto simp: broker_inv_def tree_ok_def)

lemma tables_okD:
  assumes "tables_ok L N db"
  shows "distinct (map fst (db_contexts_by_id db))" "distinct (db_contexts_by_sock db)" "distinct L"
    "(i, c) \<in> set (db_contexts_by_id db) \<longleftrightarrow> c \<in> clients db \<and> m_id (db_ctx db c) = Some i"
    "c \<in> set (db_contexts_by_sock db) \<longleftrightarrow> c \<in> clients db \<and> m_sock (db_ctx db c) \<noteq> None"
    "c \<in> set L \<Longrightarrow> c \<in> clients db" "c \<in> set L \<Longrightarrow> disused (db_ctx db c)"
    "c \<in> clients db \<Longrightarrow> client_ok N c (db_ctx db c)" "m_live (db_ctx db c) \<Longrightarrow> c < db_next_ctx db"
  using assms unfolding tables_ok_def by blast+

section \<open>What the invariant looks at\<close>

definition ctx_frame :: "mosquitto \<Rightarrow> bool \<times> cstring option \<times> client_state \<times> will_msg option \<times> nat option \<times> bool" where
  "ctx_frame m = (m_live m, m_id m, m_state m, m_will m, m_listener m, m_sock m = None)"

definition same_frame :: "mosq_db \<Rightarrow> mosq_db \<Rightarrow> bool" where
  "same_frame db db' \<longleftrightarrow> db_contexts_by_id db' = db_contexts_by_id db \<and> db_contexts_by_sock db' = db_contexts_by_sock db \<and>
     db_ll_for_free db' = db_ll_for_free db \<and> db_next_ctx db' = db_next_ctx db \<and> db_config db' = db_config db \<and>
     db_acl_list db' = db_acl_list db \<and> db_acl_patterns db' = db_acl_patterns db \<and> db_auth_plugin db' = db_auth_plugin db \<and>
     (\<forall>d. ctx_frame (db_ctx db' d) = ctx_frame (db_ctx db d)) \<and>
     (\<forall>s. st_topic (db_store db' s) = st_topic (db_store db s)) \<and> (\<forall>s. st_qos (db_store db' s) = st_qos (db_store db s))"

lemma same_frameI:
  assumes "db_contexts_by_id db' = db_contexts_by_id db" "db_contexts_by_sock db' = db_contexts_by_sock db"
    "db_ll_for_free db' = db_ll_for_free db" "db_next_ctx db' = db_next_ctx db" "db_config db' = db_config db"
    "db_acl_list db' = db_acl_list db" "db_acl_patterns db' = db_acl_patterns db" "db_auth_plugin db' = db_auth_plugin db"
    "\<And>d. ctx_frame (db_ctx db' d) = ctx_frame (db_ctx db d)"
    "\<And>s. st_topic (db_store db' s) = st_topic (db_store db s)" "\<And>s. st_qos (db_store db' s) = st_qos (db_store db s)"
  shows "same_frame db db'"
  using assms unfolding same_frame_def by blast

lemma same_frameD:
  assumes "same_frame db db'"
  shows "db_contexts_by_id db' = db_contexts_by_id db" "db_contexts_by_sock db' = db_contexts_by_sock db"
    "db_ll_for_free db' = db_ll_for_free db" "db_next_ctx db' = db_next_ctx db" "db_config db' = db_config db"
    "db_acl_list db' = db_acl_list db" "db_acl_patterns db' = db_acl_patterns db" "db_auth_plugin db' = db_auth_plugin db"
    "m_live (db_ctx db' d) = m_live (db_ctx db d)" "m_id (db_ctx db' d) = m_id (db_ctx db d)"
    "m_state (db_ctx db' d) = m_state (db_ctx db d)" "m_will (db_ctx db' d) = m_will (db_ctx db d)"
    "m_listener (db_ctx db' d) = m_listener (db_ctx db d)" "(m_sock (db_ctx db' d) = None) = (m_sock (db_ctx db d) = None)"
    "st_topic (db_store db' s) = st_topic (db_store db s)" "st_qos (db_store db' s) = st_qos (db_store db s)"
  using assms unfolding same_frame_def ctx_frame_def by auto

lemma same_frame_refl [simp]: "same_frame db db"
  by (rule same_frameI) simp_all

lemma same_frame_trans: "same_frame a b \<Longrightarrow> same_frame b c \<Longrightarrow> same_frame a c"
  unfolding same_frame_def by simp

lemma same_frame_upd: "ctx_frame (f (db_ctx db c)) = ctx_frame (db_ctx db c) \<Longrightarrow> same_frame db (upd_ctx c f db)"
  by (rule same_frameI) (simp_all add: upd_ctx_def)

lemma same_frame_keep_all:
  assumes "keep_all db' = keep_all db"
  shows "same_frame db db'"
proof (rule same_frameI)
  note c = keep_all_sel(1) [OF assms] and st = keep_all_sel(2) [OF assms]
  show "ctx_frame (db_ctx db' d) = ctx_frame (db_ctx db d)" for d
    unfolding ctx_frame_def using keep_ctx_sel(1,2,3,8,11,12) [OF c [of d]] by simp
  show "st_topic (db_store db' s) = st_topic (db_store db s)" "st_qos (db_store db' s) = st_qos (db_store db s)" for s
    by (rule keep_store_sel [OF st])+
  show "db_acl_list db' = db_acl_list db" "db_acl_patterns db' = db_acl_patterns db" "db_auth_plugin db' = db_auth_plugin db"
    using arg_cong [OF assms, of db_acl_list] arg_cong [OF assms, of db_acl_patterns] arg_cong [OF assms, of db_auth_plugin]
    by (simp_all add: keep_all_def keep_def)
qed (rule keep_all_sel [OF assms])+

lemma same_frame_keep: "keep db' = keep db \<Longrightarrow> same_frame db db'"
  by (rule same_frame_keep_all) (rule keep_keep_all)

lemma same_frame_clients: "same_frame db db' \<Longrightarrow> clients db' = clients db"
  by (simp add: clients_def same_frameD)

lemma same_frame_has_topic: "same_frame db db' \<Longrightarrow> has_topic db' s = has_topic db s"
  by (simp add: has_topic_def same_frameD)

text \<open>An operation with the same frame keeps the invariant when it keeps that of the database and leaves clients
  before their CONNECT alone.\<close>

lemma broker_inv_frame:
  assumes b: "broker_inv L N db" and f: "same_frame db db'" and t: "tree_ok db'" "subs_ok db'"
    and fr: "\<And>d. fresh (db_ctx db d) \<Longrightarrow> d \<notin> N \<Longrightarrow> quad (db_ctx db' d) = quad (db_ctx db d) \<and> m_subs (db_ctx db' d) = m_subs (db_ctx db d)"
    and tp: "\<And>s. 0 < tree_refs (db_subs db') s \<Longrightarrow> has_topic db s"
    and qs: "\<And>d x. d \<in> clients db \<Longrightarrow> x \<in> set (m_msgs (db_ctx db' d)) \<Longrightarrow> has_topic db (cm_store x)"
  shows "broker_inv L N db'"
proof -
  note d = same_frameD [OF f] same_frame_clients [OF f] same_frame_has_topic [OF f] and b = broker_invD [OF b]
  have co: "client_ok N c (db_ctx db c) \<Longrightarrow> client_ok N c (db_ctx db' c)" for c
    using fr [of c] by (auto simp: client_ok_def d fresh_def)
  have "tables_ok L N db'" using b(3) co unfolding tables_ok_def by (simp add: d disused_def)
  moreover have "listeners_ok db'" using b(4) by (simp add: listeners_ok_def members_def d)
  moreover have "topics_ok db'" using b(5) tp qs by (simp add: topics_ok_def d)
  moreover have "open_db db'" using b(6) by (simp add: open_db_def d)
  ultimately show ?thesis using t by (simp add: broker_inv_def)
qed

lemma broker_inv_tree: "broker_inv L N db \<Longrightarrow> 0 < tree_refs (db_subs db) s \<Longrightarrow> has_topic db s"
  by (auto dest: broker_invD(5) simp: topics_ok_def)

lemma broker_inv_msg: "broker_inv L N db \<Longrightarrow> d \<in> clients db \<Longrightarrow> x \<in> set (m_msgs (db_ctx db d)) \<Longrightarrow> has_topic db (cm_store x)"
  by (auto dest: broker_invD(5) simp: topics_ok_def)

text \<open>Fields of a client outside the invariant.\<close>

lemma subs_ok_upd:
  assumes "m_live (f (db_ctx db c)) = m_live (db_ctx db c)" "m_subs (f (db_ctx db c)) = m_subs (db_ctx db c)"
  shows "subs_ok (upd_ctx c f db) = subs_ok db"
proof -
  have "m_live (db_ctx (upd_ctx c f db) d) = m_live (db_ctx db d)" "m_subs (db_ctx (upd_ctx c f db) d) = m_subs (db_ctx db d)" for d
    using assms by simp_all
  then show ?thesis by (simp only: subs_ok_def slots_ok_def live_leaves_def root_of_upd)
qed

definition quiet :: "(mosquitto \<Rightarrow> mosquitto) \<Rightarrow> bool" where
  "quiet f \<longleftrightarrow> (\<forall>m. ctx_frame (f m) = ctx_frame m \<and> quad (f m) = quad m \<and> m_subs (f m) = m_subs m)"

lemma quietD:
  assumes "quiet f"
  shows "ctx_frame (f m) = ctx_frame m" "quad (f m) = quad m" "m_subs (f m) = m_subs m" "m_live (f m) = m_live m" "m_id (f m) = m_id m"
    "m_msgs (f m) = m_msgs m" "m_last_msg (f m) = m_last_msg m" "m_msg_count (f m) = m_msg_count m" "m_msg_count12 (f m) = m_msg_count12 m"
  using assms unfolding quiet_def by (auto simp: ctx_frame_def quad_def)

lemma tree_ok_upd:
  assumes t: "tree_ok db" and f: "m_id (f (db_ctx db c)) = m_id (db_ctx db c)" "quad (f (db_ctx db c)) = quad (db_ctx db c)"
    "m_live (f (db_ctx db c)) = m_live (db_ctx db c)"
  shows "tree_ok (upd_ctx c f db)"
  using t f by (simp add: tree_ok_holds queues_ok_ctx quad_def)

lemma broker_inv_upd:
  assumes b: "broker_inv L N db" and f: "quiet f"
  shows "broker_inv L N (upd_ctx c f db)"
proof (rule broker_inv_frame [OF b])
  note q = quietD [OF f]
  show "same_frame db (upd_ctx c f db)" by (rule same_frame_upd) (rule q)
  show "tree_ok (upd_ctx c f db)" by (rule tree_ok_upd [OF broker_invD(1) [OF b]]) (rule q)+
  show "subs_ok (upd_ctx c f db)" using broker_invD(2) [OF b] by (simp add: subs_ok_upd q)
qed (auto simp: quietD [OF f] split: if_splits intro: broker_inv_tree [OF b] broker_inv_msg [OF b])

section \<open>Operations of the database\<close>

lemma broker_inv_on_ctx:
  assumes b: "broker_inv L N db" and s: "\<And>m. same_client m (snd (f m))"
  shows "broker_inv L N (snd (on_ctx c f db))"
proof (rule broker_inv_frame [OF b])
  note o = on_ctx_sel [OF s, where c = c and db = db]
  show "same_frame db (snd (on_ctx c f db))" by (rule same_frame_keep) (rule o)
  show t: "tree_ok (snd (on_ctx c f db))" by (rule tree_ok_on_ctx [OF broker_invD(1) [OF b] s])
  have e: "snd (on_ctx c f db) = upd_ctx c (\<lambda>m. snd (f m)) db"
    by (simp add: on_ctx_def upd_ctx_def split: prod.split)
  have q: "quad (snd (f m)) = quad m \<and> m_subs (snd (f m)) = m_subs m \<and> m_live (snd (f m)) = m_live m" for m
    using s [of m] by (rule same_clientE) (simp add: quad_def)
  show "subs_ok (snd (on_ctx c f db))" using broker_invD(2) [OF b] unfolding e by (simp add: subs_ok_upd q)
  show "quad (db_ctx (snd (on_ctx c f db)) d) = quad (db_ctx db d) \<and> m_subs (db_ctx (snd (on_ctx c f db)) d) = m_subs (db_ctx db d)" for d
    unfolding e by (simp add: q)
  show "0 < tree_refs (db_subs (snd (on_ctx c f db))) s \<Longrightarrow> has_topic db s" for s
    unfolding e using broker_inv_tree [OF b] by simp
  show "d \<in> clients db \<Longrightarrow> x \<in> set (m_msgs (db_ctx (snd (on_ctx c f db)) d)) \<Longrightarrow> has_topic db (cm_store x)" for d x
    using broker_inv_msg [OF b] by (simp add: on_ctx_msgs [OF s])
qed

text \<open>An operation on the queue of one client.\<close>

lemma subs_ok_keep:
  assumes k: "keep db' = keep db"
  shows "subs_ok db' = subs_ok db"
proof -
  have "m_live (db_ctx db' d) = m_live (db_ctx db d)" "m_subs (db_ctx db' d) = m_subs (db_ctx db d)" for d
    using keep_ctx_sel(1,4) [OF keep_sel(1) [OF k]] by simp_all
  moreover have "root_of db' = root_of db" by (simp add: root_of_def keep_sel(3) [OF k])
  ultimately show ?thesis by (simp only: subs_ok_def slots_ok_def live_leaves_def)
qed

lemma broker_inv_queue:
  assumes b: "broker_inv L N db" and c: "c \<in> clients db"
    and o: "\<And>R. owns_queue db c R \<Longrightarrow> owns_queue db' c R"
    and k: "keep db' = keep db" and d: "\<And>d. d \<noteq> c \<Longrightarrow> db_ctx db' d = db_ctx db d"
    and e: "fresh (db_ctx db c) \<Longrightarrow> c \<notin> N \<Longrightarrow> quad (db_ctx db' c) = quad (db_ctx db c)"
    and m: "\<And>x. x \<in> set (m_msgs (db_ctx db' c)) \<Longrightarrow> has_topic db (cm_store x)"
  shows "broker_inv L N db'"
proof (rule broker_inv_frame [OF b same_frame_keep [OF k]])
  show "tree_ok db'" using broker_invD(1) [OF b] c o k d by (intro tree_ok_step [of db c db']) (auto simp: clients_def)
  show "subs_ok db'" using broker_invD(2) [OF b] by (simp add: subs_ok_keep [OF k])
  show "0 < tree_refs (db_subs db') s \<Longrightarrow> has_topic db s" for s
    using broker_inv_tree [OF b] by (simp add: keep_sel(3) [OF k])
  show "x \<in> set (m_msgs (db_ctx db' a)) \<Longrightarrow> a \<in> clients db \<Longrightarrow> has_topic db (cm_store x)" for a x
    using m broker_inv_msg [OF b] d by (cases "a = c") simp_all
  show "fresh (db_ctx db a) \<Longrightarrow> a \<notin> N \<Longrightarrow> quad (db_ctx db' a) = quad (db_ctx db a) \<and> m_subs (db_ctx db' a) = m_subs (db_ctx db a)" for a
    using e d keep_ctx_sel(4) [OF keep_sel(1) [OF k]] by (cases "a = c") simp_all
qed

lemma fresh_empty: "fresh m \<Longrightarrow> m_msgs m = []"
  by (simp add: fresh_def quad_def)

lemma set_msgs_same: "m_msgs (db_ctx db c) = ms \<Longrightarrow> quad (db_ctx (set_msgs c ms db) c) = quad (db_ctx db c)"
  by (simp add: set_msgs_def quad_def)

definition queued :: "mosq_db \<Rightarrow> nat \<Rightarrow> nat set" where
  "queued db c = cm_store ` set (m_msgs (db_ctx db c))"

lemma queued_set_msgs [simp]: "queued (set_msgs c ms db) c = cm_store ` set ms"
  by (simp add: queued_def)

lemma delete_loop_stores:
  "k \<in> queued (delete_loop db c mid dir i del pre ms) c \<Longrightarrow> k \<in> cm_store ` set pre \<union> cm_store ` set ms"
proof (induction ms arbitrary: db i del pre)
  case (Cons y ms)
  then show ?case unfolding delete_loop.simps Let_def by (auto split: if_splits dest!: Cons.IH)
qed simp

lemma broker_inv_delete:
  assumes b: "broker_inv L N db" and c: "c \<in> clients db"
  shows "broker_inv L N (snd (mqtt3_db_message_delete db c mid dir))"
proof (rule broker_inv_queue [OF b c])
  show "fresh (db_ctx db c) \<Longrightarrow> c \<notin> N \<Longrightarrow> quad (db_ctx (snd (mqtt3_db_message_delete db c mid dir)) c) = quad (db_ctx db c)"
    by (simp add: mqtt3_db_message_delete_def fresh_empty set_msgs_same)
  show "x \<in> set (m_msgs (db_ctx (snd (mqtt3_db_message_delete db c mid dir)) c)) \<Longrightarrow> has_topic db (cm_store x)" for x
    using broker_inv_msg [OF b c] delete_loop_stores [of "cm_store x" db c mid dir 0 False "[]" "m_msgs (db_ctx db c)"]
    by (auto simp: mqtt3_db_message_delete_def queued_def)
qed (simp_all add: delete_owns)

lemma broker_inv_set_msgs:
  assumes b: "broker_inv L N db" and c: "c \<in> clients db" and s: "map sig ms = map sig (m_msgs (db_ctx db c))"
  shows "broker_inv L N (set_msgs c ms db)"
proof (rule broker_inv_queue [OF b c])
  show "fresh (db_ctx db c) \<Longrightarrow> c \<notin> N \<Longrightarrow> quad (db_ctx (set_msgs c ms db) c) = quad (db_ctx db c)"
    using s by (simp add: fresh_empty set_msgs_same)
  show "x \<in> set (m_msgs (db_ctx (set_msgs c ms db) c)) \<Longrightarrow> has_topic db (cm_store x)" for x
  proof -
    assume "x \<in> set (m_msgs (db_ctx (set_msgs c ms db) c))"
    then have "sig x \<in> sig ` set (m_msgs (db_ctx db c))" using s by (metis image_eqI set_map set_msgs_ctx(2))
    then obtain y where "y \<in> set (m_msgs (db_ctx db c))" "cm_store x = cm_store y" by (auto simp: sig_def)
    then show ?thesis using broker_inv_msg [OF b c] by simp
  qed
  show "owns_queue db c R \<Longrightarrow> owns_queue (set_msgs c ms db) c R" for R by (rule owns_queue_set [OF _ s])
qed simp_all

lemma broker_inv_update:
  assumes b: "broker_inv L N db" and c: "c \<in> clients db"
  shows "broker_inv L N (snd (mqtt3_db_message_update db c mid dir st))"
proof -
  obtain rc ms where u: "update_loop (m_msgs (db_ctx db c)) mid dir st (db_now db) = (rc, ms)" by fastforce
  have "map sig ms = map sig (m_msgs (db_ctx db c))"
    using update_loop_sig [of "m_msgs (db_ctx db c)" mid dir st "db_now db"] by (simp add: u)
  then show ?thesis using broker_inv_set_msgs [OF b c] by (simp add: mqtt3_db_message_update_def u)
qed

lemma broker_inv_messages_delete:
  assumes b: "broker_inv L N db" and c: "c \<in> clients db"
  shows "broker_inv L N (snd (mqtt3_db_messages_delete db c))"
proof (rule broker_inv_queue [OF b c])
  show "fresh (db_ctx db c) \<Longrightarrow> c \<notin> N \<Longrightarrow> quad (db_ctx (snd (mqtt3_db_messages_delete db c)) c) = quad (db_ctx db c)"
    by (simp add: mqtt3_db_messages_delete_def fresh_def quad_def)
qed (simp_all add: messages_delete_owns)

lemma broker_inv_insert:
  assumes b: "broker_inv L N db" and c: "c \<in> clients db" and s: "st_live (db_store db s)" "has_topic db s"
    and q: "qos \<le> 2" "dir = mosq_md_in \<Longrightarrow> qos = 2"
  shows "broker_inv L N (snd (mqtt3_db_message_insert db c mid dir qos retain s))"
proof (rule broker_inv_queue [OF b c])
  let ?r = "snd (mqtt3_db_message_insert db c mid dir qos retain s)"
  have l: "m_live (db_ctx db c)" using c by (simp add: clients_def)
  show "owns_queue db c R \<Longrightarrow> owns_queue ?r c R" for R by (rule insert_owns [OF _ l s(1) q])
  show "fresh (db_ctx db c) \<Longrightarrow> c \<notin> N \<Longrightarrow> quad (db_ctx ?r c) = quad (db_ctx db c)"
    by (simp add: mqtt3_db_message_insert_def fresh_def)
  show "has_topic db (cm_store x)" if x: "x \<in> set (m_msgs (db_ctx ?r c))" for x
  proof -
    have "x \<in> set (m_msgs (db_ctx db c)) \<or> cm_store x = s"
      using x unfolding mqtt3_db_message_insert_def Let_def
      by (auto split: option.splits insert_plan.splits if_splits dest!: insert_link_msgs)
    then show ?thesis using broker_inv_msg [OF b c] s(2) by blast
  qed
qed simp_all

section \<open>Publishing and subscribing\<close>

text \<open>A filter whose \<open>#\<close> is its last character, behind a mount point or not.\<close>

lemma levels_hash: "''#'' \<in> set (butlast (levels s)) \<Longrightarrow> HASH \<in> set (butlast s)"
proof (induction s)
  case (Cons c s)
  obtain x xs where l: "levels s = x # xs" using levels_Cons_ex by blast
  have ne: "xs \<noteq> [] \<Longrightarrow> s \<noteq> []" using l by auto
  show ?case using Cons ne by (cases "c = SLASH") (auto simp: l split: if_splits)
qed simp

lemma tokens_path_ok: "HASH \<notin> set (butlast s) \<Longrightarrow> path_ok (sub_topic_tokenise s)"
  using levels_hash [of s] by (auto simp: path_ok_def tokenise_levels)

lemma wild_free_path_ok: "wild_free t \<Longrightarrow> path_ok (sub_topic_tokenise t)"
  by (rule tokens_path_ok) (auto simp: wild_free_def dest: in_set_butlastD)

lemma sub_topic_loop_hash: "sub_topic_loop c len s = MOSQ_ERR_SUCCESS \<Longrightarrow> NUL \<notin> set s \<Longrightarrow> HASH \<notin> set (butlast s)"
proof (induction c len s rule: sub_topic_loop.induct)
  case (2 c len d str)
  have "str \<noteq> [] \<Longrightarrow> cchar str 0 \<noteq> NUL" using "2.prems"(2) by (cases str) auto
  then show ?case using 2 by (auto simp: mosq_err_defs split: if_splits)
qed simp

lemma mounted_path_ok:
  assumes "mosquitto_sub_topic_check sub = MOSQ_ERR_SUCCESS" "NUL \<notin> set sub" "\<And>mp. mount = Some mp \<Longrightarrow> wild_free mp"
  shows "path_ok (sub_topic_tokenise (mounted mount sub))"
proof (rule tokens_path_ok)
  have "HASH \<notin> set (butlast sub)" using assms(1,2) sub_topic_loop_hash by (simp add: mosquitto_sub_topic_check_def)
  then show "HASH \<notin> set (butlast (mounted mount sub))"
    using assms(3) by (cases mount) (auto simp: mounted_def wild_free_def butlast_append dest: in_set_butlastD)
qed

lemma broker_inv_message_store:
  assumes b: "broker_inv L N db" and q: "qos \<le> 2" and t: "\<And>t. topic = Some t \<Longrightarrow> wild_free t"
    and r: "mqtt3_db_message_store db source mid topic qos payload retain 0 = (s, db')"
  shows "broker_inv L N db'" "st_live (db_store db' s)" "st_topic (db_store db' s) = topic" "db_ctx db' = db_ctx db" "db_config db' = db_config db"
proof -
  have e: "s = db_next_store db" "db_ctx db' = db_ctx db" "db_subs db' = db_subs db" "db_next_ctx db' = db_next_ctx db" "db_config db' = db_config db"
    "db_msg_store db' = s # db_msg_store db" "db_msg_store_count db' = db_msg_store_count db + 1" "db_next_store db' = s + 1"
    "\<And>x. x \<noteq> s \<Longrightarrow> db_store db' x = db_store db x" "db_ub db' = db_ub db" "st_live (db_store db' s)"
    "st_ref_count (db_store db' s) = 0" "st_topic (db_store db' s) = topic" "st_qos (db_store db' s) = qos"
    "db_contexts_by_id db' = db_contexts_by_id db" "db_contexts_by_sock db' = db_contexts_by_sock db"
    "db_acl_list db' = db_acl_list db" "db_acl_patterns db' = db_acl_patterns db" "db_auth_plugin db' = db_auth_plugin db"
    using r by (auto simp: mqtt3_db_message_store_def Let_def db_msg_store_add_def)
  show "st_live (db_store db' s)" "st_topic (db_store db' s) = topic" "db_ctx db' = db_ctx db" "db_config db' = db_config db" by (rule e)+
  have old: "s \<noteq> x" if "st_live (db_store db x)" for x
    using that broker_invD(1) [OF b] e(1) store_okD(6) by (force simp: tree_ok_def queues_ok_def)
  have st: "store_ok db (\<lambda>x. qrefs db x + tree_refs (db_subs db) x)" using broker_invD(1) [OF b] by (simp add: tree_ok_def queues_ok_def)
  note so = store_okD [OF st]
  have zero: "qrefs db s + tree_refs (db_subs db) s = 0" using so(7) [of s] old [of s] by blast
  have "store_ok db' (\<lambda>x. qrefs db x + tree_refs (db_subs db) x)"
  proof (rule store_okI)
    show "\<not> db_ub db'" "distinct (db_msg_store db')" "db_msg_store_count db' = int (length (db_msg_store db'))"
      using so(1-3) old so(4) [of s] by (auto simp: e(6,7,10))
    show "x \<in> set (db_msg_store db') \<longleftrightarrow> st_live (db_store db' x)" for x using so(4) [of x] e by (cases "x = s") auto
    show "st_live (db_store db' x) \<Longrightarrow> st_ref_count (db_store db' x) = int (qrefs db x + tree_refs (db_subs db) x)" for x
      using so(5) [of x] e zero by (cases "x = s") auto
    show "st_live (db_store db' x) \<Longrightarrow> x < db_next_store db'" for x using so(6) [of x] e by (cases "x = s") auto
    show "0 < qrefs db x + tree_refs (db_subs db) x \<Longrightarrow> st_live (db_store db' x)" for x using so(7) [of x] e by (cases "x = s") auto
  qed
  moreover have "qrefs db' = qrefs db" by (rule ext) (simp add: qrefs_def e)
  ultimately have "tree_ok db'" using broker_invD(1) [OF b] by (simp add: tree_ok_def queues_ok_def e leaf_ok_def)
  moreover have "subs_ok db'" using broker_invD(2) [OF b] by (simp add: subs_ok_def slots_ok_def live_leaves_def root_of_def e)
  moreover have "tables_ok L N db'" using broker_invD(3) [OF b] by (simp add: tables_ok_def clients_def e)
  moreover have "listeners_ok db'" using broker_invD(4) [OF b] by (simp add: listeners_ok_def members_def clients_def e)
  moreover have "open_db db'" using broker_invD(6) [OF b] by (simp add: open_db_def e)
  moreover have "topics_ok db'"
  proof -
    have u: "x \<noteq> s" if "0 < tree_refs (db_subs db) x \<or> 0 < qrefs db x" for x using that zero by auto
    have v: "0 < qrefs db (cm_store x)" if "c \<in> clients db" "x \<in> set (m_msgs (db_ctx db c))" for c x
    proof -
      have "0 < uses (m_msgs (db_ctx db c)) (cm_store x)" using that(2) by (metis bot_nat_0.not_eq_extremum count_list_0_iff image_eqI set_map uses_def)
      then show ?thesis using qrefs_split [of c db "cm_store x"] that(1) by (simp add: clients_def)
    qed
    have k: "x \<noteq> s \<Longrightarrow> has_topic db' x = has_topic db x" for x by (simp add: has_topic_def e)
    have cl: "clients db' = clients db" by (simp add: clients_def e)
    have w: "wild_free y" if "st_topic (db_store db' x) = Some y" for x y
      using broker_invD(5) [OF b] that t e by (cases "x = s") (auto simp: topics_ok_def)
    have qq: "st_qos (db_store db' x) \<le> 2" for x
      using broker_invD(5) [OF b] q e by (cases "x = s") (auto simp: topics_ok_def)
    show ?thesis unfolding topics_ok_def using qq w u v k cl broker_inv_tree [OF b] broker_inv_msg [OF b] by (simp add: e)
  qed
  ultimately show "broker_inv L N db'" by (simp add: broker_inv_def)
qed

lemma quad_msgs: "quad m' = quad m \<Longrightarrow> m_msgs m' = m_msgs m"
  by (simp add: quad_def)

lemma broker_inv_messages_queue:
  assumes b: "broker_inv L N db" and s: "st_live (db_store db s)" "has_topic db s" and q: "qos \<le> 2" and t: "wild_free topic"
  shows "broker_inv L N (snd (mqtt3_db_messages_queue db source topic qos retain s))"
proof -
  obtain rc db' where r: "mqtt3_db_messages_queue db source topic qos retain s = (rc, db')" by fastforce
  note mq = messages_queue_ok [OF broker_invD(1) [OF b] s(1) q r] and ts = messages_queue_tstep [OF s(2) r]
  have "broker_inv L N db'"
  proof (rule broker_inv_frame [OF b same_frame_keep_all [OF mq(2)] mq(1)])
    show "subs_ok db'" using messages_queue_subs_ok [OF broker_invD(2,1) [OF b] s(1) q wild_free_path_ok [OF t]] by (metis r snd_conv)
    show "quad (db_ctx db' d) = quad (db_ctx db d) \<and> m_subs (db_ctx db' d) = m_subs (db_ctx db d)" if "fresh (db_ctx db d)" for d
      using that tstepD(4) [OF ts(1)] keep_ctx_sel(4) [OF keep_all_sel(1) [OF mq(2)]] by (simp add: fresh_def)
    show "has_topic db x" if "0 < tree_refs (db_subs db') x" for x
      using that ts(2) broker_inv_tree [OF b] by (auto simp: kept_refs_def)
    show "has_topic db (cm_store x)" if "d \<in> clients db" "x \<in> set (m_msgs (db_ctx db' d))" for d x
      using tstepD(3) [OF ts(1) that(2)] broker_inv_msg [OF b that(1)] by blast
  qed
  then show ?thesis by (simp add: r)
qed

lemma broker_inv_easy_queue:
  assumes b: "broker_inv L N db" and q: "qos \<le> 2" and t: "wild_free topic"
  shows "broker_inv L N (snd (mqtt3_db_messages_easy_queue db c topic qos payload retain))"
proof -
  define i where "i = (case c of None \<Rightarrow> [] | Some c \<Rightarrow> (case m_id (db_ctx db c) of None \<Rightarrow> [] | Some i \<Rightarrow> i))"
  obtain s d where r: "mqtt3_db_message_store db (Some i) 0 (Some topic) qos payload retain 0 = (s, d)" by fastforce
  have "\<And>t. Some topic = Some t \<Longrightarrow> wild_free t" using t by simp
  note st = broker_inv_message_store [OF b q this r]
  have "has_topic d s" using st(3) by (simp add: has_topic_def)
  from broker_inv_messages_queue [OF st(1,2) this q t] show ?thesis
    by (simp add: mqtt3_db_messages_easy_queue_def i_def [symmetric] Let_def r)
qed

section \<open>Steps within the frame\<close>

definition inv_step :: "nat list \<Rightarrow> nat set \<Rightarrow> mosq_db \<Rightarrow> mosq_db \<Rightarrow> bool" where
  "inv_step L N db db' \<longleftrightarrow> broker_inv L N db' \<and> same_frame db db'"

lemma inv_stepD:
  "inv_step L N db db' \<Longrightarrow> broker_inv L N db'" "inv_step L N db db' \<Longrightarrow> same_frame db db'"
  "inv_step L N db db' \<Longrightarrow> clients db' = clients db"
  by (simp_all add: inv_step_def same_frame_clients)

lemma inv_step_refl: "broker_inv L N db \<Longrightarrow> inv_step L N db db"
  by (simp add: inv_step_def)

lemma inv_step_trans: "inv_step L N a b \<Longrightarrow> inv_step L N b c \<Longrightarrow> inv_step L N a c"
  using same_frame_trans by (auto simp: inv_step_def)

lemma inv_step_keep: "broker_inv L N db' \<Longrightarrow> keep db' = keep db \<Longrightarrow> inv_step L N db db'"
  by (simp add: inv_step_def same_frame_keep)

lemma inv_step_send:
  assumes "broker_inv L N db" "\<And>now m. same_client m (snd (f now m))"
  shows "inv_step L N db (snd (send_ctx c f db))"
  unfolding send_ctx_def
  by (rule inv_step_keep) (rule broker_inv_on_ctx [OF assms(1)] on_ctx_sel(1), rule assms(2))+

lemma inv_step_upd: "broker_inv L N db \<Longrightarrow> quiet f \<Longrightarrow> inv_step L N db (upd_ctx c f db)"
  using broker_inv_upd by (auto simp: inv_step_def quietD intro: same_frame_upd)

lemma broker_inv_changes: "broker_inv L N db \<Longrightarrow> inv_step L N db (db\<lparr>db_persistence_changes := n\<rparr>)"
proof -
  assume b: "broker_inv L N db"
  let ?d = "db\<lparr>db_persistence_changes := n\<rparr>"
  have "broker_inv L N ?d"
  proof (rule broker_inv_frame [OF b same_frame_keep])
    show "tree_ok ?d" using broker_invD(1) [OF b] by (simp add: tree_ok_holds queues_ok_upd clients_def)
    show "subs_ok ?d" using broker_invD(2) [OF b] subs_ok_keep [of ?d db] by simp
  qed (auto intro: broker_inv_tree [OF b] broker_inv_msg [OF b])
  then show ?thesis by (rule inv_step_keep) simp
qed

lemma same_frame_messages_queue:
  assumes b: "broker_inv L N db" and s: "st_live (db_store db s)" and q: "qos \<le> 2"
  shows "same_frame db (snd (mqtt3_db_messages_queue db source topic qos retain s))" "fst (mqtt3_db_messages_queue db source topic qos retain s) = 0"
    "grows db (snd (mqtt3_db_messages_queue db source topic qos retain s))"
proof -
  obtain rc db' where r: "mqtt3_db_messages_queue db source topic qos retain s = (rc, db')" by fastforce
  note mq = messages_queue_ok [OF broker_invD(1) [OF b] s q r]
  show "same_frame db (snd (mqtt3_db_messages_queue db source topic qos retain s))" "fst (mqtt3_db_messages_queue db source topic qos retain s) = 0"
    "grows db (snd (mqtt3_db_messages_queue db source topic qos retain s))"
    using same_frame_keep_all [OF mq(2)] mq(3,4) by (simp_all add: r)
qed

section \<open>Releasing an incoming message\<close>

lemma broker_inv_remove:
  assumes b: "broker_inv L N db" and c: "c \<in> clients db" and i: "i < length (m_msgs (db_ctx db c))"
  defines "ms \<equiv> m_msgs (db_ctx db c)"
  shows "inv_step L N db (message_remove db c (take i ms) (ms ! i) (drop (Suc i) ms))"
proof (rule inv_step_keep [OF broker_inv_queue [OF b c]])
  let ?f = "message_remove db c (take i ms) (ms ! i) (drop (Suc i) ms)"
  have split: "ms = take i ms @ ms ! i # drop (Suc i) ms" using id_take_nth_drop i by (simp add: ms_def)
  have m: "m_msgs (db_ctx ?f c) = take i ms @ drop (Suc i) ms" by (simp add: message_remove_def)
  show "owns_queue db c R \<Longrightarrow> owns_queue ?f c R" for R
    using owns_remove [of db c R "take i ms" "ms ! i" "drop (Suc i) ms"] split
    unfolding owns_queue_def m by (simp add: ms_def)
  show "fresh (db_ctx db c) \<Longrightarrow> c \<notin> N \<Longrightarrow> quad (db_ctx ?f c) = quad (db_ctx db c)"
    using fresh_empty [of "db_ctx db c"] i by simp
  show "has_topic db (cm_store x)" if "x \<in> set (m_msgs (db_ctx ?f c))" for x
    using that broker_inv_msg [OF b c] unfolding m by (auto simp: ms_def dest: in_set_takeD in_set_dropD)
qed simp_all

lemma release_promote_step:
  assumes b: "broker_inv L N db" and c: "c \<in> clients db" and i: "i < length (m_msgs (db_ctx db c))"
    and r: "release_promote db c n (m_msgs (db_ctx db c) ! i) = (x, d)"
  shows "inv_step L N db (set_msgs c ((m_msgs (db_ctx db c))[i := x]) d)"
proof -
  let ?ms = "m_msgs (db_ctx db c)"
  let ?f = "\<lambda>m. mosquitto_send_pubrec (db_now db) m (cm_mid (?ms ! i))"
  have x: "x = promote db n (?ms ! i)" using r by (simp add: release_promote_def)
  have d: "d = db \<or> d = snd (on_ctx c ?f db)" using r by (auto simp: release_promote_def split: if_splits)
  have s: "\<And>m. same_client m (snd (?f m))" by simp
  have bd: "inv_step L N db d"
    using d inv_step_refl [OF b] inv_step_keep [OF broker_inv_on_ctx [where f = ?f, OF b s] on_ctx_sel(1) [where f = ?f, OF s]] by blast
  have md: "m_msgs (db_ctx d c) = ?ms" using d on_ctx_msgs [where f = ?f, OF s] by auto
  have "map sig (?ms[i := x]) = map sig ?ms" using i by (simp add: map_update x sig_def list_update_same_conv)
  then have "broker_inv L N (set_msgs c (?ms[i := x]) d)"
    using inv_stepD [OF bd] c md by (intro broker_inv_set_msgs) simp_all
  then have "inv_step L N d (set_msgs c (?ms[i := x]) d)" by (rule inv_step_keep) simp
  then show ?thesis by (rule inv_step_trans [OF bd])
qed

lemma release_loop_inv:
  "\<lbrakk>broker_inv L N db; c \<in> clients db; release_loop fuel db c mid dir n del i = Some (rc, db')\<rbrakk> \<Longrightarrow> inv_step L N db db'"
proof (induction fuel arbitrary: db n del i)
  case (Suc fuel)
  let ?ms = "m_msgs (db_ctx db c)"
  show ?case
  proof (cases "length ?ms \<le> i")
    case True
    then show ?thesis using Suc.prems inv_step_refl by simp
  next
    case False
    obtain x d where p: "release_promote db c (n + 1) (?ms ! i) = (x, d)" by fastforce
    define e where "e = set_msgs c (?ms[i := x]) d"
    have i: "i < length ?ms" using False by simp
    have e: "inv_step L N db e" unfolding e_def by (rule release_promote_step [OF Suc.prems(1,2) i p])
    note be = inv_stepD(1) [OF e]
    have ce: "c \<in> clients e" using Suc.prems(2) inv_stepD(3) [OF e] by simp
    have me: "m_msgs (db_ctx e c) = ?ms[i := x]" by (simp add: e_def)
    have ie: "i < length (m_msgs (db_ctx e c))" "m_msgs (db_ctx e c) ! i = x" using i by (simp_all add: me)
    have xe: "x \<in> set (m_msgs (db_ctx e c))" using ie nth_mem by blast
    have ht: "has_topic e (cm_store x)" by (rule broker_inv_msg [OF be ce xe])
    then obtain topic where t: "st_topic (db_store e (cm_store x)) = Some topic" by (auto simp: has_topic_def)
    have lv: "st_live (db_store e (cm_store x))"
      using tree_ok_live [OF broker_invD(1) [OF be] _ xe] ce by (simp add: clients_def)
    have wf: "wild_free topic" "st_qos (db_store e (cm_store x)) \<le> 2" using broker_invD(5) [OF be] t by (simp_all add: topics_ok_def)
    note r = Suc.prems(3) [unfolded release_loop.simps Let_def if_not_P [OF False] p prod.case, folded e_def]
    show ?thesis
    proof (cases "cm_mid x = mid \<and> cm_direction x = dir")
      case True
      let ?q = "mqtt3_db_messages_queue e (Some (st_source_id (db_store e (cm_store x)))) topic (st_qos (db_store e (cm_store x))) (cm_retain x) (cm_store x)"
      define g where "g = snd ?q"
      note fq = same_frame_messages_queue [OF be lv wf(2), of "Some (st_source_id (db_store e (cm_store x)))" topic "cm_retain x"]
      have q: "?q = (0, g)" using fq(2) by (simp add: g_def prod_eq_iff)
      have bg: "inv_step L N e g" using broker_inv_messages_queue [OF be lv ht wf(2,1)] fq(1) by (simp add: inv_step_def g_def)
      have ig: "i < length (m_msgs (db_ctx g c))"
      proof -
        obtain ex where "m_msgs (db_ctx g c) = m_msgs (db_ctx e c) @ ex" using fq(3) unfolding grows_def g_def by blast
        then show ?thesis using ie by simp
      qed
      let ?gs = "m_msgs (db_ctx g c)"
      define f where "f = message_remove g c (take i ?gs) (?gs ! i) (drop (Suc i) ?gs)"
      have cg: "c \<in> clients g" using ce inv_stepD(3) [OF bg] by simp
      have bf: "inv_step L N g f" unfolding f_def by (rule broker_inv_remove [OF inv_stepD(1) [OF bg] cg ig])
      have all: "inv_step L N db f" by (rule inv_step_trans [OF e inv_step_trans [OF bg bf]])
      have cf: "c \<in> clients f" using cg inv_stepD(3) [OF bf] by simp
      have "Some (rc, db') = Some (MOSQ_ERR_SUCCESS, f) \<or> release_loop fuel f c mid dir n True i = Some (rc, db')"
        using r True by (simp add: lv t q f_def split: if_splits)
      then show ?thesis using all Suc.IH [OF inv_stepD(1) [OF all] cf] inv_step_trans [OF all] by blast
    next
      case no: False
      then have "Some (rc, db') = Some (MOSQ_ERR_SUCCESS, e) \<or> release_loop fuel e c mid dir (n + 1) del (i + 1) = Some (rc, db')"
        using r by (auto split: if_splits)
      then show ?thesis using e Suc.IH [OF be ce] inv_step_trans [OF e] by blast
    qed
  qed
qed simp

lemma release_inv:
  "broker_inv L N db \<Longrightarrow> c \<in> clients db \<Longrightarrow> mqtt3_db_message_release fuel db c mid dir = Some (rc, db') \<Longrightarrow> inv_step L N db db'"
  unfolding mqtt3_db_message_release_def by (rule release_loop_inv)

section \<open>Subscribing and unsubscribing\<close>

lemma same_frame_subs_step: "subs_step c db db' \<Longrightarrow> same_frame db db'"
  unfolding subs_step_def by (elim exE) (rule same_frameI; simp add: upd_ctx_def ctx_frame_def)

lemma subs_step_msgs: "subs_step c db db' \<Longrightarrow> quad (db_ctx db' d) = quad (db_ctx db d)"
  unfolding subs_step_def by (elim exE) (simp add: upd_ctx_def quad_def)

lemma subs_step_other: "subs_step c db db' \<Longrightarrow> d \<noteq> c \<Longrightarrow> db_ctx db' d = db_ctx db d"
  unfolding subs_step_def by (elim exE) (simp add: upd_ctx_def)

lemma broker_inv_subs_step:
  assumes b: "broker_inv L N db" and s: "subs_step c db db'" and t: "tree_ok db'" "subs_ok db'"
    and r: "\<And>s. tree_refs (db_subs db') s = tree_refs (db_subs db) s"
    and f: "fresh (db_ctx db c) \<Longrightarrow> c \<notin> N \<Longrightarrow> m_subs (db_ctx db' c) = []"
  shows "inv_step L N db db'"
proof -
  have "broker_inv L N db'"
  proof (rule broker_inv_frame [OF b same_frame_subs_step [OF s] t])
    fix d assume d: "fresh (db_ctx db d)" "d \<notin> N"
    have "m_subs (db_ctx db' d) = m_subs (db_ctx db d)"
    proof (cases "d = c")
      case True
      then show ?thesis using f d by (simp add: fresh_def)
    qed (simp add: subs_step_other [OF s])
    then show "quad (db_ctx db' d) = quad (db_ctx db d) \<and> m_subs (db_ctx db' d) = m_subs (db_ctx db d)"
      by (simp add: subs_step_msgs [OF s])
  next
    show "d \<in> clients db \<Longrightarrow> x \<in> set (m_msgs (db_ctx db' d)) \<Longrightarrow> has_topic db (cm_store x)" for d x
      using broker_inv_msg [OF b] quad_msgs [OF subs_step_msgs [OF s, of d]] by simp
  qed (simp add: r broker_inv_tree [OF b])
  then show ?thesis using same_frame_subs_step [OF s] by (simp add: inv_step_def)
qed

text \<open>A client without an identifier only creates nodes.\<close>

lemma sub_add_node_no_id:
  "m_live (db_ctx db c) \<Longrightarrow> m_id (db_ctx db c) = None \<Longrightarrow>
   sub_add_node db (Some c) qos path h toks = sub_add_node db None qos path h toks"
proof (induction toks arbitrary: path h)
  case Nil
  then show ?case by (simp add: sub_add_leaf_def)
next
  case (Cons tok toks)
  then show ?case by (simp split: option.split)
qed

lemma sub_add_no_id:
  assumes c: "m_live (db_ctx db c)" "m_id (db_ctx db c) = None" and r: "mqtt3_sub_add db c sub qos = (rc, db')"
  shows "db' = db\<lparr>db_subs := db_subs db'\<rparr>" "tree_refs (db_subs db') s = tree_refs (db_subs db) s"
    "tree_leaves (db_subs db') = tree_leaves (db_subs db)" "leaves_at q (root_of db') = leaves_at q (root_of db)"
proof -
  let ?toks = "sub_topic_tokenise sub"
  let ?top = "hd ?toks"
  have "db' = db\<lparr>db_subs := db_subs db'\<rparr> \<and> tree_refs (db_subs db') s = tree_refs (db_subs db) s \<and>
    tree_leaves (db_subs db') = tree_leaves (db_subs db) \<and> leaves_at q (root_of db') = leaves_at q (root_of db)"
  proof (cases "find_branch ?top (db_subs db)")
    case None
    obtain rc1 b db1 where n: "sub_add_node db None qos [?top] (Subhier ?top [] None []) ?toks = (rc1, b, db1)" by (metis prod_cases3)
    note sp = sub_add_node_None [OF n, of s]
    have e: "db' = db\<lparr>db_subs := b # db_subs db\<rparr>" using r sp by (auto simp: mqtt3_sub_add_def Let_def None sub_add_node_no_id [OF c] n)
    have at: "leaves_at p b = []" for p using sub_add_node_None_at [OF n, of p] by simp
    have tp: "h_topic b = ?top" using sp by simp
    note ch = child_add(2) [OF None tp]
    have c0: "child ?top (db_subs db) = None" using None by (simp add: child_def)
    have "leaves_at q (root_of db') = leaves_at q (root_of db)"
    proof (cases q)
      case (Cons t p)
      then show ?thesis using c0 at ch by (cases "t = ?top") (simp_all add: e at_child)
    qed (simp add: root_of_def)
    then show ?thesis using sp r by (auto simp: e tree_refs_Cons tree_leaves_Cons oref_def)
  next
    case (Some lbr)
    obtain l0 b0 r0 where lbr: "lbr = (l0, b0, r0)" by (cases lbr)
    note fb = Some [unfolded lbr]
    obtain rc1 b db1 where n: "sub_add_node db None qos [?top] b0 ?toks = (rc1, b, db1)" by (metis prod_cases3)
    note sp = sub_add_node_None [OF n, of s] and fs = find_branch_Some [OF fb]
    have e: "db' = db\<lparr>db_subs := l0 @ b # r0\<rparr>" using r sp by (auto simp: mqtt3_sub_add_def Let_def fb sub_add_node_no_id [OF c] n)
    have tp: "h_topic b = ?top" using sp fs by simp
    have fr: "find_branch ?top (h_children (root_of db)) = Some (l0, b0, r0)" using fb by simp
    note ar = at_replace [OF fr tp]
    have "leaves_at q (root_of db') = leaves_at q (root_of db)"
    proof (cases q)
      case (Cons t p)
      then show ?thesis using ar(1) [of t p] ar(3) [of p] sub_add_node_None_at [OF n, of p] by (simp add: e)
    qed (simp add: root_of_def)
    then show ?thesis using sp fs by (auto simp: e tree_refs_Cons tree_leaves_Cons)
  qed
  then show "db' = db\<lparr>db_subs := db_subs db'\<rparr>" "tree_refs (db_subs db') s = tree_refs (db_subs db) s"
    "tree_leaves (db_subs db') = tree_leaves (db_subs db)" "leaves_at q (root_of db') = leaves_at q (root_of db)" by blast+
qed

lemma tree_holds: "broker_inv L N db \<Longrightarrow> holds (clients db) (db_subs db)"
  by (drule broker_invD(1)) (simp add: tree_ok_holds)

lemma clientsD: "c \<in> clients db \<Longrightarrow> m_live (db_ctx db c)" "c \<in> clients db \<Longrightarrow> c < db_next_ctx db"
  by (simp_all add: clients_def)

lemma sub_add_inv:
  assumes b: "broker_inv L N db" and c: "c \<in> clients db" and q: "qos \<le> 2" and p: "path_ok (sub_topic_tokenise sub)"
  shows "inv_step L N db (snd (mqtt3_sub_add db c sub qos))"
proof -
  obtain rc db' where r: "mqtt3_sub_add db c sub qos = (rc, db')" by fastforce
  note bd = broker_invD [OF b] and cl = clientsD [OF c]
  have "inv_step L N db db'"
  proof (cases "m_id (db_ctx db c)")
    case (Some cid)
    note st = sub_add_step [OF bd(1,2) c Some q r]
    show ?thesis
    proof (rule broker_inv_subs_step [OF b st(2,1)])
      show "subs_ok db'" using sub_add_subs_ok [OF bd(2) cl(1) Some p, of qos] by (simp add: r)
      show "tree_refs (db_subs db') s = tree_refs (db_subs db) s" for s using sub_add_refs [OF r tree_holds [OF b] c q] by blast
      show "fresh (db_ctx db c) \<Longrightarrow> c \<notin> N \<Longrightarrow> m_subs (db_ctx db' c) = []" using Some by (simp add: fresh_def)
    qed
  next
    case None
    note na = sub_add_no_id [OF cl(1) None r]
    define hs where "hs = db_subs db'"
    have e: "db' = db\<lparr>db_subs := hs\<rparr>" using na(1) by (simp add: hs_def)
    have lv: "leaves_at q (set_children hs (root_of db)) = leaves_at q (root_of db)" for q using na(4) [of q] by (simp add: e)
    have st: "subs_step c db db'" unfolding subs_step_def e by (intro exI [of _ m_subs] exI [of _ hs]) (simp add: upd_ctx_def)
    show ?thesis
    proof (rule broker_inv_subs_step [OF b st])
      have "tree_leaves hs = tree_leaves (db_subs db)" using na(3) by (simp add: hs_def)
      then have "holds (clients db) hs" using tree_holds [OF b] by (simp add: holds_def)
      moreover have "tree_refs hs s = tree_refs (db_subs db) s" for s using na(2) by (simp add: hs_def)
      ultimately show "tree_ok db'" unfolding e by (intro tree_ok_subs(2) [OF bd(1)]) simp_all
      have w: "wf_node (root_of db')" using sub_add_wf [OF _ p, of db c qos] bd(2) r by (simp add: subs_ok_def)
      show "subs_ok db'"
        using bd(2) w unfolding subs_ok_def slots_ok_def live_leaves_def by (simp add: e lv)
      show "fresh (db_ctx db c) \<Longrightarrow> c \<notin> N \<Longrightarrow> m_subs (db_ctx db' c) = []" by (simp add: e fresh_def)
    qed (use na(2) in simp)
  qed
  then show ?thesis by (simp add: r)
qed

lemma sub_remove_inv:
  assumes b: "broker_inv L N db"
  shows "inv_step L N db (snd (mqtt3_sub_remove db c sub))"
proof -
  obtain rc db' where r: "mqtt3_sub_remove db c sub = (rc, db')" by fastforce
  note bd = broker_invD [OF b]
  note st = sub_remove_step [OF bd(1,2) r]
  have "inv_step L N db db'"
  proof (rule broker_inv_subs_step [OF b st(2,1)])
    show "subs_ok db'" using sub_remove_subs_ok [OF bd(2), of c sub] by (simp add: r)
    show "tree_refs (db_subs db') s = tree_refs (db_subs db) s" for s using sub_remove_refs [OF r tree_holds [OF b]] by blast
    show "m_subs (db_ctx db' c) = []" if f: "fresh (db_ctx db c)"
    proof -
      have w: "wf_node (root_of db)" using bd(2) by (simp add: subs_ok_def)
      have "db_ctx db' = db_ctx ((if drop_leaf c (leaves_at (path_of sub) (root_of db)) = None then db
             else upd_ctx c (\<lambda>m. m\<lparr>m_subs := clear_slot (path_of sub) (m_subs m)\<rparr>) db)\<lparr>db_subs := db_subs db'\<rparr>)"
        using sub_remove_spec [OF w r, of "[]"] by metis
      then show ?thesis using f by (simp add: fresh_def)
    qed
  qed
  then show ?thesis by (simp add: r)
qed

lemma clean_session_inv:
  assumes b: "broker_inv L N db"
  shows "inv_step L N db (snd (mqtt3_subs_clean_session db c))"
    "m_subs (db_ctx (snd (mqtt3_subs_clean_session db c)) c) = []"
    "leaves_at q (root_of (snd (mqtt3_subs_clean_session db c))) = filter (\<lambda>l. fst l \<noteq> c) (leaves_at q (root_of db))"
proof -
  obtain rc db' where r: "mqtt3_subs_clean_session db c = (rc, db')" by fastforce
  note bd = broker_invD [OF b]
  note st = clean_session_step [OF bd(1,2) r] and sp = clean_session_spec [OF bd(2) r]
  obtain hs where e: "db' = upd_ctx c (\<lambda>m. m\<lparr>m_subs := []\<rparr>) (db\<lparr>db_subs := hs\<rparr>)" using sp(1) by blast
  show "leaves_at q (root_of (snd (mqtt3_subs_clean_session db c))) = filter (\<lambda>l. fst l \<noteq> c) (leaves_at q (root_of db))"
    using sp(3) by (simp add: r)
  show "m_subs (db_ctx (snd (mqtt3_subs_clean_session db c)) c) = []" by (simp add: r e)
  have "inv_step L N db db'"
  proof (rule broker_inv_subs_step [OF b st(2,1)])
    show "subs_ok db'" using clean_session_subs_ok [OF bd(2), of c] by (simp add: r)
    show "tree_refs (db_subs db') s = tree_refs (db_subs db) s" for s using clean_session_refs [OF r tree_holds [OF b]] by blast
    show "m_subs (db_ctx db' c) = []" by (simp add: e)
  qed
  then show "inv_step L N db (snd (mqtt3_subs_clean_session db c))" by (simp add: r)
qed

lemma retain_queue_inv:
  assumes b: "broker_inv L N db" and c: "c \<in> clients db" and q: "qos \<le> 2"
  shows "inv_step L N db (snd (mqtt3_retain_queue db c sub qos))"
proof -
  obtain rc db' where r: "mqtt3_retain_queue db c sub qos = (rc, db')" by fastforce
  note bd = broker_invD [OF b]
  note rq = retain_queue_ok [OF bd(1) c q broker_inv_tree [OF b] r]
  have "broker_inv L N db'"
  proof (rule broker_inv_frame [OF b same_frame_keep [OF rq(2)] rq(1)])
    show "subs_ok db'" using bd(2) subs_ok_keep [OF rq(2)] by simp
    show "0 < tree_refs (db_subs db') s \<Longrightarrow> has_topic db s" for s using broker_inv_tree [OF b] by (simp add: keep_sel(3) [OF rq(2)])
    show "quad (db_ctx db' d) = quad (db_ctx db d) \<and> m_subs (db_ctx db' d) = m_subs (db_ctx db d)" if "fresh (db_ctx db d)" for d
      using that tstepD(4) [OF rq(3)] keep_ctx_sel(4) [OF keep_sel(1) [OF rq(2)]] by (simp add: fresh_def)
    show "has_topic db (cm_store x)" if "d \<in> clients db" "x \<in> set (m_msgs (db_ctx db' d))" for d x
      using tstepD(3) [OF rq(3) that(2)] broker_inv_msg [OF b that(1)] by blast
  qed
  then show ?thesis using inv_step_keep [OF _ rq(2)] by (simp add: r)
qed

end
