(* ===== verification/Mqtt_Handler_Laws.thy ===== *)
theory Mqtt_Handler_Laws
  imports Mqtt_Broker_Inv
begin

text \<open>
  The packet handlers (\<^verbatim>\<open>src/read_handle.c\<close>, \<^verbatim>\<open>src/read_handle_server.c\<close>, \<^verbatim>\<open>lib/read_handle_shared.c\<close>) keep the
  invariant of the broker.
\<close>

section \<open>Handlers\<close>

definition inv_to :: "nat list \<Rightarrow> nat set \<Rightarrow> mosq_db \<Rightarrow> mosq_db \<Rightarrow> bool" where
  "inv_to L N db db' \<longleftrightarrow> broker_inv L N db' \<and> clients db' = clients db \<and> db_ll_for_free db' = db_ll_for_free db \<and>
     (\<forall>d. ctx_frame (db_ctx db' d) = ctx_frame (db_ctx db d))"

lemma inv_stepI: "inv_step L N db db' \<Longrightarrow> inv_to L N db db'"
  by (simp add: inv_to_def inv_step_def same_frame_clients) (simp add: same_frame_def)

lemma inv_to_trans: "inv_to L N a b \<Longrightarrow> inv_to L N b c \<Longrightarrow> inv_to L N a c"
  by (simp add: inv_to_def)

lemma inv_to_refl: "broker_inv L N db \<Longrightarrow> inv_to L N db db"
  by (simp add: inv_to_def)

lemma inv_toD:
  assumes "inv_to L N db db'"
  shows "broker_inv L N db'" "clients db' = clients db" "m_id (db_ctx db' d) = m_id (db_ctx db d)"
    "m_listener (db_ctx db' d) = m_listener (db_ctx db d)" "m_state (db_ctx db' d) = m_state (db_ctx db d)"
  using assms unfolding inv_to_def ctx_frame_def by auto

lemma quiet_upds:
  "quiet (\<lambda>m. m\<lparr>m_in_packet := p\<rparr>)" "quiet (\<lambda>m. m\<lparr>m_ping_t := t\<rparr>)" "quiet (\<lambda>m. m\<lparr>m_keepalive := k\<rparr>)"
  "quiet (\<lambda>m. m\<lparr>m_protocol := pr\<rparr>)" "quiet (\<lambda>m. m\<lparr>m_username := u, m_password := pw\<rparr>)" "quiet (\<lambda>m. m\<lparr>m_disconnect_t := t\<rparr>)"
  "quiet (\<lambda>m. m\<lparr>m_in_packet := g m, m_last_msg_in := t\<rparr>)" "quiet (\<lambda>m. m\<lparr>m_clean_session := b\<rparr>)" "quiet (\<lambda>m. m\<lparr>m_acl_list := a\<rparr>)"
  "quiet (\<lambda>m. m\<lparr>m_address := ad\<rparr>)" "quiet (\<lambda>m. m\<lparr>m_last_msg_in := t, m_last_msg_out := t'\<rparr>)"
  by (simp_all add: quiet_def ctx_frame_def quad_def)

lemma read_in_step: "read_in c f db = Some (x, db') \<Longrightarrow> broker_inv L N db \<Longrightarrow> inv_step L N db db'"
  by (auto simp: read_in_def intro!: inv_step_upd quiet_upds split: option.splits)

lemma read_in_to: "read_in c f db = Some (x, db') \<Longrightarrow> broker_inv L N db \<Longrightarrow> inv_to L N db db'"
  by (intro inv_stepI read_in_step)

lemma send_to:
  assumes "broker_inv L N db" "\<And>now m. same_client m (snd (f now m))"
  shows "inv_to L N db (snd (send_ctx c f db))"
  by (intro inv_stepI inv_step_send assms)

lemma pingreq_inv: "broker_inv L N db \<Longrightarrow> inv_to L N db (snd (mosquitto_handle_pingreq db c))"
  unfolding mosquitto_handle_pingreq_def by (rule send_to) simp_all

lemma pingresp_inv: "broker_inv L N db \<Longrightarrow> inv_to L N db (snd (mosquitto_handle_pingresp db c))"
  by (simp add: mosquitto_handle_pingresp_def inv_stepI inv_step_upd quiet_upds)

lemma delete_step: "broker_inv L N db \<Longrightarrow> c \<in> clients db \<Longrightarrow> inv_step L N db (snd (mqtt3_db_message_delete db c mid dir))"
  by (rule inv_step_keep) (simp_all add: broker_inv_delete)

lemma update_step: "broker_inv L N db \<Longrightarrow> c \<in> clients db \<Longrightarrow> inv_step L N db (snd (mqtt3_db_message_update db c mid dir st))"
  by (rule inv_step_keep) (simp_all add: broker_inv_update)

lemma insert_step:
  assumes "broker_inv L N db" "c \<in> clients db" "st_live (db_store db s)" "has_topic db s" "qos \<le> 2" "dir = mosq_md_in \<Longrightarrow> qos = 2"
  shows "inv_step L N db (snd (mqtt3_db_message_insert db c mid dir qos retain s))"
  by (rule inv_step_keep [OF broker_inv_insert [OF assms]]) simp_all

lemma pubackcomp_inv:
  assumes b: "broker_inv L N db" and c: "c \<in> clients db"
  shows "inv_to L N db (snd (mosquitto_handle_pubackcomp db c))"
proof (cases "read_in c mosquitto_read_uint16 db")
  case None
  then show ?thesis by (simp add: mosquitto_handle_pubackcomp_def inv_to_refl [OF b])
next
  case (Some r)
  obtain mid d where r: "r = (mid, d)" by (cases r)
  have s: "inv_step L N db d" by (rule read_in_step [OF Some [unfolded r] b])
  have cd: "c \<in> clients d" using c inv_stepD(3) [OF s] by simp
  have "inv_step L N d (snd (mqtt3_db_message_delete d c mid mosq_md_out))" by (rule delete_step [OF inv_stepD(1) [OF s] cd])
  from inv_stepI [OF inv_step_trans [OF s this]] show ?thesis
    using inv_stepI [OF s] Some by (auto simp: mosquitto_handle_pubackcomp_def r split: prod.split)
qed

lemma pubrec_inv:
  assumes b: "broker_inv L N db" and c: "c \<in> clients db"
  shows "inv_to L N db (snd (mosquitto_handle_pubrec db c))"
proof (cases "read_in c mosquitto_read_uint16 db")
  case None
  then show ?thesis by (simp add: mosquitto_handle_pubrec_def inv_to_refl [OF b])
next
  case (Some r)
  obtain mid d where r: "r = (mid, d)" by (cases r)
  have s: "inv_step L N db d" by (rule read_in_step [OF Some [unfolded r] b])
  have cd: "c \<in> clients d" using c inv_stepD(3) [OF s] by simp
  obtain rc e where u: "mqtt3_db_message_update d c mid mosq_md_out mosq_ms_wait_for_pubcomp = (rc, e)" by fastforce
  have "inv_step L N d e" using update_step [OF inv_stepD(1) [OF s] cd] u by (metis snd_conv)
  then have e: "inv_to L N db e" using inv_stepI [OF inv_step_trans [OF s]] by blast
  have "inv_to L N e (snd (send_ctx c (\<lambda>now m. mosquitto_send_pubrel now m mid) e))" by (rule send_to [OF inv_toD(1) [OF e]]) simp
  then show ?thesis using e inv_to_trans [OF e] Some by (simp add: mosquitto_handle_pubrec_def r u)
qed

lemma pubrel_inv:
  assumes b: "broker_inv L N db" and c: "c \<in> clients db" and r: "mosquitto_handle_pubrel fuel db c = Some (rc, db')"
  shows "inv_to L N db db'"
proof (cases "read_in c mosquitto_read_uint16 db")
  case None
  then show ?thesis using r inv_to_refl [OF b] by (auto simp: mosquitto_handle_pubrel_def Let_def split: if_splits)
next
  case (Some x)
  obtain mid d where x: "x = (mid, d)" by (cases x)
  have s: "inv_step L N db d" by (rule read_in_step [OF Some [unfolded x] b])
  have cd: "c \<in> clients d" using c inv_stepD(3) [OF s] by simp
  show ?thesis
  proof (cases "m_protocol (db_ctx db c) = mosq_p_mqtt311 \<and> pk_command (m_in_packet (db_ctx db c)) AND 0x0F \<noteq> 0x02")
    case True
    then show ?thesis using r inv_to_refl [OF b] by (simp add: mosquitto_handle_pubrel_def Let_def)
  next
    case False
    obtain rc1 e where m: "mqtt3_db_message_release fuel d c mid mosq_md_in = Some (rc1, e)"
      and db': "db' = snd (send_ctx c (\<lambda>now m. mosquitto_send_pubcomp now m mid) e)"
      using r False Some by (auto simp: mosquitto_handle_pubrel_def Let_def x split: option.splits)
    have e: "inv_step L N db e" by (rule inv_step_trans [OF s release_inv [OF inv_stepD(1) [OF s] cd m]])
    have "inv_to L N e db'" unfolding db' by (rule send_to [OF inv_stepD(1) [OF e]]) simp
    then show ?thesis by (rule inv_to_trans [OF inv_stepI [OF e]])
  qed
qed

section \<open>PUBLISH\<close>

lemma open_acl: "open_db db \<Longrightarrow> mosquitto_acl_check db m topic access = (if m_id m = None then MOSQ_ERR_ACL_DENIED else MOSQ_ERR_SUCCESS)"
  by (simp add: open_db_def mosquitto_acl_check_def mosquitto_acl_check_default_def split: option.split)

lemma message_store_to:
  assumes b: "broker_inv L N db" and q: "qos \<le> 2" and t: "\<And>t. topic = Some t \<Longrightarrow> wild_free t"
    and r: "mqtt3_db_message_store db source mid topic qos payload retain 0 = (s, d)"
  shows "inv_to L N db d" "st_live (db_store d s)" "st_topic (db_store d s) = topic"
proof -
  note st = broker_inv_message_store [OF b q t r]
  have "db_next_ctx d = db_next_ctx db" "db_ll_for_free d = db_ll_for_free db"
    using r by (auto simp: mqtt3_db_message_store_def Let_def db_msg_store_add_def)
  then show "inv_to L N db d" using st by (simp add: inv_to_def clients_def)
  show "st_live (db_store d s)" "st_topic (db_store d s) = topic" using st(2,3) by blast+
qed

text \<open>What the search for a stored message finds.\<close>

lemma store_find_inv:
  assumes b: "broker_inv L N db" and c: "c \<in> clients db" and f: "mqtt3_db_message_store_find db c mid = (found, d)"
  shows "d = db" "found = Some s \<Longrightarrow> st_live (db_store db s) \<and> has_topic db s"
proof -
  note o = queues_ok_owns [OF broker_invD(1) [OF b, unfolded tree_ok_def, THEN conjunct1] clientsD(2) [OF c]]
  show "d = db" using store_find_owns(1) [OF o, of mid] by (simp add: f)
  assume "found = Some s"
  then obtain x where x: "x \<in> set (m_msgs (db_ctx db c))" "cm_store x = s" using store_find_owns(2) [OF o, of mid s] by (auto simp: f)
  then show "st_live (db_store db s) \<and> has_topic db s"
    using broker_inv_msg [OF b c x(1)] tree_ok_live [OF broker_invD(1) [OF b] clientsD(2) [OF c] x(1)] by simp
qed

lemma publish_bad_inv:
  assumes b: "broker_inv L N db" and c: "c \<in> clients db" and i: "m_id (db_ctx db c) = None" and q: "qos \<le> 2"
  shows "inv_to L N db (snd (publish_bad db c mid qos))"
proof -
  consider (q0) "qos = 0" | (q1) "qos = 1" | (q2) "qos = 2" using q by linarith
  then show ?thesis
  proof cases
    case q0
    then show ?thesis by (simp add: publish_bad_def inv_to_refl [OF b])
  next
    case q1
    then show ?thesis by (simp add: publish_bad_def send_to [OF b])
  next
    case q2
    obtain f d where f: "mqtt3_db_message_store_find db c mid = (f, d)" by fastforce
    have d: "d = db" by (rule store_find_inv(1) [OF b c f])
    have send: "inv_to L N db (snd (send_ctx c (\<lambda>now m. mosquitto_send_pubrec now m mid) e))" if "inv_to L N db e" for e
      by (rule inv_to_trans [OF that send_to [OF inv_toD(1) [OF that]]]) simp
    show ?thesis
    proof (cases f)
      case None
      obtain s e where s: "mqtt3_db_message_store db (m_id (db_ctx db c)) mid None 2 [] False 0 = (s, e)" by fastforce
      have st: "inv_to L N db e" by (rule message_store_to(1) [OF b _ _ s]) simp_all
      have "m_live (db_ctx e c)" "m_id (db_ctx e c) = None"
        using c clientsD(1) [of c e] inv_toD(2,3) [OF st] i by simp_all
      then have "mqtt3_db_message_insert e c mid mosq_md_in 2 False s = (MOSQ_ERR_SUCCESS, e)" by (simp add: mqtt3_db_message_insert_def)
      then show ?thesis using q2 send [OF st] by (simp add: publish_bad_def f d None s [simplified i] i mosq_err_defs)
    next
      case (Some s)
      then show ?thesis using q2 send [OF inv_to_refl [OF b]] by (simp add: publish_bad_def f d)
    qed
  qed
qed

lemma publish_good_inv:
  assumes b: "broker_inv L N db" and c: "c \<in> clients db" and q: "qos \<le> 2" and t: "wild_free topic"
  shows "inv_to L N db (snd (publish_good db c mid topic qos payload retain))"
proof -
  obtain f d0 where f: "(if qos > 0 then mqtt3_db_message_store_find db c mid else (None, db)) = (f, d0)" by fastforce
  have d0: "d0 = db" "\<And>s. f = Some s \<Longrightarrow> st_live (db_store db s) \<and> has_topic db s"
    using f store_find_inv [OF b c, of mid f d0] by (auto split: if_splits)
  obtain s d where s: "(case f of None \<Rightarrow> mqtt3_db_message_store db (m_id (db_ctx db c)) mid (Some topic) qos payload retain 0
      | Some stored \<Rightarrow> (stored, db)) = (s, d)" by fastforce
  have d: "inv_to L N db d \<and> st_live (db_store d s) \<and> has_topic d s"
  proof (cases f)
    case None
    then have m: "mqtt3_db_message_store db (m_id (db_ctx db c)) mid (Some topic) qos payload retain 0 = (s, d)" using s by simp
    have "\<And>u. Some topic = Some u \<Longrightarrow> wild_free u" using t by simp
    from message_store_to [OF b q this m] show ?thesis by (simp add: has_topic_def)
  next
    case (Some st)
    then show ?thesis using s d0(2) [OF Some] inv_to_refl [OF b] by auto
  qed
  then have bd: "inv_to L N db d" "st_live (db_store d s)" "has_topic d s" by blast+
  note bi = inv_toD(1) [OF bd(1)]
  have cd: "c \<in> clients d" using c inv_toD(2) [OF bd(1)] by simp
  obtain r e where mq: "mqtt3_db_messages_queue d (m_id (db_ctx d c)) topic qos retain s = (r, e)" by fastforce
  have e: "inv_to L N db e"
    using broker_inv_messages_queue [OF bi bd(2,3) q t, of "m_id (db_ctx d c)" retain]
      same_frame_messages_queue(1) [OF bi bd(2) q, of "m_id (db_ctx d c)" topic retain]
    by (intro inv_to_trans [OF bd(1)] inv_stepI) (simp add: inv_step_def mq)
  have send: "inv_to L N db (snd (send_ctx c g x))" if "inv_to L N db x" "\<And>now m. same_client m (snd (g now m))" for g x
    by (rule inv_to_trans [OF that(1) send_to [OF inv_toD(1) [OF that(1)] that(2)]])
  have ins: "inv_to L N db (snd (mqtt3_db_message_insert d c mid mosq_md_in qos retain s))" if "qos = 2"
    using that by (intro inv_to_trans [OF bd(1)] inv_stepI insert_step [OF bi cd bd(2,3) q]) simp
  consider (q0) "qos = 0" | (q1) "qos = 1" | (q2) "qos = 2" using q by linarith
  then show ?thesis
  proof cases
    case q0
    then show ?thesis using q0 f s mq e d0(1) by (auto simp: publish_good_def split: prod.split)
  next
    case q1
    have "inv_to L N db (snd (send_ctx c (\<lambda>now m. mosquitto_send_puback now m mid) e))" by (rule send [OF e]) simp
    then show ?thesis using q1 f s mq d0(1) by (auto simp: publish_good_def split: prod.split)
  next
    case q2
    obtain r2 x where x: "(if f = None then mqtt3_db_message_insert d c mid mosq_md_in 2 retain s else (0, d)) = (r2, x)" by fastforce
    have ix: "inv_to L N db x" using x ins [OF q2] bd(1) q2 by (metis snd_conv)
    have "inv_to L N db (snd (send_ctx c (\<lambda>now m. mosquitto_send_pubrec now m mid) x))" by (rule send [OF ix]) simp
    then show ?thesis using q2 f s x ix d0(1) by (auto simp: publish_good_def split: prod.split)
  qed
qed

end
